(* ===== verification/Kioshun_Prelude.thy ===== *)
theory Kioshun_Prelude
  imports Main "HOL-Library.AList" "HOL-Library.Multiset" "HOL-Library.Word"
begin

text \<open>
  Shared vocabulary of the development: names for the model's machine types, Go maps as
  association lists with distinct keys, map iteration orders, signed 64-bit wrap-around, and the
  theory of doubly linked chains that both intrusive lists of the cache (the LRU list of a shard
  and the bucket list of the LFU index) are instances of.
\<close>

named_theorems list_link \<open>pointer-level facts about linked chains\<close>
named_theorems map_simps \<open>Go maps as association lists\<close>
named_theorems op_defs \<open>definitions of the modelled operations\<close>

section \<open>Machine types\<close>

type_synonym addr = nat
type_synonym u64 = "64 word"
type_synonym u32 = "32 word"
type_synonym u16 = "16 word"
type_synonym u8 = "8 word"
type_synonym bytes = "8 word list"

text \<open>The nil pointer. Every allocated object has a positive address.\<close>

abbreviation (input) nil :: addr where "nil \<equiv> 0"

text \<open>
  Go's \<open>int64\<close> (and \<open>int\<close>, on the 64-bit platforms the code targets) is an \<open>int\<close> here; \<open>i64\<close>
  is the wrap-around of two's complement, applied wherever the source adds or subtracts values
  that are not bounded by the code itself.
\<close>

definition i64 :: "int \<Rightarrow> int" where
  "i64 x = (x + 2 ^ 63) mod 2 ^ 64 - 2 ^ 63"

definition is_i64 :: "int \<Rightarrow> bool" where
  "is_i64 x \<longleftrightarrow> - (2 ^ 63) \<le> x \<and> x < 2 ^ 63"

lemma is_i64I: "0 \<le> x \<Longrightarrow> x < 2 ^ 63 \<Longrightarrow> is_i64 x"
  by (simp add: is_i64_def)

lemma i64_id [simp]: "is_i64 x \<Longrightarrow> i64 x = x"
  by (simp add: is_i64_def i64_def)

lemma is_i64_i64 [simp]: "is_i64 (i64 x)"
proof -
  have "0 \<le> (x + 2 ^ 63) mod 2 ^ 64" "(x + 2 ^ 63) mod 2 ^ 64 < (2 :: int) ^ 64"
    by (rule pos_mod_sign, simp, rule pos_mod_bound, simp)
  then show ?thesis unfolding is_i64_def i64_def by simp
qed

lemma i64_diff_i64: "i64 (i64 (a + b) - a) = i64 b"
proof -
  have "i64 (a + b) - a + 2 ^ 63 = (a + b + 2 ^ 63) mod 2 ^ 64 - a"
    by (simp add: i64_def)
  also have "\<dots> mod 2 ^ 64 = (a + b + 2 ^ 63 - a) mod 2 ^ 64"
    by (rule mod_diff_left_eq)
  finally show ?thesis by (simp add: i64_def)
qed

section \<open>Go maps\<close>

text \<open>
  A Go map is an association list with distinct keys. The list order carries no meaning: an
  operation that ranges over a map takes an \<^emph>\<open>iteration order\<close> as an argument, a function that
  returns some permutation of the entries it is given. This is the order Go leaves unspecified;
  what is proved holds for every permutation.
\<close>

type_synonym ('k, 'v) gomap = "('k \<times> 'v) list"
type_synonym 'a iter = "'a list \<Rightarrow> 'a list"

abbreviation mget :: "('k, 'v) gomap \<Rightarrow> 'k \<Rightarrow> 'v option" where
  "mget \<equiv> map_of"

abbreviation mput :: "'k \<Rightarrow> 'v \<Rightarrow> ('k, 'v) gomap \<Rightarrow> ('k, 'v) gomap" where
  "mput \<equiv> AList.update"

abbreviation mdel :: "'k \<Rightarrow> ('k, 'v) gomap \<Rightarrow> ('k, 'v) gomap" where
  "mdel \<equiv> AList.delete"

abbreviation keys_of :: "('k, 'v) gomap \<Rightarrow> 'k list" where
  "keys_of m \<equiv> map fst m"

abbreviation wf_map :: "('k, 'v) gomap \<Rightarrow> bool" where
  "wf_map m \<equiv> distinct (keys_of m)"

definition iter_ok :: "'a iter \<Rightarrow> bool" where
  "iter_ok it \<longleftrightarrow> (\<forall>xs. mset (it xs) = mset xs)"

lemma iter_ok_id [simp]: "iter_ok (\<lambda>xs. xs)" and iter_ok_rev [simp]: "iter_ok rev"
  by (simp_all add: iter_ok_def)

lemma iter_okD:
  assumes "iter_ok it"
  shows iter_ok_mset: "mset (it xs) = mset xs"
    and iter_ok_set [simp]: "set (it xs) = set xs"
    and iter_ok_length [simp]: "length (it xs) = length xs"
    and iter_ok_distinct [simp]: "distinct (it xs) = distinct xs"
    and iter_ok_Nil [simp]: "it xs = [] \<longleftrightarrow> xs = []"
proof -
  show *: "mset (it xs) = mset xs" using assms by (simp add: iter_ok_def)
  from * show "set (it xs) = set xs" by (rule mset_eq_setD)
  from * show "length (it xs) = length xs" by (rule mset_eq_length)
  from * show "distinct (it xs) = distinct xs" by (rule mset_eq_imp_distinct_iff)
  then show "it xs = [] \<longleftrightarrow> xs = []"
    using \<open>length (it xs) = length xs\<close> by (metis length_0_conv)
qed

lemma mget_mput [map_simps]: "mget (mput k v m) = (mget m)(k \<mapsto> v)"
  by (rule update_conv')

lemma mget_mdel [map_simps]: "mget (mdel k m) = (mget m)(k := None)"
  by (rule delete_conv')

lemma wf_mput [map_simps]: "wf_map m \<Longrightarrow> wf_map (mput k v m)"
  by (rule distinct_update)

lemma wf_mdel [map_simps]: "wf_map m \<Longrightarrow> wf_map (mdel k m)"
  by (rule distinct_delete)

lemma set_mput: "wf_map m \<Longrightarrow> set (mput k v m) = insert (k, v) {e \<in> set m. fst e \<noteq> k}"
  by (induction m) (auto simp: image_iff)

lemma set_mdel [map_simps]: "set (mdel k m) = {e \<in> set m. fst e \<noteq> k}"
  by (auto simp: AList.delete_eq)

lemma length_mput_new: "mget m k = None \<Longrightarrow> length (mput k v m) = Suc (length m)"
  by (induction m) (auto split: if_splits)

lemma length_mput_old: "mget m k = Some w \<Longrightarrow> length (mput k v m) = length m"
  by (induction m) (auto split: if_splits)

lemma length_mdel: "wf_map m \<Longrightarrow> mget m k = Some v \<Longrightarrow> Suc (length (mdel k m)) = length m"
proof (induction m)
  case (Cons e m)
  show ?case
  proof (cases "fst e = k")
    case True
    with Cons.prems have "mget m k = None"
      by (auto simp: map_of_eq_None_iff)
    then have "mdel k m = m" by (simp add: AList.delete_idem map_of_eq_None_iff)
    with True show ?thesis by (cases e) simp
  next
    case False
    with Cons show ?thesis by (cases e) auto
  qed
qed simp

lemma mget_Some_iff: "wf_map m \<Longrightarrow> mget m k = Some v \<longleftrightarrow> (k, v) \<in> set m"
  by simp

section \<open>Heaps\<close>

text \<open>
  Objects reached through pointers live in a heap, a finite map from addresses; \<open>z\<close> is the zeroed
  object, which is what an address that was never written holds.
\<close>

type_synonym 'x heap = "(addr, 'x) gomap"

definition hget :: "'x \<Rightarrow> 'x heap \<Rightarrow> addr \<Rightarrow> 'x" where
  "hget z h a = (case mget h a of Some x \<Rightarrow> x | None \<Rightarrow> z)"

lemma hget_simps [simp]: "hget z [] a = z" "hget z (mput a x h) b = (if b = a then x else hget z h b)"
  by (simp_all add: hget_def mget_mput)

lemma list_insert_not_Nil [simp]: "List.insert a xs \<noteq> []"
  by (auto simp: List.insert_def)

section \<open>Doubly linked chains\<close>

text \<open>
  \<open>links nx pv c\<close>: along the list \<open>c\<close> of addresses every node's next pointer leads to its
  successor and every node's previous pointer leads back. A chain with two sentinels is
  \<open>head # xs @ [tail]\<close>; a circular one is \<open>head # xs @ [head]\<close>. In both no address is twice a
  predecessor and none is twice a successor, which is what \<open>chain\<close> adds.
\<close>

fun links :: "(addr \<Rightarrow> addr) \<Rightarrow> (addr \<Rightarrow> addr) \<Rightarrow> addr list \<Rightarrow> bool" where
  "links nx pv (a # b # c) \<longleftrightarrow> nx a = b \<and> pv b = a \<and> links nx pv (b # c)"
| "links nx pv _ \<longleftrightarrow> True"

definition chain :: "(addr \<Rightarrow> addr) \<Rightarrow> (addr \<Rightarrow> addr) \<Rightarrow> addr list \<Rightarrow> bool" where
  "chain nx pv c \<longleftrightarrow> links nx pv c \<and> distinct (butlast c) \<and> distinct (tl c)"

lemma links_split [simp]:
  "links nx pv (us @ a # b # vs) \<longleftrightarrow>
     links nx pv (us @ [a]) \<and> nx a = b \<and> pv b = a \<and> links nx pv (b # vs)"
  by (induction us rule: induct_list012) auto

lemma links_cong:
  "(\<And>u. u \<in> set (butlast c) \<Longrightarrow> nx' u = nx u) \<Longrightarrow> (\<And>v. v \<in> set (tl c) \<Longrightarrow> pv' v = pv v) \<Longrightarrow>
   links nx' pv' c = links nx pv c"
proof (induction nx pv c rule: links.induct)
  case (1 nx pv a b c)
  have "links nx' pv' (b # c) = links nx pv (b # c)"
    by (rule "1.IH") (use "1.prems" in \<open>auto split: if_splits dest: in_set_butlastD\<close>)
  with "1.prems" show ?case by simp
qed auto

lemma chain_nx_pv:
  assumes "chain nx pv (us @ a # b # vs)"
  shows chain_nx: "nx a = b" and chain_pv: "pv b = a"
  using assms by (auto simp: chain_def)

lemma chain_insert [list_link]:
  assumes c: "chain nx pv (us @ a # b # vs)" and x: "x \<notin> set (us @ a # b # vs)"
    and nx: "\<And>u. nx' u = (if u = x then b else if u = a then x else nx u)"
    and pv: "\<And>u. pv' u = (if u = x then a else if u = b then x else pv u)"
  shows "chain nx' pv' (us @ a # x # b # vs)"
proof -
  let ?c = "us @ a # b # vs"
  have d: "a \<notin> set us" "a \<notin> set (butlast (b # vs))" "b \<notin> set vs" "b \<notin> set (tl (us @ [a]))"
    using c by (cases us; auto simp: chain_def butlast_append)+
  have l: "links nx pv (us @ [a])" "links nx pv (b # vs)"
    using c by (auto simp: chain_def)
  have t: "x \<notin> set (tl (us @ [a]))" "x \<notin> set (butlast (b # vs))"
    using x by (cases us; auto dest: in_set_butlastD)+
  have "links nx' pv' (us @ [a])"
    using l(1) by (subst links_cong[where nx = nx and pv = pv])
      (use d x t nx pv in \<open>force+\<close>)
  moreover have "links nx' pv' (b # vs)"
    using l(2) by (subst links_cong[where nx = nx and pv = pv])
      (use d x t nx pv in \<open>force+\<close>)
  ultimately have "links nx' pv' (us @ a # x # b # vs)"
    using x by (auto simp: nx pv)
  moreover have "distinct (butlast (us @ a # x # b # vs))" "distinct (tl (us @ a # x # b # vs))"
    using c x by (cases us; auto simp: chain_def butlast_append dest: in_set_butlastD)+
  ultimately show ?thesis by (simp add: chain_def)
qed

lemma chain_remove [list_link]:
  assumes c: "chain nx pv (us @ a # x # b # vs)" and x: "x \<notin> set (us @ a # b # vs)"
    and nx: "\<And>u. u \<noteq> x \<Longrightarrow> nx' u = (if u = a then b else nx u)"
    and pv: "\<And>u. u \<noteq> x \<Longrightarrow> pv' u = (if u = b then a else pv u)"
  shows "chain nx' pv' (us @ a # b # vs)"
proof -
  have d: "a \<notin> set us" "a \<notin> set (butlast (b # vs))" "b \<notin> set vs" "b \<notin> set (tl (us @ [a]))"
    using c by (cases us; auto simp: chain_def butlast_append)+
  have l: "links nx pv (us @ [a])" "links nx pv (b # vs)"
    using c by (auto simp: chain_def)
  have t: "x \<notin> set (tl (us @ [a]))" "x \<notin> set (butlast (b # vs))"
    using x by (cases us; auto dest: in_set_butlastD)+
  have "links nx' pv' (us @ [a])"
    using l(1) by (subst links_cong[where nx = nx and pv = pv])
      (use d x t nx pv in \<open>force+\<close>)
  moreover have "links nx' pv' (b # vs)"
    using l(2) by (subst links_cong[where nx = nx and pv = pv])
      (use d x t nx pv in \<open>force+\<close>)
  ultimately have "links nx' pv' (us @ a # b # vs)"
    using x by (auto simp: nx pv)
  moreover have "distinct (butlast (us @ a # b # vs))" "distinct (tl (us @ a # b # vs))"
    using c x by (cases us; auto simp: chain_def butlast_append dest: in_set_butlastD)+
  ultimately show ?thesis by (simp add: chain_def)
qed

lemma chain_cong:
  "chain nx pv c \<Longrightarrow> (\<And>u. u \<in> set (butlast c) \<Longrightarrow> nx' u = nx u) \<Longrightarrow>
   (\<And>v. v \<in> set (tl c) \<Longrightarrow> pv' v = pv v) \<Longrightarrow> chain nx' pv' c"
  unfolding chain_def using links_cong[of c nx' nx pv' pv] by blast

section \<open>Words\<close>

unbundle bit_operations_syntax

lemma unat_and_mask_less: "k < 64 \<Longrightarrow> unat (h AND mask k :: u64) < 2 ^ k"
  by (simp flip: take_bit_eq_mask add: unsigned_take_bit_eq)

lemma pow2_index: "u < (2::nat) ^ k \<Longrightarrow> u div 2 ^ j < max 1 (2 ^ k div 2 ^ j)"
proof (cases "j \<le> k")
  case True
  assume "u < 2 ^ k"
  then have "u < 2 ^ (k - j) * 2 ^ j" using True by (simp flip: power_add)
  then have "u div 2 ^ j < 2 ^ (k - j)" by (simp add: less_mult_imp_div_less)
  then show ?thesis using True by (simp add: power_diff less_max_iff_disj)
next
  case False
  assume "u < 2 ^ k"
  also have "(2::nat) ^ k \<le> 2 ^ j" using False by (intro power_increasing) auto
  finally show ?thesis by simp
qed

lemma unat_mod64: "unat (h mod 64 :: u64) < 64"
  by (simp add: unat_mod)

lemma div_mod_eq_u64:
  fixes h h' :: u64
  assumes "unat (h div 64) = unat (h' div 64)" "unat (h mod 64) = unat (h' mod 64)"
  shows "h = h'"
proof -
  have "h div 64 = h' div 64" "h mod 64 = h' mod 64" using assms by (auto simp: word_unat_eq_iff)
  then have "h div 64 * 64 + h mod 64 = h' div 64 * 64 + h' mod 64" by (simp only:)
  then show ?thesis by (simp only: div_mult_mod_eq)
qed

lemma word_pow2: "k \<le> 62 \<Longrightarrow> unat (2 ^ k :: u64) = 2 ^ k"
proof -
  assume "k \<le> 62"
  then have "(2::nat) ^ k \<le> 2 ^ 62" by (intro power_increasing) auto
  moreover have "(2 :: u64) ^ k = of_nat (2 ^ k)" by simp
  ultimately show ?thesis by (simp only: unat_of_nat) simp
qed

lemma succ_div_16: "(m::nat) mod 16 < 15 \<Longrightarrow> Suc m div 16 = m div 16"
  by (simp add: div_Suc mod_Suc)

lemma nib_add_above:
  assumes "c div 16 ^ i mod 16 < (15::nat)" "i < j"
  shows "(c + 16 ^ i) div 16 ^ j = c div 16 ^ j"
proof -
  have j: "(16::nat) ^ j = 16 ^ i * (16 * 16 ^ (j - i - 1))"
    using assms(2) by (simp flip: power_Suc power_add)
  have "(c + 16 ^ i) div 16 ^ j = Suc (c div 16 ^ i) div 16 div 16 ^ (j - i - 1)"
    by (simp only: j div_mult2_eq) (simp add: div_add_self2)
  also have "\<dots> = c div 16 ^ i div 16 div 16 ^ (j - i - 1)"
    by (simp only: succ_div_16[OF assms(1)])
  also have "\<dots> = c div 16 ^ j" by (simp only: j div_mult2_eq)
  finally show ?thesis .
qed

lemma nib_add:
  assumes "c div 16 ^ i mod 16 < (15::nat)"
  shows "(c + 16 ^ i) div 16 ^ j mod 16 = c div 16 ^ j mod 16 + (if j = i then 1 else 0)"
proof (rule linorder_cases[of i j])
  assume "i < j"
  then show ?thesis using nib_add_above[OF assms] by simp
next
  assume "i = j"
  then show ?thesis using assms by (simp add: div_add_self2 mod_Suc)
next
  assume "j < i"
  then have i: "(16::nat) ^ i = 16 * 16 ^ (i - j - 1) * 16 ^ j"
    by (simp flip: power_Suc power_add)
  have "(c + 16 ^ i) div 16 ^ j = c div 16 ^ j + 16 * 16 ^ (i - j - 1)"
    by (simp only: i) simp
  then show ?thesis using \<open>j < i\<close> by simp
qed

lemma nib_add_no_overflow:
  assumes "c div 16 ^ i mod 16 < (15::nat)" "i < 16" "c < 2 ^ 64"
  shows "c + 16 ^ i < 2 ^ 64"
proof -
  have p: "(16::nat) ^ 16 = 2 ^ 64" by simp
  have "(c + 16 ^ i) div 16 ^ 16 = 0" using nib_add_above[OF assms(1,2)] assms(3) by (simp only: p) simp
  then show ?thesis by (simp only: p div_eq_0_iff) auto
qed

lemma unat_u64_less: "unat (w :: u64) < 18446744073709551616"
proof -
  have "unat w < 2 ^ LENGTH(64)" by (rule unsigned_less)
  then show ?thesis by simp
qed

lemma unat_nibble: "unat (drop_bit s w AND 0x0F :: u64) = unat w div 2 ^ s mod 16"
proof -
  have "(0x0F :: u64) = mask 4" by (simp add: mask_eq_exp_minus_1)
  then have "unat (drop_bit s w AND 0x0F :: u64) = unat (take_bit 4 (drop_bit s w))"
    by (simp only: take_bit_eq_mask)
  also have "\<dots> = unat w div 2 ^ s mod 16"
    by (simp only: unsigned_take_bit_eq unsigned_drop_bit_eq) (simp add: take_bit_eq_mod drop_bit_eq_div unat_u64_less)
  finally show ?thesis .
qed

lemma unat_shift: "unat (index mod 16 * 4 :: u64) = 4 * (unat index mod 16)"
proof -
  have "unat (index mod 16 :: u64) = unat index mod 16" by (simp add: unat_mod)
  moreover have "unat index mod 16 < 16" by simp
  ultimately show ?thesis by (simp only: unat_word_ariths) simp
qed

lemma unat_div16: "unat (index div 16 :: u64) = unat index div 16"
  by (simp add: unat_div)

lemma pow_16_4: "(2::nat) ^ (4 * n) = 16 ^ n"
  by (simp add: power_mult)

lemma if_less_min: "(if (b::'a::linorder) < a then b else a) = min a b"
  by auto

lemma unat_min: "unat (min a b :: u64) = min (unat a) (unat b)"
  by (simp add: min_def word_le_nat_alt)

lemma sint_div_8: "sint (n div 8 :: u64) \<le> 2 ^ 62"
proof -
  have "uint n < 2 ^ 64" using uint_lt2p[of n] by simp
  then have u: "uint (n div 8) < 2 ^ 61" by (simp add: uint_div)
  have "sint (n div 8) = signed_take_bit 63 (uint (n div 8))" by (simp only: sint_uint) simp
  also have "\<dots> = uint (n div 8)" 
    using u by (intro signed_take_bit_int_eq_self order_trans[OF _ uint_ge_0]) simp_all
  finally show ?thesis using u by simp
qed

lemma card_u64_below: "n \<le> 2 ^ 64 \<Longrightarrow> card {y :: u64. unat y < n} = n"
proof -
  assume n: "n \<le> 2 ^ 64"
  have "unat ` {y :: u64. unat y < n} = {..<n}"
  proof (intro equalityI subsetI)
    fix m assume "m \<in> {..<n}"
    then have "unat (of_nat m :: u64) = m" using n by (simp only: unat_of_nat) simp
    then show "m \<in> unat ` {y :: u64. unat y < n}" using \<open>m \<in> {..<n}\<close> by (intro image_eqI[of _ _ "of_nat m"]) simp_all
  qed auto
  moreover have "inj_on unat {y :: u64. unat y < n}" by (rule inj_onI) (simp add: word_unat_eq_iff)
  ultimately show ?thesis using card_image[of unat "{y :: u64. unat y < n}"] by simp
qed

lemma unat_high_half: "unat (ucast (drop_bit 32 y :: u64) :: u32) = unat y div 2 ^ 32"
proof -
  have "unat (drop_bit 32 y) = unat y div 2 ^ 32" 
    by (simp only: unsigned_drop_bit_eq) (simp add: drop_bit_eq_div take_bit_eq_mod unat_u64_less)
  moreover have "unat y div 2 ^ 32 < 2 ^ 32" using unat_u64_less[of y] by (simp add: less_mult_imp_div_less)
  ultimately show ?thesis by (simp add: unsigned_ucast_eq take_bit_eq_mod)
qed

lemma distinct_concat_pairwise:
  "sorted_wrt (\<lambda>a b. set (f a) \<inter> set (f b) = {}) xs \<Longrightarrow> \<forall>x \<in> set xs. distinct (f x) \<Longrightarrow> distinct (concat (map f xs))"
  by (induction xs) auto

end
