(* ===== verification/Hash.thy ===== *)
theory Hash
  imports Kioshun_Prelude
begin

text \<open>
  \<open>hash.go\<close> and \<open>fnv.go\<close>: the key hasher of the sharded cache. Everything is 64-bit unsigned
  arithmetic with wrap-around, so the model is over \<^typ>\<open>64 word\<close>. A Go string is its bytes.
\<close>

unbundle bit_operations_syntax

section \<open>Constants\<close>

definition fnvOffset64 :: u64 where "fnvOffset64 = 14695981039346656037"
definition fnvPrime64 :: u64 where "fnvPrime64 = 1099511628211"

definition prime64_1 :: u64 where "prime64_1 = 0x9E3779B185EBCA87"
definition prime64_2 :: u64 where "prime64_2 = 0xC2B2AE3D27D4EB4F"
definition prime64_3 :: u64 where "prime64_3 = 0x165667B19E3779F9"
definition prime64_4 :: u64 where "prime64_4 = 0x85EBCA77C2B2AE63"
definition prime64_5 :: u64 where "prime64_5 = 0x27D4EB2F165667C5"
definition seed64_1 :: u64 where "seed64_1 = 0x60EA27EEADC0B5D6"
definition seed64_4 :: u64 where "seed64_4 = 0x61C8864E7A143579"

lemmas hash_consts = fnvOffset64_def fnvPrime64_def prime64_1_def prime64_2_def prime64_3_def
  prime64_4_def prime64_5_def seed64_1_def seed64_4_def

section \<open>Operations\<close>

fun fnv_loop :: "u64 \<Rightarrow> bytes \<Rightarrow> u64" where
  "fnv_loop h [] = h"
| "fnv_loop h (b # bs) = fnv_loop ((h XOR ucast b) * fnvPrime64) bs"

definition fnvHash64 :: "bytes \<Rightarrow> u64" where
  "fnvHash64 s = (let h = fnv_loop fnvOffset64 s in h XOR drop_bit 32 h)"

text \<open>\<open>binary.LittleEndian\<close>: the first byte is the least significant one.\<close>

fun le_bytes :: "bytes \<Rightarrow> u64" where
  "le_bytes [] = 0"
| "le_bytes (b # bs) = ucast b OR push_bit 8 (le_bytes bs)"

definition xxHash64Round :: "u64 \<Rightarrow> u64 \<Rightarrow> u64" where
  "xxHash64Round acc input = word_rotl 31 (acc + input * prime64_2) * prime64_1"

definition xxHash64MergeRound :: "u64 \<Rightarrow> u64 \<Rightarrow> u64" where
  "xxHash64MergeRound h64 val = (h64 XOR xxHash64Round 0 val) * prime64_1 + prime64_4"

fun finalize8 :: "bytes \<Rightarrow> u64 \<Rightarrow> bytes \<times> u64" where
  "finalize8 data h64 =
     (if 8 \<le> length data
      then finalize8 (drop 8 data)
             (word_rotl 27 (h64 XOR xxHash64Round 0 (le_bytes (take 8 data))) * prime64_1 + prime64_4)
      else (data, h64))"

declare finalize8.simps [simp del]

fun finalize1 :: "bytes \<Rightarrow> u64 \<Rightarrow> u64" where
  "finalize1 [] h64 = h64"
| "finalize1 (b # bs) h64 = finalize1 bs (word_rotl 11 (h64 XOR ucast b * prime64_5) * prime64_1)"

definition xxHash64Finalize :: "bytes \<Rightarrow> u64 \<Rightarrow> u64" where
  "xxHash64Finalize data h64 =
     (let (data, h64) = finalize8 data h64;
          (data, h64) =
            (if 4 \<le> length data
             then (drop 4 data,
                   word_rotl 23 (h64 XOR le_bytes (take 4 data) * prime64_1) * prime64_2 + prime64_3)
             else (data, h64))
      in finalize1 data h64)"

definition xxHash64Small :: "bytes \<Rightarrow> u64 \<Rightarrow> u64" where
  "xxHash64Small data h64 = xxHash64Finalize data h64"

fun large_loop :: "bytes \<Rightarrow> u64 \<times> u64 \<times> u64 \<times> u64 \<Rightarrow> bytes \<times> (u64 \<times> u64 \<times> u64 \<times> u64)" where
  "large_loop data (v1, v2, v3, v4) =
     (if 32 \<le> length data
      then large_loop (drop 32 data)
             (xxHash64Round v1 (le_bytes (take 8 data)),
              xxHash64Round v2 (le_bytes (take 8 (drop 8 data))),
              xxHash64Round v3 (le_bytes (take 8 (drop 16 data))),
              xxHash64Round v4 (le_bytes (take 8 (drop 24 data))))
      else (data, (v1, v2, v3, v4)))"

declare large_loop.simps [simp del]

definition xxHash64Large :: "bytes \<Rightarrow> u64 \<Rightarrow> u64" where
  "xxHash64Large data len =
     (let (data, (v1, v2, v3, v4)) = large_loop data (seed64_1, prime64_2, 0, seed64_4);
          h64 = word_rotl 1 v1 + word_rotl 7 v2 + word_rotl 12 v3 + word_rotl 18 v4;
          h64 = xxHash64MergeRound h64 v1;
          h64 = xxHash64MergeRound h64 v2;
          h64 = xxHash64MergeRound h64 v3;
          h64 = xxHash64MergeRound h64 v4
      in xxHash64Finalize data (h64 + len))"

definition xxHash64Avalanche :: "u64 \<Rightarrow> u64" where
  "xxHash64Avalanche h64 =
     (let h64 = h64 XOR drop_bit 33 h64;
          h64 = h64 * prime64_2;
          h64 = h64 XOR drop_bit 29 h64;
          h64 = h64 * prime64_3
      in h64 XOR drop_bit 32 h64)"

definition xxHash64 :: "bytes \<Rightarrow> u64" where
  "xxHash64 data =
     (let len = length data;
          h64 = (if 32 \<le> len then xxHash64Large data (of_nat len)
                 else xxHash64Small data (prime64_5 + of_nat len))
      in xxHash64Avalanche h64)"

definition hashString :: "bytes \<Rightarrow> u64" where
  "hashString s = (if length s \<le> 8 then fnvHash64 s else xxHash64 s)"

text \<open>
  The type switch of \<open>hasher.hash\<close>. A key's dynamic type is its constructor; keys of any other
  comparable type are formatted with \<open>fmt.Sprintf("%v")\<close>, the parameter \<open>sprint\<close>. Conversions
  of signed integers to \<open>uint64\<close> sign-extend.
\<close>

datatype 'o goKey =
  GString bytes | GInt "64 word" | GInt32 "32 word" | GInt64 "64 word"
| GUint "64 word" | GUint32 "32 word" | GUint64 "64 word" | GOther 'o

fun hash :: "('o \<Rightarrow> bytes) \<Rightarrow> 'o goKey \<Rightarrow> u64" where
  "hash sprint (GString k) = hashString k"
| "hash sprint (GInt k) = xxHash64Avalanche k"
| "hash sprint (GInt32 k) = xxHash64Avalanche (scast k)"
| "hash sprint (GInt64 k) = xxHash64Avalanche k"
| "hash sprint (GUint k) = xxHash64Avalanche k"
| "hash sprint (GUint32 k) = xxHash64Avalanche (ucast k)"
| "hash sprint (GUint64 k) = xxHash64Avalanche k"
| "hash sprint (GOther k) = hashString (sprint k)"

section \<open>Mixers are permutations\<close>

lemma drop_bit_fixpoint_zero:
  fixes d :: "'a::len word"
  assumes "0 < k" "drop_bit k d = d"
  shows "d = 0"
proof (rule bit_word_eqI)
  fix n
  have shift: "bit d n = bit d (n + m * k)" for m
  proof (induction m)
    case (Suc m)
    have "bit d (n + m * k) = bit (drop_bit k d) (n + m * k)" using assms(2) by simp
    also have "\<dots> = bit d (n + Suc m * k)" by (simp add: bit_drop_bit_eq add_ac)
    finally show ?case using Suc by simp
  qed simp
  have "LENGTH('a) \<le> n + LENGTH('a) * k" using assms(1) by (simp add: trans_le_add2)
  then have "\<not> bit d (n + LENGTH('a) * k)" by (meson bit_imp_le_length not_le)
  with shift[of "LENGTH('a)"] show "bit d n \<longleftrightarrow> bit 0 n" by simp
qed

lemma xorshift_inj:
  fixes x y :: "'a::len word"
  assumes "0 < k" "x XOR drop_bit k x = y XOR drop_bit k y"
  shows "x = y"
proof -
  have "drop_bit k (x XOR y) = x XOR y"
  proof (rule bit_word_eqI)
    fix n
    have "bit (x XOR drop_bit k x) n = bit (y XOR drop_bit k y) n" using assms(2) by simp
    then show "bit (drop_bit k (x XOR y)) n = bit (x XOR y) n"
      if "n < LENGTH('a)" using that by (auto simp: bit_simps)
  qed
  with assms(1) have "x XOR y = 0" by (rule drop_bit_fixpoint_zero)
  then have "(x XOR y) XOR y = 0 XOR y" by simp
  then show ?thesis by (simp add: xor.assoc)
qed

lemma odd_mult_inj:
  fixes x y p q :: u64
  assumes pq: "p * q = 1" and eq: "x * p = y * p"
  shows "x = y"
proof -
  have "x * (p * q) = y * (p * q)" using eq by (simp only: mult.assoc[symmetric])
  then show ?thesis by (simp only: pq mult_1_right)
qed

lemma prime64_2_inverse: "prime64_2 * 0x0BA79078168D4BAF = 1"
  and prime64_3_inverse: "prime64_3 * 0xE9E9F4C41D6DF849 = 1"
  by (simp_all add: hash_consts)

lemma xxHash64Avalanche_inj: "inj xxHash64Avalanche"
proof (rule injI)
  fix x y
  assume "xxHash64Avalanche x = xxHash64Avalanche y"
  then have "(x XOR drop_bit 33 x) * prime64_2 = (y XOR drop_bit 33 y) * prime64_2"
    by (auto simp: xxHash64Avalanche_def Let_def
        dest!: xorshift_inj[rotated] odd_mult_inj[OF prime64_3_inverse])
  then show "x = y" by (auto dest!: xorshift_inj[rotated] odd_mult_inj[OF prime64_2_inverse])
qed

lemma widen_inj: "inj (scast :: 32 word \<Rightarrow> u64)" "inj (ucast :: 32 word \<Rightarrow> u64)"
proof -
  have "(ucast (scast k :: u64) :: 32 word) = k" "(ucast (ucast k :: u64) :: 32 word) = k" for k :: "32 word"
    by (rule bit_word_eqI; simp add: bit_simps)+
  then show "inj (scast :: 32 word \<Rightarrow> u64)" "inj (ucast :: 32 word \<Rightarrow> u64)" by (metis injI)+
qed

text \<open>Integer keys never collide: for each of the six integer key types the full 64-bit hash is
  injective, so two different integer keys of a cache always have different hashes.\<close>

theorem hash_int_keys_injective:
  "inj (\<lambda>k. hash sprint (GInt k)) \<and> inj (\<lambda>k. hash sprint (GInt64 k)) \<and>
   inj (\<lambda>k. hash sprint (GUint k)) \<and> inj (\<lambda>k. hash sprint (GUint64 k)) \<and>
   inj (\<lambda>k. hash sprint (GInt32 k)) \<and> inj (\<lambda>k. hash sprint (GUint32 k))"
  using inj_compose[OF xxHash64Avalanche_inj widen_inj(1)] inj_compose[OF xxHash64Avalanche_inj widen_inj(2)]
  by (simp add: xxHash64Avalanche_inj comp_def)

end
