(* ===== verification/Mathutil.thy ===== *)
theory Mathutil
  imports Kioshun_Prelude
begin

text \<open>
  \<open>internal/mathutil/mathutil.go\<close>: rounding up to a power of two. Shard counts and filter sizes
  go through it, so that \<open>size - 1\<close> is a bit mask. \<open>bitsLen\<close> is the standard library's
  \<open>bits.Len\<close>: the number of bits needed to write a value.
\<close>

fun bitsLen :: "nat \<Rightarrow> nat" where
  "bitsLen n = (if n = 0 then 0 else Suc (bitsLen (n div 2)))"

declare bitsLen.simps [simp del]

definition NextPowerOf2 :: "int \<Rightarrow> int" where
  "NextPowerOf2 n = (if n \<le> 1 then 1 else i64 (2 ^ bitsLen (nat (n - 1))))"

lemma bitsLen_bounds: "0 < n \<Longrightarrow> 2 ^ (bitsLen n - 1) \<le> n \<and> n < 2 ^ bitsLen n"
proof (induction n rule: bitsLen.induct)
  case (1 n)
  show ?case
  proof (cases "n div 2 = 0")
    case True
    with "1.prems" have "n = 1" by auto
    moreover have "bitsLen 1 = 1" by (subst bitsLen.simps, subst bitsLen.simps) simp
    ultimately show ?thesis by simp
  next
    case False
    with "1.IH" "1.prems" have IH: "2 ^ (bitsLen (n div 2) - 1) \<le> n div 2" "n div 2 < 2 ^ bitsLen (n div 2)"
      by auto
    have len: "bitsLen n = Suc (bitsLen (n div 2))" using "1.prems" by (subst bitsLen.simps) simp
    have pos: "0 < bitsLen (n div 2)" using False by (subst bitsLen.simps) simp
    then have "(2::nat) ^ bitsLen (n div 2) = 2 * 2 ^ (bitsLen (n div 2) - 1)"
      by (cases "bitsLen (n div 2)") auto
    moreover have "2 * (n div 2) \<le> n" "n \<le> 2 * (n div 2) + 1" by auto
    ultimately show ?thesis using IH unfolding len by (simp only: power_Suc diff_Suc_1) linarith
  qed
qed

lemma bitsLen_le: "n < 2 ^ k \<Longrightarrow> bitsLen n \<le> k"
proof (cases "n = 0")
  case True
  then show ?thesis by (simp add: bitsLen.simps)
next
  case False
  assume "n < 2 ^ k"
  with False bitsLen_bounds[of n] have "(2::nat) ^ (bitsLen n - 1) < 2 ^ k"
    by (meson le_less_trans not_gr_zero)
  then have "bitsLen n - 1 < k" by (rule power_less_imp_less_exp[rotated]) simp
  then show ?thesis by simp
qed

lemma NextPowerOf2_pow2:
  assumes "n \<le> 2 ^ 62"
  obtains k where "NextPowerOf2 n = 2 ^ k" "k \<le> 62"
proof (cases "n \<le> 1")
  case True
  then have "NextPowerOf2 n = 2 ^ 0" by (simp add: NextPowerOf2_def)
  then show thesis by (rule that) simp
next
  case False
  let ?k = "bitsLen (nat (n - 1))"
  have "nat (n - 1) < 2 ^ 62" using assms False by (simp add: nat_less_iff)
  then have k: "?k \<le> 62" by (rule bitsLen_le)
  then have "(2::int) ^ ?k \<le> 2 ^ 62" by (intro power_increasing) auto
  then have "is_i64 (2 ^ ?k)" by (intro is_i64I) auto
  then have "NextPowerOf2 n = 2 ^ ?k" using False by (simp add: NextPowerOf2_def)
  then show thesis using k by (rule that)
qed

lemma NextPowerOf2_range:
  assumes "1 \<le> n" "n \<le> 2 ^ 62"
  shows "n \<le> NextPowerOf2 n" and "NextPowerOf2 n < 2 * n"
proof -
  have *: "n \<le> NextPowerOf2 n \<and> NextPowerOf2 n < 2 * n"
  proof (cases "n = 1")
    case True
    then show ?thesis by (simp add: NextPowerOf2_def)
  next
    case False
    let ?m = "nat (n - 1)"
    have m: "0 < ?m" "?m < 2 ^ 62" using assms False by (auto simp: nat_less_iff)
    have pos: "0 < bitsLen ?m" using m by (subst bitsLen.simps) auto
    have "(2::int) ^ bitsLen ?m \<le> 2 ^ 62" using bitsLen_le[OF m(2)] by (intro power_increasing) auto
    then have "is_i64 (2 ^ bitsLen ?m)" by (intro is_i64I) auto
    then have eq: "NextPowerOf2 n = 2 ^ bitsLen ?m"
      using assms False by (simp add: NextPowerOf2_def)
    have b: "2 ^ (bitsLen ?m - 1) \<le> ?m" "?m < 2 ^ bitsLen ?m" using bitsLen_bounds[OF m(1)] by auto
    have two: "(2::int) ^ bitsLen ?m = 2 * 2 ^ (bitsLen ?m - 1)" using pos by (cases "bitsLen ?m") auto
    have "int ?m < 2 ^ bitsLen ?m" "2 ^ (bitsLen ?m - 1) \<le> int ?m"
      using b by (metis of_nat_less_iff of_nat_numeral of_nat_power, metis of_nat_le_iff of_nat_numeral of_nat_power)
    with eq two assms show ?thesis by simp
  qed
  from * show "n \<le> NextPowerOf2 n" and "NextPowerOf2 n < 2 * n" by auto
qed

lemma NextPowerOf2_small [simp]: "n \<le> 1 \<Longrightarrow> NextPowerOf2 n = 1"
  by (simp add: NextPowerOf2_def)

lemma NextPowerOf2_idem: "k \<le> 62 \<Longrightarrow> NextPowerOf2 (2 ^ k) = 2 ^ k"
proof -
  assume k: "k \<le> 62"
  then have le: "(2::int) ^ k \<le> 2 ^ 62" by (intro power_increasing) auto
  from le obtain j where j: "NextPowerOf2 (2 ^ k) = 2 ^ j" by (rule NextPowerOf2_pow2)
  have "(2::int) ^ k \<le> 2 ^ j" "(2::int) ^ j < 2 * 2 ^ k"
    using NextPowerOf2_range[of "2 ^ k"] le j by auto
  then have "(2::int) ^ k \<le> 2 ^ j" "(2::int) ^ j < 2 ^ Suc k" by auto
  then have "k \<le> j" "j < Suc k"
    by (auto simp del: power_Suc dest: power_le_imp_le_exp power_less_imp_less_exp)
  then show ?thesis using j by simp
qed

end
