(* ===== verification/Admission.thy ===== *)
theory Admission
  imports Hash Mathutil
begin

text \<open>
  \<open>admission.go\<close>: the shard-local admission filter of the AdmissionLFU policy. It combines a
  doorkeeper (a three-hash Bloom filter), a four-hash Count-Min sketch of packed 4-bit counters,
  a workload detector and an admission probability that follows eviction pressure.

  The clock is an argument: \<open>now\<close> is what \<open>time.Now().UnixNano()\<close> returned at that call.
\<close>

unbundle bit_operations_syntax

section \<open>Hashing helpers\<close>

definition bloomMixPrime1 :: u64 where "bloomMixPrime1 = 0xff51afd7ed558ccd"
definition bloomMixPrime2 :: u64 where "bloomMixPrime2 = 0xc4ceb9fe1a85ec53"

definition hashN :: "u64 \<Rightarrow> u64 \<Rightarrow> nat \<Rightarrow> u64" where
  "hashN h msk rot =
     (let h = word_rotl rot h;
          h = h XOR drop_bit 33 h;
          h = h * bloomMixPrime1;
          h = h XOR drop_bit 29 h;
          h = h * bloomMixPrime2;
          h = h XOR drop_bit 32 h
      in h AND msk)"

definition acceptWithProb :: "u64 \<Rightarrow> u32 \<Rightarrow> bool" where
  "acceptWithProb h prob =
     (if 100 \<le> prob then True
      else if prob = 0 then False
      else let r = (ucast (drop_bit 32 (xxHash64Avalanche h)) :: u32);
               thr = (ucast ((ucast prob * push_bit 32 (1 :: u64)) div 100) :: u32)
           in r < thr)"

abbreviation (input) "hash1Rotate \<equiv> (0 :: nat)"
abbreviation (input) "hash2Rotate \<equiv> (17 :: nat)"
abbreviation (input) "hash3Rotate \<equiv> (31 :: nat)"
abbreviation (input) "hash4Rotate \<equiv> (47 :: nat)"

section \<open>Doorkeeper\<close>

record bloomFilter =
  bf_bits :: "u64 list"
  bf_size :: u64
  bf_mask :: u64

definition newBloomFilter :: "u64 \<Rightarrow> bloomFilter" where
  "newBloomFilter n =
     (let n = word_of_int (NextPowerOf2 (sint n)) :: u64;
          arrN = n div 64;
          arrN = (if arrN = 0 then 1 else arrN)
      in \<lparr>bf_bits = replicate (unat arrN) 0, bf_size = n, bf_mask = n - 1\<rparr>)"

text \<open>One statement \<open>bits[h/64] |= 1 << (h%64)\<close> and one test \<open>bits[h/64] & (1 << (h%64))\<close>.\<close>

definition orBit :: "u64 list \<Rightarrow> u64 \<Rightarrow> u64 list" where
  "orBit bs h = (let i = unat (h div 64) in bs[i := bs ! i OR push_bit (unat (h mod 64)) 1])"

definition andBit :: "u64 list \<Rightarrow> u64 \<Rightarrow> u64" where
  "andBit bs h = bs ! unat (h div 64) AND push_bit (unat (h mod 64)) 1"

definition bf_add :: "bloomFilter \<Rightarrow> u64 \<Rightarrow> bloomFilter" where
  "bf_add bf keyHash =
     (let h1 = hashN keyHash (bf_mask bf) hash1Rotate;
          h2 = hashN keyHash (bf_mask bf) hash2Rotate;
          h3 = hashN keyHash (bf_mask bf) hash3Rotate
      in bf\<lparr>bf_bits := orBit (orBit (orBit (bf_bits bf) h1) h2) h3\<rparr>)"

definition bf_contains :: "bloomFilter \<Rightarrow> u64 \<Rightarrow> bool" where
  "bf_contains bf keyHash =
     (let h1 = hashN keyHash (bf_mask bf) hash1Rotate;
          h2 = hashN keyHash (bf_mask bf) hash2Rotate;
          h3 = hashN keyHash (bf_mask bf) hash3Rotate;
          b1 = andBit (bf_bits bf) h1;
          b2 = andBit (bf_bits bf) h2;
          b3 = andBit (bf_bits bf) h3
      in b1 \<noteq> 0 \<and> b2 \<noteq> 0 \<and> b3 \<noteq> 0)"

definition bf_reset :: "bloomFilter \<Rightarrow> bloomFilter" where
  "bf_reset bf = bf\<lparr>bf_bits := map (\<lambda>_. 0) (bf_bits bf)\<rparr>"

section \<open>Frequency sketch\<close>

record frequencyBloomFilter =
  fbf_counters :: "u64 list"
  fbf_size :: u64
  fbf_mask :: u64
  totalIncrements :: u64
  agingThreshold :: u64

definition maxFrequency :: u64 where "maxFrequency = 15"
definition frequencyMask :: u64 where "frequencyMask = 0x0F"

definition newFrequencyBloomFilter :: "u64 \<Rightarrow> frequencyBloomFilter" where
  "newFrequencyBloomFilter n =
     (let sz = word_of_int (NextPowerOf2 (sint n)) :: u64;
          arrN = sz div 16;
          arrN = (if arrN = 0 then 1 else arrN)
      in \<lparr>fbf_counters = replicate (unat arrN) 0, fbf_size = sz, fbf_mask = sz - 1,
          totalIncrements = 0, agingThreshold = sz * 10\<rparr>)"

definition getCounterValue :: "frequencyBloomFilter \<Rightarrow> u64 \<Rightarrow> u64" where
  "getCounterValue fbf index =
     (let ai = index div 16; ci = index mod 16; sh = ci * 4
      in drop_bit (unat sh) (fbf_counters fbf ! unat ai) AND frequencyMask)"

definition incrementCounter :: "frequencyBloomFilter \<Rightarrow> u64 \<Rightarrow> frequencyBloomFilter" where
  "incrementCounter fbf index =
     (let ai = index div 16; ci = index mod 16; sh = ci * 4;
          cur = fbf_counters fbf ! unat ai;
          v = drop_bit (unat sh) cur AND frequencyMask
      in if v < maxFrequency
         then fbf\<lparr>fbf_counters := (fbf_counters fbf)[unat ai := cur + push_bit (unat sh) 1]\<rparr>
         else fbf)"

definition halfMask :: u64 where "halfMask = 0x7777777777777777"

definition fbf_age :: "frequencyBloomFilter \<Rightarrow> frequencyBloomFilter" where
  "fbf_age fbf =
     fbf\<lparr>fbf_counters := map (\<lambda>cur. drop_bit 1 cur AND halfMask) (fbf_counters fbf),
         totalIncrements := 0\<rparr>"

text \<open>The minimum of the four hashed counters, computed by the source's chain of comparisons.\<close>

definition estimateFrequency :: "frequencyBloomFilter \<Rightarrow> u64 \<Rightarrow> u64" where
  "estimateFrequency fbf keyHash =
     (let h1 = hashN keyHash (fbf_mask fbf) hash1Rotate;
          h2 = hashN keyHash (fbf_mask fbf) hash2Rotate;
          h3 = hashN keyHash (fbf_mask fbf) hash3Rotate;
          h4 = hashN keyHash (fbf_mask fbf) hash4Rotate;
          f = getCounterValue fbf h1;
          f2 = getCounterValue fbf h2; f = (if f2 < f then f2 else f);
          f3 = getCounterValue fbf h3; f = (if f3 < f then f3 else f);
          f4 = getCounterValue fbf h4; f = (if f4 < f then f4 else f)
      in f)"

definition fbf_increment :: "frequencyBloomFilter \<Rightarrow> u64 \<Rightarrow> u64 \<times> frequencyBloomFilter" where
  "fbf_increment fbf keyHash =
     (let h1 = hashN keyHash (fbf_mask fbf) hash1Rotate;
          h2 = hashN keyHash (fbf_mask fbf) hash2Rotate;
          h3 = hashN keyHash (fbf_mask fbf) hash3Rotate;
          h4 = hashN keyHash (fbf_mask fbf) hash4Rotate;
          f = getCounterValue fbf h1;
          f2 = getCounterValue fbf h2; f = (if f2 < f then f2 else f);
          f3 = getCounterValue fbf h3; f = (if f3 < f then f3 else f);
          f4 = getCounterValue fbf h4; f = (if f4 < f then f4 else f);
          (f, fbf) =
            (if f < maxFrequency
             then (f + 1, incrementCounter (incrementCounter (incrementCounter
                            (incrementCounter fbf h1) h2) h3) h4)
             else (f, fbf));
          fbf = fbf\<lparr>totalIncrements := totalIncrements fbf + 1\<rparr>;
          fbf = (if agingThreshold fbf \<le> totalIncrements fbf then fbf_age fbf else fbf)
      in (f, fbf))"

section \<open>Workload detector\<close>

record workloadDetector =
  recentAdmissions :: u64
  recentAdmissionTime :: int
  admissionRate :: u64
  consecutiveMisses :: u64
  admissionRateThreshold :: u64
  missThreshold :: u64

definition newWorkloadDetector :: "int \<Rightarrow> u64 \<Rightarrow> u64 \<Rightarrow> workloadDetector" where
  "newWorkloadDetector now rateThreshold mThreshold =
     \<lparr>recentAdmissions = 0, recentAdmissionTime = now, admissionRate = 0, consecutiveMisses = 0,
      admissionRateThreshold = rateThreshold, missThreshold = mThreshold\<rparr>"

definition detectScan :: "int \<Rightarrow> workloadDetector \<Rightarrow> bool \<times> workloadDetector" where
  "detectScan now wd =
     (let dt = i64 (now - recentAdmissionTime wd);
          wd = (if dt > 1000000000
                then wd\<lparr>admissionRate := recentAdmissions wd * 1000000000 div word_of_int dt,
                        recentAdmissions := 0, recentAdmissionTime := now\<rparr>
                else wd)
      in ((admissionRateThreshold wd > 0 \<and> admissionRate wd > admissionRateThreshold wd) \<or>
          (missThreshold wd > 0 \<and> consecutiveMisses wd > missThreshold wd), wd))"

definition recordAdmission :: "workloadDetector \<Rightarrow> workloadDetector" where
  "recordAdmission wd = wd\<lparr>recentAdmissions := recentAdmissions wd + 1, consecutiveMisses := 0\<rparr>"

definition recordRejection :: "workloadDetector \<Rightarrow> workloadDetector" where
  "recordRejection wd = wd\<lparr>consecutiveMisses := consecutiveMisses wd + 1\<rparr>"

section \<open>Adaptive admission filter\<close>

record adaptiveAdmissionFilter =
  frequencyFilter :: frequencyBloomFilter
  doorkeeper :: bloomFilter
  detector :: workloadDetector
  admissionProbability :: u32
  minProbability :: u32
  maxProbability :: u32
  recentEvictions :: u64
  evictionWindow :: int
  resetInterval :: int
  lastReset :: int
  admissionRequests :: u64
  admissionGrants :: u64
  scanRejections :: u64
  scanRecencyThreshold :: int
  recencyTieBreak :: int

definition defaultScanAdmissionThreshold :: u64 where "defaultScanAdmissionThreshold = 100"
definition defaultScanMissThreshold :: u64 where "defaultScanMissThreshold = 50"
definition defaultScanRecencyThreshold :: int where "defaultScanRecencyThreshold = 100 * 1000000"
definition defaultRecencyTieBreak :: int where "defaultRecencyTieBreak = 1000000000"
definition frequencyThreshold :: u64 where "frequencyThreshold = 3"
definition highEvictionRateThreshold :: u64 where "highEvictionRateThreshold = 100"
definition lowEvictionRateThreshold :: u64 where "lowEvictionRateThreshold = 10"
definition admissionProbabilityStep :: u32 where "admissionProbabilityStep = 5"
definition evictionPressureInterval :: int where "evictionPressureInterval = 1000000000"

text \<open>The three clock readings of the constructor are \<open>t 0\<close>, \<open>t 1\<close> and \<open>t 2\<close>.\<close>

definition newAdaptiveAdmissionFilter ::
  "(nat \<Rightarrow> int) \<Rightarrow> u64 \<Rightarrow> int \<Rightarrow> u64 \<Rightarrow> u64 \<Rightarrow> int \<Rightarrow> int \<Rightarrow> adaptiveAdmissionFilter" where
  "newAdaptiveAdmissionFilter t n ri scanRateThreshold scanMissThreshold scanRecency recencyTie =
     (let scanRateThreshold = (if scanRateThreshold = 0 then defaultScanAdmissionThreshold else scanRateThreshold);
          scanMissThreshold = (if scanMissThreshold = 0 then defaultScanMissThreshold else scanMissThreshold);
          scanRecency = (if scanRecency \<le> 0 then defaultScanRecencyThreshold else scanRecency);
          recencyTie = (if recencyTie \<le> 0 then defaultRecencyTieBreak else recencyTie)
      in \<lparr>frequencyFilter = newFrequencyBloomFilter n,
          doorkeeper = newBloomFilter (n div 8),
          detector = newWorkloadDetector (t 0) scanRateThreshold scanMissThreshold,
          admissionProbability = 70,
          minProbability = 5,
          maxProbability = 95,
          recentEvictions = 0,
          evictionWindow = t 2,
          resetInterval = ri,
          lastReset = t 1,
          admissionRequests = 0, admissionGrants = 0, scanRejections = 0,
          scanRecencyThreshold = scanRecency,
          recencyTieBreak = recencyTie\<rparr>)"

definition admitDuringScan :: "int \<Rightarrow> adaptiveAdmissionFilter \<Rightarrow> u64 \<Rightarrow> int \<Rightarrow> bool" where
  "admitDuringScan now aaf keyHash vAge =
     (if vAge > 0 \<and> scanRecencyThreshold aaf > 0 \<and> i64 (now - vAge) > scanRecencyThreshold aaf
      then True
      else acceptWithProb keyHash (minProbability aaf))"

definition makeAdmissionDecision ::
  "int \<Rightarrow> adaptiveAdmissionFilter \<Rightarrow> u64 \<Rightarrow> u64 \<Rightarrow> u64 \<Rightarrow> int \<Rightarrow> bool" where
  "makeAdmissionDecision now aaf keyHash nf vFreq vAge =
     (if nf \<ge> frequencyThreshold then True
      else if nf > vFreq then True
      else if nf = vFreq \<and> nf > 0 then
        (if vAge > 0 \<and> recencyTieBreak aaf > 0 then i64 (now - vAge) > recencyTieBreak aaf
         else acceptWithProb keyHash 50)
      else
        let prob = admissionProbability aaf;
            vf = (if vFreq > 5 then 5 else vFreq);
            adjustedProb = int (unat prob) - int (unat (vf * 10));
            adjustedProb = (if adjustedProb < int (unat (minProbability aaf))
                            then int (unat (minProbability aaf)) else adjustedProb)
        in acceptWithProb keyHash (word_of_int adjustedProb))"

definition adjustAdmissionProbability :: "int \<Rightarrow> adaptiveAdmissionFilter \<Rightarrow> adaptiveAdmissionFilter" where
  "adjustAdmissionProbability now aaf =
     (if i64 (now - evictionWindow aaf) > evictionPressureInterval then
        let ev = recentEvictions aaf;
            p = admissionProbability aaf;
            aaf =
              (if ev > highEvictionRateThreshold then
                 let np = (if p > admissionProbabilityStep then p - admissionProbabilityStep else p);
                     np = (if np < minProbability aaf then minProbability aaf else np)
                 in aaf\<lparr>admissionProbability := np\<rparr>
               else if ev < lowEvictionRateThreshold then
                 let np = p + admissionProbabilityStep;
                     np = (if np > maxProbability aaf then maxProbability aaf else np)
                 in aaf\<lparr>admissionProbability := np\<rparr>
               else aaf)
        in aaf\<lparr>recentEvictions := 0, evictionWindow := now\<rparr>
      else aaf)"

definition checkPeriodicReset :: "int \<Rightarrow> adaptiveAdmissionFilter \<Rightarrow> adaptiveAdmissionFilter" where
  "checkPeriodicReset now aaf =
     (if i64 (now - lastReset aaf) > resetInterval aaf
      then aaf\<lparr>doorkeeper := bf_reset (doorkeeper aaf), lastReset := now\<rparr>
      else aaf)"

definition grant :: "adaptiveAdmissionFilter \<Rightarrow> adaptiveAdmissionFilter" where
  "grant aaf = aaf\<lparr>detector := recordAdmission (detector aaf), admissionGrants := admissionGrants aaf + 1\<rparr>"

definition deny :: "adaptiveAdmissionFilter \<Rightarrow> adaptiveAdmissionFilter" where
  "deny aaf = aaf\<lparr>detector := recordRejection (detector aaf)\<rparr>"

text \<open>
  \<open>shouldAdmit\<close> reads the clock up to four times, in this order: \<open>t 0\<close> in \<open>detectScan\<close>,
  \<open>t 1\<close> in the decision, \<open>t 2\<close> in \<open>adjustAdmissionProbability\<close>, \<open>t 3\<close> in
  \<open>checkPeriodicReset\<close>. The two closing statements of each branch (record the outcome, count a
  grant) are \<open>grant\<close> and \<open>deny\<close>.
\<close>

definition shouldAdmit ::
  "(nat \<Rightarrow> int) \<Rightarrow> adaptiveAdmissionFilter \<Rightarrow> u64 \<Rightarrow> u64 \<Rightarrow> int \<Rightarrow> bool \<times> adaptiveAdmissionFilter" where
  "shouldAdmit t aaf keyHash vFreq vAge =
     (let aaf = aaf\<lparr>admissionRequests := admissionRequests aaf + 1\<rparr> in
      if bf_contains (doorkeeper aaf) keyHash then
        (True, grant (aaf\<lparr>doorkeeper := bf_add (doorkeeper aaf) keyHash,
                          frequencyFilter := snd (fbf_increment (frequencyFilter aaf) keyHash)\<rparr>))
      else
        let (scan, wd) = detectScan (t 0) (detector aaf);
            aaf = aaf\<lparr>detector := wd\<rparr>
        in if scan then
             let aaf = aaf\<lparr>scanRejections := scanRejections aaf + 1\<rparr>;
                 admit = admitDuringScan (t 1) aaf keyHash vAge
             in (admit, if admit then grant aaf else deny aaf)
           else
             let (nf, ff) = fbf_increment (frequencyFilter aaf) keyHash;
                 aaf = aaf\<lparr>frequencyFilter := ff, doorkeeper := bf_add (doorkeeper aaf) keyHash\<rparr>;
                 admit = makeAdmissionDecision (t 1) aaf keyHash nf vFreq vAge;
                 aaf = checkPeriodicReset (t 3) (adjustAdmissionProbability (t 2) aaf)
             in (admit, if admit then grant aaf else deny aaf))"

definition RecordEviction :: "adaptiveAdmissionFilter \<Rightarrow> adaptiveAdmissionFilter" where
  "RecordEviction aaf = aaf\<lparr>recentEvictions := recentEvictions aaf + 1\<rparr>"

definition GetFrequencyEstimate :: "adaptiveAdmissionFilter \<Rightarrow> u64 \<Rightarrow> u64" where
  "GetFrequencyEstimate aaf keyHash = estimateFrequency (frequencyFilter aaf) keyHash"

definition aaf_Reset :: "adaptiveAdmissionFilter \<Rightarrow> adaptiveAdmissionFilter" where
  "aaf_Reset aaf = aaf\<lparr>doorkeeper := bf_reset (doorkeeper aaf),
                       frequencyFilter := fbf_age (frequencyFilter aaf)\<rparr>"

section \<open>Well-formed filters and logical counters\<close>

definition bf_wf :: "bloomFilter \<Rightarrow> bool" where
  "bf_wf bf \<longleftrightarrow> (\<exists>k\<le>62. bf_mask bf = mask k \<and> length (bf_bits bf) = max 1 (2 ^ k div 64))"

text \<open>The value of the logical counter \<open>i\<close>: nibble \<open>i mod 16\<close> of word \<open>i div 16\<close>.\<close>

definition counterAt :: "frequencyBloomFilter \<Rightarrow> nat \<Rightarrow> nat" where
  "counterAt f i = unat (fbf_counters f ! (i div 16)) div 16 ^ (i mod 16) mod 16"

definition fbf_wf :: "frequencyBloomFilter \<Rightarrow> bool" where
  "fbf_wf f \<longleftrightarrow> (\<exists>k\<le>62. fbf_mask f = mask k \<and> length (fbf_counters f) = max 1 (2 ^ k div 16))"

definition positions :: "frequencyBloomFilter \<Rightarrow> u64 \<Rightarrow> nat list" where
  "positions f h = map (\<lambda>r. unat (hashN h (fbf_mask f) r)) [hash1Rotate, hash2Rotate, hash3Rotate, hash4Rotate]"

definition est :: "frequencyBloomFilter \<Rightarrow> u64 \<Rightarrow> nat" where
  "est f h = Min (counterAt f ` set (positions f h))"

text \<open>The four counter bumps of an increment, before the aging test.\<close>

definition bump :: "frequencyBloomFilter \<Rightarrow> u64 \<Rightarrow> frequencyBloomFilter" where
  "bump f h = (if est f h < 15 then fold (\<lambda>r g. incrementCounter g (hashN h (fbf_mask f) r))
     [hash1Rotate, hash2Rotate, hash3Rotate, hash4Rotate] f else f)"

abbreviation incAll :: "u64 list \<Rightarrow> frequencyBloomFilter \<Rightarrow> frequencyBloomFilter" where
  "incAll xs f \<equiv> fold (\<lambda>x g. incrementCounter g x) xs f"

fun incs :: "frequencyBloomFilter \<Rightarrow> u64 list \<Rightarrow> frequencyBloomFilter" where
  "incs f [] = f"
| "incs f (h # hs) = incs (snd (fbf_increment f h)) hs"

definition aaf_wf :: "adaptiveAdmissionFilter \<Rightarrow> bool" where
  "aaf_wf aaf \<longleftrightarrow> fbf_wf (frequencyFilter aaf) \<and> bf_wf (doorkeeper aaf) \<and>
     minProbability aaf = 5 \<and> maxProbability aaf = 95 \<and>
     5 \<le> admissionProbability aaf \<and> admissionProbability aaf \<le> 95"

text \<open>The filters a shard can hold: a fresh one, then any interleaving of the three mutating calls.\<close>

inductive aaf_reachable :: "adaptiveAdmissionFilter \<Rightarrow> bool" where
  fresh: "sint n \<le> 2 ^ 62 \<Longrightarrow> aaf_reachable (newAdaptiveAdmissionFilter t n ri rate misses rec tie)"
| request: "aaf_reachable aaf \<Longrightarrow> aaf_reachable (snd (shouldAdmit t aaf h vf va))"
| evicted: "aaf_reachable aaf \<Longrightarrow> aaf_reachable (RecordEviction aaf)"
| age: "aaf_reachable aaf \<Longrightarrow> aaf_reachable (aaf_Reset aaf)"

section \<open>Lemmas\<close>

lemma hashN_less: "k < 64 \<Longrightarrow> unat (hashN h (mask k) r) < 2 ^ k"
  unfolding hashN_def Let_def by (rule unat_and_mask_less)

lemma bf_wf_index:
  assumes "bf_wf bf"
  shows "unat (hashN h (bf_mask bf) r div 64) < length (bf_bits bf)"
proof -
  from assms obtain k where k: "k \<le> 62" "bf_mask bf = mask k" "length (bf_bits bf) = max 1 (2 ^ k div 64)"
    by (auto simp: bf_wf_def)
  have "unat (hashN h (mask k) r) < 2 ^ k" using k(1) by (intro hashN_less) simp
  from pow2_index[OF this, of 6] show ?thesis using k by (simp add: unat_div)
qed

lemma andBit_iff: "andBit bs h \<noteq> 0 \<longleftrightarrow> bit (bs ! unat (h div 64)) (unat (h mod 64))"
proof -
  have "andBit bs h \<noteq> 0 \<longleftrightarrow> (\<exists>n. bit (andBit bs h) n)"
    using bit_eqI[of "andBit bs h" 0] by auto
  also have "\<dots> \<longleftrightarrow> bit (bs ! unat (h div 64)) (unat (h mod 64))"
    using unat_mod64[of h] by (auto simp: andBit_def bit_simps)
  finally show ?thesis .
qed

lemma andBit_orBit:
  assumes "unat (h div 64) < length bs"
  shows "andBit (orBit bs h) h' \<noteq> 0 \<longleftrightarrow> h' = h \<or> andBit bs h' \<noteq> 0"
proof (cases "unat (h' div 64) = unat (h div 64)")
  case True
  have "h' = h \<longleftrightarrow> unat (h' mod 64) = unat (h mod 64)"
    using div_mod_eq_u64[OF True] by blast
  then show ?thesis
    unfolding andBit_iff orBit_def Let_def
    using assms True unat_mod64[of h] by (simp only: nth_list_update_eq) (auto simp: bit_simps)
next
  case False
  then have "h' \<noteq> h" by blast
  with False show ?thesis
    unfolding andBit_iff orBit_def Let_def by (simp only: nth_list_update_neq) simp
qed

lemma length_orBit [simp]: "length (orBit bs h) = length bs"
  by (simp add: orBit_def Let_def)

lemma bf_wf_add [simp]: "bf_wf (bf_add bf h) = bf_wf bf"
  by (simp add: bf_wf_def bf_add_def Let_def)

lemma bf_wf_reset [simp]: "bf_wf (bf_reset bf) = bf_wf bf"
  by (simp add: bf_wf_def bf_reset_def)

lemma bf_contains_add:
  assumes "bf_wf bf"
  shows bf_contains_add_same: "bf_contains (bf_add bf h) h"
    and bf_contains_add_mono: "bf_contains bf h' \<Longrightarrow> bf_contains (bf_add bf h) h'"
  using bf_wf_index[OF assms]
  by (auto simp: bf_contains_def bf_add_def Let_def andBit_orBit)

lemma bf_contains_reset: "bf_wf bf \<Longrightarrow> \<not> bf_contains (bf_reset bf) h"
  using bf_wf_index[of bf h 0]
  by (simp add: bf_contains_def bf_reset_def Let_def andBit_def)

lemma bf_wf_new:
  assumes "sint n \<le> 2 ^ 62"
  shows "bf_wf (newBloomFilter n)"
proof -
  from assms obtain k where k: "NextPowerOf2 (sint n) = 2 ^ k" "k \<le> 62" by (rule NextPowerOf2_pow2)
  have w: "(word_of_int (2 ^ k) :: u64) = 2 ^ k" by simp
  have d: "unat ((2 :: u64) ^ k div 64) = 2 ^ k div 64" using k(2) by (simp add: unat_div word_pow2)
  then have "(if (2 :: u64) ^ k div 64 = 0 then 1 else unat ((2 :: u64) ^ k div 64)) = max 1 (2 ^ k div 64)"
    by (auto simp: unat_eq_0[symmetric] max_def)
  moreover have "unat (if (2 :: u64) ^ k div 64 = 0 then 1 else (2 :: u64) ^ k div 64) =
      (if (2 :: u64) ^ k div 64 = 0 then 1 else unat ((2 :: u64) ^ k div 64))" by simp
  ultimately show ?thesis
    unfolding bf_wf_def newBloomFilter_def Let_def
    using k w by (intro exI[of _ k]) (simp only: mask_eq_exp_minus_1 bloomFilter.simps length_replicate)
qed

lemma unat_getCounterValue: "unat (getCounterValue f index) = counterAt f (unat index)"
  unfolding getCounterValue_def Let_def frequencyMask_def counterAt_def
  by (simp only: unat_nibble unat_shift unat_div16 pow_16_4)

lemma cnt_less_16: "counterAt f i < 16"
  by (simp add: counterAt_def)

lemma cnt_incrementCounter:
  assumes "unat index div 16 < length (fbf_counters f)"
  shows "counterAt (incrementCounter f index) i =
    (if i = unat index then min 15 (counterAt f i + 1) else counterAt f i)"
proof (cases "counterAt f (unat index) < 15")
  case False
  then have "counterAt f (unat index) = 15" using cnt_less_16[of f "unat index"] by linarith
  moreover have "incrementCounter f index = f"
    using False unfolding incrementCounter_def Let_def frequencyMask_def maxFrequency_def counterAt_def
    by (simp only: word_less_nat_alt unat_nibble unat_shift unat_div16 pow_16_4) simp
  ultimately show ?thesis by simp
next
  case True
  let ?a = "unat index div 16" and ?n = "unat index mod 16"
  let ?w = "fbf_counters f ! ?a"
  have t: "unat ?w div 16 ^ ?n mod 16 < 15" using True by (simp add: counterAt_def)
  have p: "(push_bit (4 * ?n) 1 :: u64) = of_nat (16 ^ ?n)"
    by (simp add: push_bit_eq_mult power_mult)
  have le: "(16::nat) ^ ?n \<le> 16 ^ 15" by (intro power_increasing) auto
  have "unat (of_nat (16 ^ ?n) :: u64) = 16 ^ ?n"
    using le by (simp only: unat_of_nat) simp
  moreover have "unat ?w + 16 ^ ?n < 2 ^ 64"
    using t unat_u64_less[of ?w] by (intro nib_add_no_overflow) auto
  ultimately have w: "unat (?w + push_bit (4 * ?n) 1) = unat ?w + 16 ^ ?n"
    unfolding p by (subst unat_word_ariths) simp
  have inc: "incrementCounter f index =
      f\<lparr>fbf_counters := (fbf_counters f)[?a := ?w + push_bit (4 * ?n) 1]\<rparr>"
    using t unfolding incrementCounter_def Let_def frequencyMask_def maxFrequency_def
    by (simp only: word_less_nat_alt unat_nibble unat_shift unat_div16 pow_16_4) simp
  show ?thesis
  proof (cases "i div 16 = ?a")
    case True
    have e: "i = unat index \<longleftrightarrow> i mod 16 = ?n" using True by (metis div_mult_mod_eq)
    have "counterAt (incrementCounter f index) i = (unat ?w + 16 ^ ?n) div 16 ^ (i mod 16) mod 16"
      using True assms by (simp add: inc counterAt_def w del: push_bit_of_1)
    also have "\<dots> = counterAt f i + (if i mod 16 = ?n then 1 else 0)"
      using True by (simp only: nib_add[OF t] counterAt_def)
    finally show ?thesis using e \<open>counterAt f (unat index) < 15\<close> by auto
  next
    case False
    then have "i \<noteq> unat index" by auto
    then show ?thesis using False by (simp add: inc counterAt_def)
  qed
qed

lemma length_incrementCounter [simp]: "length (fbf_counters (incrementCounter f i)) = length (fbf_counters f)"
  and mask_incrementCounter [simp]: "fbf_mask (incrementCounter f i) = fbf_mask f"
  and total_incrementCounter [simp]: "totalIncrements (incrementCounter f i) = totalIncrements f"
  and thr_incrementCounter [simp]: "agingThreshold (incrementCounter f i) = agingThreshold f"
  by (simp_all add: incrementCounter_def Let_def)

lemma halfMask_bit: "n < 64 \<Longrightarrow> bit halfMask n \<longleftrightarrow> n mod 4 \<noteq> 3"
proof -
  have "\<forall>n \<in> set [0..<64]. bit halfMask n \<longleftrightarrow> n mod 4 \<noteq> 3"
    by code_simp
  then show "n < 64 \<Longrightarrow> bit halfMask n \<longleftrightarrow> n mod 4 \<noteq> 3" by simp
qed

lemma half_nibble:
  fixes w :: u64
  assumes "n < 16"
  shows "drop_bit (4 * n) (drop_bit 1 w AND halfMask) AND 0x0F = drop_bit 1 (drop_bit (4 * n) w AND 0x0F)"
proof (rule bit_word_eqI)
  fix m assume "m < LENGTH(64)"
  have f: "(0x0F :: u64) = mask 4" by (simp add: mask_eq_exp_minus_1)
  show "bit (drop_bit (4 * n) (drop_bit 1 w AND halfMask) AND 0x0F) m =
      bit (drop_bit 1 (drop_bit (4 * n) w AND 0x0F)) m"
  proof (cases "m < 4")
    case True
    then have "(4 * n + m) mod 4 = m" by simp
    with True assms show ?thesis unfolding f
      by (simp only: bit_and_iff bit_drop_bit_eq bit_mask_iff o_def)
        (auto simp: halfMask_bit add_ac)
  next
    case False
    then show ?thesis unfolding f by (simp only: bit_and_iff bit_drop_bit_eq bit_mask_iff o_def) auto
  qed
qed

lemma cnt_age:
  assumes "i div 16 < length (fbf_counters f)"
  shows "counterAt (fbf_age f) i = counterAt f i div 2"
proof -
  let ?w = "fbf_counters f ! (i div 16)" and ?n = "i mod 16"
  have "counterAt (fbf_age f) i = unat (drop_bit (4 * ?n) (drop_bit 1 ?w AND halfMask) AND 0x0F)"
    using assms by (simp only: unat_nibble pow_16_4 counterAt_def fbf_age_def) simp
  also have "\<dots> = unat (drop_bit 1 (drop_bit (4 * ?n) ?w AND 0x0F))"
    by (subst half_nibble) simp_all
  also have "\<dots> = unat (drop_bit (4 * ?n) ?w AND 0x0F) div 2"
    by (simp only: unsigned_drop_bit_eq) (simp add: drop_bit_eq_div take_bit_eq_mod unat_u64_less)
  also have "\<dots> = counterAt f i div 2" by (simp only: unat_nibble pow_16_4 counterAt_def)
  finally show ?thesis .
qed

lemma positions_in_range: "fbf_wf f \<Longrightarrow> i \<in> set (positions f h) \<Longrightarrow> i div 16 < length (fbf_counters f)"
proof -
  assume "fbf_wf f" "i \<in> set (positions f h)"
  then obtain k r where k: "k \<le> 62" "length (fbf_counters f) = max 1 (2 ^ k div 16)"
    and "i = unat (hashN h (mask k) r)"
    by (auto simp: fbf_wf_def positions_def)
  then have "i < 2 ^ k" using hashN_less[of k h r] by simp
  from pow2_index[OF this, of 4] k show ?thesis by simp
qed

lemma est_unfold: "est f h = min (min (min (counterAt f (unat (hashN h (fbf_mask f) hash1Rotate)))
    (counterAt f (unat (hashN h (fbf_mask f) hash2Rotate)))) (counterAt f (unat (hashN h (fbf_mask f) hash3Rotate))))
    (counterAt f (unat (hashN h (fbf_mask f) hash4Rotate)))"
  by (simp add: est_def positions_def min.assoc)

lemma unat_estimateFrequency: "unat (estimateFrequency f h) = est f h"
  unfolding estimateFrequency_def Let_def est_unfold
  by (simp only: if_less_min unat_min unat_getCounterValue)

lemma est_le_15: "est f h \<le> 15"
  unfolding est_unfold using cnt_less_16[of f "unat (hashN h (fbf_mask f) hash1Rotate)"] by linarith

lemma fbf_increment_eq:
  "fbf_increment f h =
     (let g = (bump f h)\<lparr>totalIncrements := totalIncrements f + 1\<rparr>
      in (of_nat (min 15 (est f h + 1)), if agingThreshold f \<le> totalIncrements f + 1 then fbf_age g else g))"
proof -
  let ?c = "\<lambda>r. getCounterValue f (hashN h (fbf_mask f) r)"
  let ?m = "min (min (min (?c hash1Rotate) (?c hash2Rotate)) (?c hash3Rotate)) (?c hash4Rotate)"
  have m: "unat ?m = est f h" by (simp only: unat_min unat_getCounterValue est_unfold)
  have lt: "?m < maxFrequency \<longleftrightarrow> est f h < 15"
    by (simp only: word_less_nat_alt m maxFrequency_def) simp
  have e: "?m = of_nat (est f h)" by (subst m[symmetric], subst of_nat_unat) simp
  have suc: "est f h < 15 \<Longrightarrow> ?m + 1 = of_nat (min 15 (est f h + 1))" unfolding e by simp
  have top: "\<not> est f h < 15 \<Longrightarrow> ?m = of_nat (min 15 (est f h + 1))"
    unfolding e using est_le_15[of f h] by simp
  show ?thesis
    unfolding fbf_increment_def Let_def if_less_min
    using suc top by (cases "est f h < 15") (simp_all only: lt if_True if_False prod.case bump_def, simp_all)
qed

lemma bump_frame [simp]:
  "length (fbf_counters (bump f h)) = length (fbf_counters f)" "fbf_mask (bump f h) = fbf_mask f"
  "agingThreshold (bump f h) = agingThreshold f"
  by (simp_all add: bump_def)

lemma incAll_mono:
  "\<forall>x \<in> set xs. unat x div 16 < length (fbf_counters f) \<Longrightarrow> counterAt f i \<le> counterAt (incAll xs f) i"
proof (induction xs arbitrary: f)
  case (Cons x xs)
  have "counterAt f i \<le> counterAt (incrementCounter f x) i"
    using Cons.prems cnt_less_16[of f i] by (auto simp: cnt_incrementCounter)
  also have "\<dots> \<le> counterAt (incAll xs (incrementCounter f x)) i"
    by (rule Cons.IH) (use Cons.prems in auto)
  finally show ?case by simp
qed simp

lemma incAll_hit:
  "\<forall>x \<in> set xs. unat x div 16 < length (fbf_counters f) \<Longrightarrow> i \<in> unat ` set xs \<Longrightarrow>
   min 15 (counterAt f i + 1) \<le> counterAt (incAll xs f) i"
proof (induction xs arbitrary: f)
  case (Cons x xs)
  let ?g = "incrementCounter f x"
  have g: "counterAt ?g i = (if i = unat x then min 15 (counterAt f i + 1) else counterAt f i)"
    using Cons.prems by (intro cnt_incrementCounter) simp
  show ?case
  proof (cases "i = unat x")
    case True
    then have "min 15 (counterAt f i + 1) = counterAt ?g i" using g by simp
    also have "\<dots> \<le> counterAt (incAll xs ?g) i" by (rule incAll_mono) (use Cons.prems in auto)
    finally show ?thesis by simp
  next
    case False
    with Cons have "min 15 (counterAt ?g i + 1) \<le> counterAt (incAll xs ?g) i" by auto
    with False show ?thesis by (simp add: g)
  qed
qed simp

lemma bump_eq:
  "bump f h = (if est f h < 15
     then incAll (map (hashN h (fbf_mask f)) [hash1Rotate, hash2Rotate, hash3Rotate, hash4Rotate]) f else f)"
  by (simp add: bump_def)

lemma positions_bump [simp]: "positions (bump f h) h' = positions f h'"
  by (simp add: positions_def)

lemma bump_cnt:
  assumes "fbf_wf f"
  shows bump_cnt_mono: "counterAt f i \<le> counterAt (bump f h) i"
    and bump_cnt_hit: "i \<in> set (positions f h) \<Longrightarrow> min 15 (counterAt f i + 1) \<le> counterAt (bump f h) i"
proof -
  let ?xs = "map (hashN h (fbf_mask f)) [hash1Rotate, hash2Rotate, hash3Rotate, hash4Rotate]"
  have r: "\<forall>x \<in> set ?xs. unat x div 16 < length (fbf_counters f)"
    using positions_in_range[OF assms, of _ h] by (simp add: positions_def)
  show "counterAt f i \<le> counterAt (bump f h) i"
    unfolding bump_eq using incAll_mono[OF r, of i] by (simp only: split: if_split) simp
  show "min 15 (counterAt f i + 1) \<le> counterAt (bump f h) i" if i: "i \<in> set (positions f h)"
  proof (cases "est f h < 15")
    case True
    have "i \<in> unat ` set ?xs" using i by (auto simp: positions_def)
    then show ?thesis unfolding bump_eq using True incAll_hit[OF r] by simp
  next
    case False
    have "est f h \<le> counterAt f i" using i by (auto simp: est_def)
    then show ?thesis unfolding bump_eq using False by simp
  qed
qed

lemma est_mono:
  assumes "fbf_mask g = fbf_mask f" "\<And>i. i \<in> set (positions f h) \<Longrightarrow> u (counterAt f i) \<le> counterAt g i" "mono u"
  shows "u (est f h) \<le> est g h"
proof -
  have p: "positions g h = positions f h" by (simp add: positions_def assms(1))
  have ne: "counterAt f ` set (positions f h) \<noteq> {}" by (simp add: positions_def)
  have "u (est f h) \<le> counterAt g i" if "i \<in> set (positions f h)" for i
  proof -
    have "est f h \<le> counterAt f i" using that by (auto simp: est_def)
    then show ?thesis using assms(2)[OF that] assms(3) by (meson monoD order_trans)
  qed
  then show ?thesis unfolding est_def[of g] p using ne by (simp add: est_def)
qed

lemma est_bump:
  assumes "fbf_wf f"
  shows "est f h' \<le> est (bump f h) h'" and "min 15 (est f h + 1) \<le> est (bump f h) h"
proof -
  show "est f h' \<le> est (bump f h) h'"
    using est_mono[of "bump f h" f h' id] bump_cnt_mono[OF assms] by (simp add: mono_def)
  have "mono (\<lambda>n::nat. min 15 (n + 1))" by (auto simp: mono_def)
  then show "min 15 (est f h + 1) \<le> est (bump f h) h"
    using est_mono[of "bump f h" f h "\<lambda>n. min 15 (n + 1)"] bump_cnt_hit[OF assms] by simp
qed

lemma est_age: "fbf_wf f \<Longrightarrow> est (fbf_age f) h = est f h div 2"
proof -
  assume wf: "fbf_wf f"
  have p: "positions (fbf_age f) h = positions f h" by (simp add: positions_def fbf_age_def)
  have "counterAt (fbf_age f) ` set (positions f h) = (\<lambda>n. n div 2) ` counterAt f ` set (positions f h)"
    unfolding image_image using positions_in_range[OF wf] by (intro image_cong) (auto intro: cnt_age)
  then have "est (fbf_age f) h = Min ((\<lambda>n. n div 2) ` counterAt f ` set (positions f h))"
    unfolding est_def p by simp
  also have "\<dots> = est f h div 2"
    unfolding est_def by (rule mono_Min_commute[symmetric]) (auto simp: mono_def div_le_mono positions_def)
  finally show ?thesis .
qed

lemma est_total [simp]: "est (f\<lparr>totalIncrements := n\<rparr>) h = est f h"
  by (simp add: est_def positions_def counterAt_def)

lemma fbf_wf_frame [simp]:
  "fbf_wf (bump f h) = fbf_wf f" "fbf_wf (fbf_age f) = fbf_wf f" "fbf_wf (f\<lparr>totalIncrements := n\<rparr>) = fbf_wf f"
  by (simp_all add: fbf_wf_def fbf_age_def)

lemma fbf_wf_increment: "fbf_wf f \<Longrightarrow> fbf_wf (snd (fbf_increment f h))"
  by (simp add: fbf_increment_eq Let_def)

text \<open>One increment, with or without the aging pass it may trigger.\<close>

lemma est_increment:
  assumes "fbf_wf f"
  defines "a \<equiv> (if agingThreshold f \<le> totalIncrements f + 1 then 2 else 1)"
  shows "est f h' div a \<le> est (snd (fbf_increment f h)) h'"
    and "min 15 (est f h + 1) div a \<le> est (snd (fbf_increment f h)) h"
  using est_bump[OF assms(1)] assms(1)
  by (auto simp: fbf_increment_eq Let_def a_def est_age div_le_mono)

lemma incs_lower_bound:
  assumes "fbf_wf f" "unat (totalIncrements f) + length hs < unat (agingThreshold f)"
  shows "min 15 (est f h + count_list hs h) \<le> est (incs f hs) h"
  using assms
proof (induction hs arbitrary: f)
  case (Cons k hs)
  let ?g = "snd (fbf_increment f k)"
  have "unat (totalIncrements f + 1) = unat (totalIncrements f) + 1"
    using Cons.prems(2) unat_u64_less[of "agingThreshold f"] by (subst unat_word_ariths) simp
  then have na: "\<not> agingThreshold f \<le> totalIncrements f + 1"
    and t: "unat (totalIncrements ?g) = unat (totalIncrements f) + 1" "agingThreshold ?g = agingThreshold f"
    using Cons.prems(2) by (auto simp: word_le_nat_alt fbf_increment_eq Let_def)
  have wf: "fbf_wf ?g" using Cons.prems(1) by (rule fbf_wf_increment)
  have "min 15 (est ?g h + count_list hs h) \<le> est (incs ?g hs) h"
    using Cons.prems(2) t by (intro Cons.IH[OF wf]) simp
  moreover have "min 15 (est f h + (if k = h then 1 else 0)) \<le> est ?g h"
    using est_increment(1)[OF Cons.prems(1), where h = k and h' = h]
      est_increment(2)[OF Cons.prems(1), of h] na est_le_15[of f h]
    by auto
  ultimately show ?case by auto
qed simp

lemma fbf_wf_new:
  assumes "sint n \<le> 2 ^ 62"
  shows "fbf_wf (newFrequencyBloomFilter n)"
proof -
  from assms obtain k where k: "NextPowerOf2 (sint n) = 2 ^ k" "k \<le> 62" by (rule NextPowerOf2_pow2)
  have w: "(word_of_int (2 ^ k) :: u64) = 2 ^ k" by simp
  have d: "unat ((2 :: u64) ^ k div 16) = 2 ^ k div 16" using k(2) by (simp add: unat_div word_pow2)
  then have "(if (2 :: u64) ^ k div 16 = 0 then 1 else unat ((2 :: u64) ^ k div 16)) = max 1 (2 ^ k div 16)"
    by (auto simp: unat_eq_0[symmetric] max_def)
  moreover have "unat (if (2 :: u64) ^ k div 16 = 0 then 1 else (2 :: u64) ^ k div 16) =
      (if (2 :: u64) ^ k div 16 = 0 then 1 else unat ((2 :: u64) ^ k div 16))" by simp
  ultimately show ?thesis
    unfolding fbf_wf_def newFrequencyBloomFilter_def Let_def
    using k w by (intro exI[of _ k]) (simp only: mask_eq_exp_minus_1 frequencyBloomFilter.simps length_replicate)
qed

lemma aaf_wf_new:
  assumes "sint n \<le> 2 ^ 62"
  shows "aaf_wf (newAdaptiveAdmissionFilter t n ri a b c d)"
  using fbf_wf_new[OF assms] bf_wf_new[OF sint_div_8]
  by (simp add: aaf_wf_def newAdaptiveAdmissionFilter_def Let_def)

lemma aaf_wf_frame [simp]:
  "aaf_wf (aaf\<lparr>detector := d\<rparr>) = aaf_wf aaf" "aaf_wf (aaf\<lparr>scanRejections := n\<rparr>) = aaf_wf aaf"
  "aaf_wf (aaf\<lparr>admissionRequests := n\<rparr>) = aaf_wf aaf" "aaf_wf (grant aaf) = aaf_wf aaf"
  "aaf_wf (deny aaf) = aaf_wf aaf" "aaf_wf (RecordEviction aaf) = aaf_wf aaf"
  "aaf_wf (aaf_Reset aaf) = aaf_wf aaf" "aaf_wf (checkPeriodicReset now aaf) = aaf_wf aaf"
  by (simp_all add: aaf_wf_def grant_def deny_def RecordEviction_def aaf_Reset_def checkPeriodicReset_def)

lemma prob_step:
  fixes p :: u32
  assumes "5 \<le> p" "p \<le> 95"
  shows "5 \<le> (let np = (if 5 < p then p - 5 else p) in if np < 5 then 5 else np)"
    and "(let np = (if 5 < p then p - 5 else p) in if np < 5 then 5 else np) \<le> 95"
    and "5 \<le> (let np = p + 5 in if 95 < np then 95 else np)"
    and "(let np = p + 5 in if 95 < np then 95 else np) \<le> 95"
proof -
  have b: "5 \<le> unat p" "unat p \<le> 95" using assms by (simp_all add: word_le_nat_alt)
  have a: "unat (p + 5) = unat p + 5" using b by (subst unat_word_ariths) simp
  have s: "5 < p \<Longrightarrow> unat (p - 5) = unat p - 5" by (subst unat_sub) (simp_all add: word_less_nat_alt word_le_nat_alt)
  show "5 \<le> (let np = (if 5 < p then p - 5 else p) in if np < 5 then 5 else np)"
    "(let np = (if 5 < p then p - 5 else p) in if np < 5 then 5 else np) \<le> 95"
    "5 \<le> (let np = p + 5 in if 95 < np then 95 else np)"
    "(let np = p + 5 in if 95 < np then 95 else np) \<le> 95"
    using a s b by (auto simp: word_less_nat_alt word_le_nat_alt Let_def split: if_splits)
qed

lemma aaf_wf_adjust: "aaf_wf aaf \<Longrightarrow> aaf_wf (adjustAdmissionProbability now aaf)"
  using prob_step[of "admissionProbability aaf"]
  by (auto simp: aaf_wf_def adjustAdmissionProbability_def Let_def admissionProbabilityStep_def)

lemma shouldAdmit_cases:
  obtains (door) "bf_contains (doorkeeper aaf) h"
      "shouldAdmit t aaf h vf va = (True, grant (aaf\<lparr>admissionRequests := admissionRequests aaf + 1,
         doorkeeper := bf_add (doorkeeper aaf) h,
         frequencyFilter := snd (fbf_increment (frequencyFilter aaf) h)\<rparr>))"
  | (scan) wd b x where "\<not> bf_contains (doorkeeper aaf) h" "detectScan (t 0) (detector aaf) = (True, wd)"
      "x = aaf\<lparr>admissionRequests := admissionRequests aaf + 1, detector := wd,
             scanRejections := scanRejections aaf + 1\<rparr>"
      "b = admitDuringScan (t 1) x h va"
      "shouldAdmit t aaf h vf va = (b, if b then grant x else deny x)"
  | (decide) wd b x y where "\<not> bf_contains (doorkeeper aaf) h" "detectScan (t 0) (detector aaf) = (False, wd)"
      "x = aaf\<lparr>admissionRequests := admissionRequests aaf + 1, detector := wd,
             frequencyFilter := snd (fbf_increment (frequencyFilter aaf) h),
             doorkeeper := bf_add (doorkeeper aaf) h\<rparr>"
      "y = checkPeriodicReset (t 3) (adjustAdmissionProbability (t 2) x)"
      "b = makeAdmissionDecision (t 1) x h (fst (fbf_increment (frequencyFilter aaf) h)) vf va"
      "shouldAdmit t aaf h vf va = (b, if b then grant y else deny y)"
proof -
  obtain sc wd where d: "detectScan (t 0) (detector aaf) = (sc, wd)" by fastforce
  show thesis
    using d door scan decide
    by (cases "bf_contains (doorkeeper aaf) h"; cases sc)
      (simp_all add: shouldAdmit_def Let_def split: prod.splits)
qed

lemma aaf_wf_shouldAdmit: "aaf_wf aaf \<Longrightarrow> aaf_wf (snd (shouldAdmit t aaf h vf va))"
proof (cases rule: shouldAdmit_cases[of aaf h t vf va])
  case door
  assume "aaf_wf aaf"
  with door show ?thesis by (simp add: aaf_wf_def grant_def fbf_wf_increment)
next
  case scan
  assume "aaf_wf aaf"
  with scan show ?thesis by simp
next
  case (decide wd b x y)
  assume "aaf_wf aaf"
  then have "aaf_wf x" using decide(3) by (simp add: aaf_wf_def fbf_wf_increment)
  with decide show ?thesis by (simp add: aaf_wf_adjust)
qed

text \<open>What a request does to the filter, in the three branches.\<close>

lemma doorkeeper_frame [simp]:
  "doorkeeper (grant aaf) = doorkeeper aaf" "doorkeeper (deny aaf) = doorkeeper aaf"
  "doorkeeper (adjustAdmissionProbability now aaf) = doorkeeper aaf"
  "frequencyFilter (grant aaf) = frequencyFilter aaf" "frequencyFilter (deny aaf) = frequencyFilter aaf"
  "frequencyFilter (adjustAdmissionProbability now aaf) = frequencyFilter aaf"
  "frequencyFilter (checkPeriodicReset now aaf) = frequencyFilter aaf"
  "lastReset (adjustAdmissionProbability now aaf) = lastReset aaf"
  "resetInterval (adjustAdmissionProbability now aaf) = resetInterval aaf"
  by (simp_all add: grant_def deny_def adjustAdmissionProbability_def checkPeriodicReset_def Let_def)

lemma fst_fbf_increment: "fst (fbf_increment f h) = of_nat (min 15 (est f h + 1))"
  by (simp add: fbf_increment_eq Let_def)

lemma unat_threshold:
  assumes "prob < 100"
  shows "unat (ucast ((ucast (prob :: u32) * push_bit 32 (1 :: u64)) div 100) :: u32) = unat prob * 2 ^ 32 div 100"
proof -
  have p: "unat prob < 100" using assms by (simp add: word_less_nat_alt)
  have c: "unat (ucast prob :: u64) = unat prob" using p by (simp add: unsigned_ucast_eq take_bit_eq_mod)
  have m: "unat (ucast prob * (2 ^ 32) :: u64) = unat prob * 2 ^ 32"
    using p by (simp only: unat_word_ariths c) simp
  have d: "unat (ucast prob * (2 ^ 32) div 100 :: u64) = unat prob * 2 ^ 32 div 100"
    using m by (simp only: unat_div) simp
  have "unat prob * 2 ^ 32 div 100 < 2 ^ 32" using p by (simp add: less_mult_imp_div_less)
  with d show ?thesis by (simp only: push_bit_eq_mult mult_1 unsigned_ucast_eq) (simp add: take_bit_eq_mod)
qed

lemma acceptWithProb_iff:
  "acceptWithProb h prob \<longleftrightarrow> unat (xxHash64Avalanche h) < (min 100 (unat prob) * 2 ^ 32 div 100) * 2 ^ 32"
proof -
  consider "100 \<le> prob" | "prob = 0" | "prob < 100" "prob \<noteq> 0" by fastforce
  then show ?thesis
  proof cases
    case 1
    then have "100 \<le> unat prob" by (simp add: word_le_nat_alt)
    with 1 show ?thesis using unat_u64_less[of "xxHash64Avalanche h"] by (simp add: acceptWithProb_def)
  next
    case 2
    then show ?thesis by (simp add: acceptWithProb_def)
  next
    case 3
    then have p: "min 100 (unat prob) = unat prob" by (simp add: word_less_nat_alt)
    have "acceptWithProb h prob \<longleftrightarrow> unat (xxHash64Avalanche h) div 2 ^ 32 < unat prob * 2 ^ 32 div 100"
      using 3 unfolding acceptWithProb_def Let_def
      by (simp only: linorder_not_le[symmetric, of 100] if_False word_less_nat_alt unat_high_half unat_threshold)
        (simp add: word_le_nat_alt)
    then show ?thesis unfolding p by (simp only: div_less_iff_less_mult zero_less_power zero_less_numeral)
  qed
qed

lemma request_remembered:
  assumes "aaf_wf aaf" "\<not> fst (detectScan (t 0) (detector aaf))"
    "i64 (t 3 - lastReset aaf) \<le> resetInterval aaf"
  shows "bf_contains (doorkeeper (snd (shouldAdmit t aaf h vf va))) h"
proof -
  have wf: "bf_wf (doorkeeper aaf)" using assms(1) by (simp add: aaf_wf_def)
  show ?thesis
  proof (cases rule: shouldAdmit_cases[of aaf h t vf va])
    case door
    then show ?thesis by (simp add: bf_contains_add_same[OF wf])
  next
    case scan
    then show ?thesis using assms(2) by simp
  next
    case (decide wd b x y)
    then have "doorkeeper y = bf_add (doorkeeper aaf) h"
      using assms(3) by (simp add: checkPeriodicReset_def)
    then show ?thesis using decide by (simp add: bf_contains_add_same[OF wf])
  qed
qed

section \<open>Properties\<close>

text \<open>C39. The frequency sketch never underestimates: until the first aging pass, a key offered \<open>c\<close>
  times has an estimate of at least \<open>min 15 c\<close>, whatever other keys share its counters.\<close>

theorem sketch_never_underestimates:
  assumes "sint n \<le> 2 ^ 62" "length hs < unat (agingThreshold (newFrequencyBloomFilter n))"
  shows "min 15 (count_list hs h) \<le> unat (estimateFrequency (incs (newFrequencyBloomFilter n) hs) h)"
proof -
  let ?f = "newFrequencyBloomFilter n"
  have "totalIncrements ?f = 0" by (simp add: newFrequencyBloomFilter_def Let_def)
  then have "min 15 (est ?f h + count_list hs h) \<le> est (incs ?f hs) h"
    using assms by (intro incs_lower_bound fbf_wf_new) simp_all
  then show ?thesis unfolding unat_estimateFrequency by simp
qed

theorem sketch_never_underestimates_witness:
  "unat (agingThreshold (newFrequencyBloomFilter 16)) = 160 \<and>
   2 \<le> unat (estimateFrequency (incs (newFrequencyBloomFilter 16) [7, 9, 7]) 7)"
proof -
  have a: "unat (agingThreshold (newFrequencyBloomFilter 16)) = 160" by code_simp
  then show ?thesis using sketch_never_underestimates[of 16 "[7, 9, 7]" 7] by simp
qed

text \<open>An aging pass, which shifts and masks whole words of sixteen packed counters, halves the
  estimate of every key exactly (no bit leaks from one 4-bit counter into its neighbour).\<close>

theorem aging_halves:
  assumes "fbf_wf f"
  shows "unat (estimateFrequency (fbf_age f) h) = unat (estimateFrequency f h) div 2"
  by (simp only: unat_estimateFrequency est_age[OF assms])

theorem aging_halves_witness:
  "unat (estimateFrequency (fbf_age (incs (newFrequencyBloomFilter 16) [7, 7, 7, 7, 7])) 7) = 2"
proof -
  have "fbf_wf (incs (newFrequencyBloomFilter 16) [7, 7, 7, 7, 7])"
    by (simp add: fbf_wf_increment fbf_wf_new)
  moreover have "unat (estimateFrequency (incs (newFrequencyBloomFilter 16) [7, 7, 7, 7, 7]) 7) = 5" by code_simp
  ultimately show ?thesis using aging_halves[of _ 7] by simp
qed

text \<open>C40. Every filter a shard can hold keeps its shape: array lengths match the masks (so no
  index is out of range) and the admission probability stays between 5 and 95 percent.\<close>

theorem admission_filter_invariant:
  assumes "aaf_reachable aaf"
  shows "aaf_wf aaf"
  using assms by induction (simp_all add: aaf_wf_new aaf_wf_shouldAdmit)

theorem admission_filter_invariant_witness:
  "aaf_wf (snd (shouldAdmit int (newAdaptiveAdmissionFilter int 1024 1 0 0 0 0) 42 0 0))"
  by (rule admission_filter_invariant) (intro aaf_reachable.intros, simp)

text \<open>The doorkeeper gives every key a second chance: outside a scan, and unless the periodic
  reset fires in between, the request after a first one is admitted, whatever the victim.\<close>

theorem second_request_admitted:
  assumes "aaf_wf aaf" "\<not> fst (detectScan (t 0) (detector aaf))"
    "i64 (t 3 - lastReset aaf) \<le> resetInterval aaf"
  shows "fst (shouldAdmit t' (snd (shouldAdmit t aaf h vf va)) h vf' va')"
proof -
  have "bf_contains (doorkeeper (snd (shouldAdmit t aaf h vf va))) h"
    using assms by (rule request_remembered)
  then show ?thesis by (simp add: shouldAdmit_def Let_def)
qed

theorem second_request_admitted_witness:
  "let aaf = newAdaptiveAdmissionFilter int 1024 60000000000 0 0 0 0
   in \<not> fst (shouldAdmit int aaf 42 9 0) \<and> fst (shouldAdmit int (snd (shouldAdmit int aaf 42 9 0)) 42 9 0)"
proof -
  let ?aaf = "newAdaptiveAdmissionFilter int 1024 60000000000 0 0 0 0"
  have "aaf_wf ?aaf" by (rule aaf_wf_new) simp
  moreover have "\<not> fst (detectScan (int 0) (detector ?aaf))" by code_simp
  moreover have "i64 (int 3 - lastReset ?aaf) \<le> resetInterval ?aaf" by code_simp
  ultimately have "fst (shouldAdmit int (snd (shouldAdmit int ?aaf 42 9 0)) 42 9 0)"
    by (rule second_request_admitted)
  moreover have "\<not> fst (shouldAdmit int ?aaf 42 9 0)" by code_simp
  ultimately show ?thesis by (simp add: Let_def)
qed

text \<open>Outside a scan, a key whose estimated frequency is already two or more is admitted,
  whatever the victim and whatever the current admission probability.\<close>

theorem hot_key_admitted:
  assumes "\<not> fst (detectScan (t 0) (detector aaf))" "2 \<le> GetFrequencyEstimate aaf h"
  shows "fst (shouldAdmit t aaf h vf va)"
proof -
  have "2 \<le> est (frequencyFilter aaf) h"
    using assms(2) by (simp add: GetFrequencyEstimate_def word_le_nat_alt unat_estimateFrequency)
  then have n: "3 \<le> min 15 (est (frequencyFilter aaf) h + 1)" by simp
  have "unat (of_nat (min 15 (est (frequencyFilter aaf) h + 1)) :: u64) = min 15 (est (frequencyFilter aaf) h + 1)"
    by (simp only: unat_of_nat) simp
  then have "frequencyThreshold \<le> fst (fbf_increment (frequencyFilter aaf) h)"
    using n by (simp only: fst_fbf_increment frequencyThreshold_def word_le_nat_alt) simp
  then show ?thesis
    using assms(1) by (cases rule: shouldAdmit_cases[of aaf h t vf va]) (auto simp: makeAdmissionDecision_def)
qed

theorem hot_key_admitted_witness:
  "let aaf = newAdaptiveAdmissionFilter int 1024 60000000000 0 0 0 0;
       aaf = aaf\<lparr>frequencyFilter := incs (frequencyFilter aaf) [42, 42]\<rparr>
   in fst (shouldAdmit int aaf 42 9 0)"
  unfolding Let_def by (rule hot_key_admitted; code_simp)
text \<open>\<open>acceptWithProb\<close> is exact: of the \<open>2 ^ 64\<close> hashes it accepts
  \<open>prob * 2 ^ 32 div 100\<close> blocks of \<open>2 ^ 32\<close>, since the avalanche is a permutation.\<close>

theorem acceptWithProb_exact: "card {h. acceptWithProb h prob} = (min 100 (unat prob) * 2 ^ 32 div 100) * 2 ^ 32"
proof -
  let ?N = "(min 100 (unat prob) * 2 ^ 32 div 100) * 2 ^ 32"
  have "min 100 (unat prob) * 2 ^ 32 div 100 \<le> 100 * 2 ^ 32 div (100::nat)" by (intro div_le_mono mult_le_mono1) simp
  then have N: "?N \<le> 2 ^ 64" by simp
  have "surj xxHash64Avalanche" using xxHash64Avalanche_inj by (simp add: finite_UNIV_inj_surj)
  then have "card (xxHash64Avalanche -` {y. unat y < ?N}) = card {y :: u64. unat y < ?N}"
    by (intro card_vimage_inj[OF xxHash64Avalanche_inj]) (simp only: subset_UNIV)
  then show ?thesis using card_u64_below[OF N] by (simp only: acceptWithProb_iff vimage_Collect_eq)
qed

end
