(* ===== verification/Store.thy ===== *)
theory Store
  imports Kioshun_Prelude
begin

text \<open>
  The heap of cache items (\<open>cacheItem\<close> of \<open>cache.go\<close>) and the \<open>sync.Pool\<close> that recycles them.

  An item is reached through its address, because shard maps, the intrusive LRU list, the LFU
  index and the pool all hold the same pointers and the code relies on that sharing. Address 0 is
  nil and is never allocated; a field access through nil would be an access at address 0, and the
  invariants of the components show that no operation makes one. The pool belongs to the cache
  and serves all its shards.
\<close>

record ('k, 'v) cacheItem =
  val :: 'v
  expireTime :: int
  lastAccess :: int
  frequency :: int
  prev :: addr
  "next" :: addr
  key :: "'k option"

definition zeroItem :: "('k, 'v::zero) cacheItem" where
  "zeroItem = \<lparr>val = 0, expireTime = 0, lastAccess = 0, frequency = 0, prev = nil, next = nil, key = None\<rparr>"

record ('k, 'v) store =
  itemHeap :: "('k, 'v) cacheItem heap"
  itemTop :: addr
  pool :: "addr list"

definition emptyStore :: "('k, 'v::zero) store" where
  "emptyStore = \<lparr>itemHeap = [], itemTop = 1, pool = []\<rparr>"

definition items :: "('k, 'v::zero) store \<Rightarrow> addr \<Rightarrow> ('k, 'v) cacheItem" where
  "items st = hget zeroItem (itemHeap st)"

text \<open>A field assignment \<open>x.f = e\<close> of the source is \<open>setItem x (f_update (\<lambda>_. e))\<close>.\<close>

definition setItem ::
  "addr \<Rightarrow> (('k, 'v::zero) cacheItem \<Rightarrow> ('k, 'v) cacheItem) \<Rightarrow> ('k, 'v) store \<Rightarrow> ('k, 'v) store" where
  "setItem a f st = st\<lparr>itemHeap := mput a (f (items st a)) (itemHeap st)\<rparr>"

text \<open>\<open>&cacheItem[V]{}\<close>: a zeroed item at a fresh address.\<close>

definition newItem :: "('k, 'v::zero) store \<Rightarrow> addr \<times> ('k, 'v) store" where
  "newItem st = (itemTop st, st\<lparr>itemHeap := mput (itemTop st) zeroItem (itemHeap st), itemTop := itemTop st + 1\<rparr>)"

text \<open>
  \<open>sync.Pool\<close> may hand out any pooled item, or none and call \<open>New\<close>: which of the two, and which
  item, is decided by the argument \<open>pick\<close>. A pooled item keeps the fields it had.
\<close>

definition poolGet :: "(addr list \<Rightarrow> addr option) \<Rightarrow> ('k, 'v::zero) store \<Rightarrow> addr \<times> ('k, 'v) store" where
  "poolGet pick st =
     (case pick (pool st) of
        None \<Rightarrow> newItem st
      | Some a \<Rightarrow> if a \<in> set (pool st) then (a, st\<lparr>pool := remove1 a (pool st)\<rparr>) else newItem st)"

definition poolPut :: "addr \<Rightarrow> ('k, 'v) store \<Rightarrow> ('k, 'v) store" where
  "poolPut a st = st\<lparr>pool := a # pool st\<rparr>"

section \<open>Lemmas\<close>

lemma setItem_simps [simp]:
  "items (setItem a f st) b = (if b = a then f (items st a) else items st b)"
  "itemTop (setItem a f st) = itemTop st" "pool (setItem a f st) = pool st"
  by (simp_all add: setItem_def items_def)

lemma items_frame [simp]: "items (st\<lparr>pool := p\<rparr>) = items st" "items (st\<lparr>itemTop := n\<rparr>) = items st"
  "items (st\<lparr>itemHeap := mput a x (itemHeap st)\<rparr>) b = (if b = a then x else items st b)"
  by (simp_all add: items_def)

lemma poolPut_simps [simp]:
  "items (poolPut a st) = items st" "itemTop (poolPut a st) = itemTop st" "pool (poolPut a st) = a # pool st"
  by (simp_all add: poolPut_def items_def)

text \<open>Everything in the pool has been allocated and is there once.\<close>

definition pool_ok :: "('k, 'v) store \<Rightarrow> bool" where
  "pool_ok st \<longleftrightarrow> 0 < itemTop st \<and> distinct (pool st) \<and> (\<forall>a \<in> set (pool st). 0 < a \<and> a < itemTop st)"

lemma poolGet_cases:
  assumes "pool_ok st"
  obtains (recycled) a where "a \<in> set (pool st)" "poolGet pick st = (a, st\<lparr>pool := remove1 a (pool st)\<rparr>)"
  | (allocated) "poolGet pick st = (itemTop st, st\<lparr>itemHeap := mput (itemTop st) zeroItem (itemHeap st), itemTop := itemTop st + 1\<rparr>)"
proof (cases "pick (pool st)")
  case None
  then show thesis using allocated by (simp add: poolGet_def newItem_def)
next
  case (Some a)
  then show thesis
    using recycled[of a] allocated by (cases "a \<in> set (pool st)") (simp_all add: poolGet_def newItem_def)
qed

end
