(* ===== verification/Lfu.thy ===== *)
theory Lfu
  imports Store
begin

text \<open>
  \<open>lfu.go\<close>: the LFU index of a shard, a circular doubly linked list of buckets in ascending
  frequency with a sentinel of frequency 0, a map from frequencies to buckets and a map from items
  to buckets. Buckets are heap objects of their own, private to one index, so their heap is part
  of the record. A set of items is a list without repetition; the order in which Go ranges over
  it is the argument \<open>it\<close> of \<open>removeLFU\<close>.
\<close>

record freqNode =
  freq :: int
  fitems :: "addr list"
  fprev :: addr
  fnext :: addr

record lfuList =
  lhead :: addr
  freqMap :: "(int, addr) gomap"
  itemFreq :: "(addr, addr) gomap"
  nodeHeap :: "freqNode heap"
  nodeTop :: addr

definition zeroNode :: freqNode where
  "zeroNode = \<lparr>freq = 0, fitems = [], fprev = nil, fnext = nil\<rparr>"

definition nodes :: "lfuList \<Rightarrow> addr \<Rightarrow> freqNode" where
  "nodes l = hget zeroNode (nodeHeap l)"

definition setNode :: "addr \<Rightarrow> (freqNode \<Rightarrow> freqNode) \<Rightarrow> lfuList \<Rightarrow> lfuList" where
  "setNode a f l = l\<lparr>nodeHeap := mput a (f (nodes l a)) (nodeHeap l)\<rparr>"

text \<open>\<open>&freqNode{freq: f, items: make(...)}\<close>: a fresh bucket, not linked yet.\<close>

definition newNode :: "int \<Rightarrow> lfuList \<Rightarrow> addr \<times> lfuList" where
  "newNode f l =
     (nodeTop l, l\<lparr>nodeHeap := mput (nodeTop l) (zeroNode\<lparr>freq := f\<rparr>) (nodeHeap l),
                   nodeTop := nodeTop l + 1\<rparr>)"

definition newLFUList :: lfuList where
  "newLFUList =
     (let l = \<lparr>lhead = nil, freqMap = [], itemFreq = [], nodeHeap = [], nodeTop = 1\<rparr>;
          (h, l) = newNode 0 l;
          l = l\<lparr>lhead := h\<rparr>;
          l = setNode h (fnext_update (\<lambda>_. h)) l
      in setNode h (fprev_update (\<lambda>_. h)) l)"

definition ensureIndex :: "lfuList \<Rightarrow> addr \<Rightarrow> int \<Rightarrow> addr \<times> lfuList" where
  "ensureIndex l p f =
     (case mget (freqMap l) f of
        Some n \<Rightarrow> (n, l)
      | None \<Rightarrow>
          let (n, l) = newNode f l;
              nxt = fnext (nodes l p);
              l = setNode p (fnext_update (\<lambda>_. n)) l;
              l = setNode n (fprev_update (\<lambda>_. p)) l;
              l = setNode n (fnext_update (\<lambda>_. nxt)) l;
              l = setNode nxt (fprev_update (\<lambda>_. n)) l
          in (n, l\<lparr>freqMap := mput f n (freqMap l)\<rparr>))"

definition getOrCreateFreqNode :: "lfuList \<Rightarrow> int \<Rightarrow> addr \<times> lfuList" where
  "getOrCreateFreqNode l f =
     (if f = 1 then ensureIndex l (lhead l) 1
      else ensureIndex l (case mget (freqMap l) (f - 1) of Some p \<Rightarrow> p | None \<Rightarrow> nil) f)"

definition removeFreqNode :: "lfuList \<Rightarrow> addr \<Rightarrow> lfuList" where
  "removeFreqNode l n =
     (let l = setNode (fprev (nodes l n)) (fnext_update (\<lambda>_. fnext (nodes l n))) l;
          l = setNode (fnext (nodes l n)) (fprev_update (\<lambda>_. fprev (nodes l n))) l
      in l\<lparr>freqMap := mdel (freq (nodes l n)) (freqMap l)\<rparr>)"

definition lfu_add :: "('k, 'v::zero) store \<Rightarrow> lfuList \<Rightarrow> addr \<Rightarrow> ('k, 'v) store \<times> lfuList" where
  "lfu_add st l item =
     (let f = 1;
          st = setItem item (frequency_update (\<lambda>_. f)) st;
          (n, l) = getOrCreateFreqNode l f;
          l = setNode n (fitems_update (List.insert item)) l
      in (st, l\<lparr>itemFreq := mput item n (itemFreq l)\<rparr>))"

definition lfu_increment :: "('k, 'v::zero) store \<Rightarrow> lfuList \<Rightarrow> addr \<Rightarrow> ('k, 'v) store \<times> lfuList" where
  "lfu_increment st l item =
     (case mget (itemFreq l) item of
        None \<Rightarrow> lfu_add st l item
      | Some cur \<Rightarrow>
          let newFreq = freq (nodes l cur) + 1;
              l = setNode cur (fitems_update (removeAll item)) l;
              nxt = fnext (nodes l cur);
              (target, l) =
                (if nxt \<noteq> lhead l \<and> freq (nodes l nxt) = newFreq then (nxt, l)
                 else ensureIndex l cur newFreq);
              l = setNode target (fitems_update (List.insert item)) l;
              l = l\<lparr>itemFreq := mput item target (itemFreq l)\<rparr>;
              st = setItem item (frequency_update (\<lambda>_. newFreq)) st;
              l = (if fitems (nodes l cur) = [] \<and> freq (nodes l cur) \<noteq> 0 then removeFreqNode l cur else l)
          in (st, l))"

text \<open>The popped item, or nil when the index is empty.\<close>

definition removeLFU :: "addr iter \<Rightarrow> lfuList \<Rightarrow> addr \<times> lfuList" where
  "removeLFU it l =
     (let n = fnext (nodes l (lhead l)) in
      if n = lhead l then (nil, l)
      else
        let victim = (case it (fitems (nodes l n)) of [] \<Rightarrow> nil | v # _ \<Rightarrow> v);
            l = setNode n (fitems_update (removeAll victim)) l;
            l = l\<lparr>itemFreq := mdel victim (itemFreq l)\<rparr>;
            l = (if fitems (nodes l n) = [] then removeFreqNode l n else l)
        in (victim, l))"

definition lfu_remove :: "lfuList \<Rightarrow> addr \<Rightarrow> lfuList" where
  "lfu_remove l item =
     (case mget (itemFreq l) item of
        None \<Rightarrow> l
      | Some n \<Rightarrow>
          let l = setNode n (fitems_update (removeAll item)) l;
              l = l\<lparr>itemFreq := mdel item (itemFreq l)\<rparr>
          in if fitems (nodes l n) = [] \<and> freq (nodes l n) \<noteq> 0 then removeFreqNode l n else l)"

section \<open>Representation invariant and abstraction\<close>

text \<open>The links, the frequencies and the frequency map; insensitive to which items a bucket holds.\<close>

definition lfu_struct :: "lfuList \<Rightarrow> addr list \<Rightarrow> bool" where
  "lfu_struct l bs \<longleftrightarrow>
     chain (fnext \<circ> nodes l) (fprev \<circ> nodes l) (lhead l # bs @ [lhead l]) \<and>
     (\<forall>b \<in> set (lhead l # bs). 0 < b \<and> b < nodeTop l) \<and>
     freq (nodes l (lhead l)) = 0 \<and>
     sorted_wrt (<) (map (freq \<circ> nodes l) (lhead l # bs)) \<and>
     (\<forall>f n. mget (freqMap l) f = Some n \<longleftrightarrow> n \<in> set bs \<and> freq (nodes l n) = f)"

text \<open>Which bucket holds which item.\<close>

definition lfu_items :: "lfuList \<Rightarrow> addr list \<Rightarrow> bool" where
  "lfu_items l bs \<longleftrightarrow> fitems (nodes l (lhead l)) = [] \<and>
     (\<forall>a n. mget (itemFreq l) a = Some n \<longleftrightarrow> n \<in> set bs \<and> a \<in> set (fitems (nodes l n))) \<and>
     (\<forall>b \<in> set bs. distinct (fitems (nodes l b)))"

definition lfu_rep :: "lfuList \<Rightarrow> addr list \<Rightarrow> bool" where
  "lfu_rep l bs \<longleftrightarrow> lfu_struct l bs \<and> lfu_items l bs \<and> (\<forall>b \<in> set bs. fitems (nodes l b) \<noteq> [])"

definition lfu_inv :: "lfuList \<Rightarrow> bool" where
  "lfu_inv l \<longleftrightarrow> (\<exists>bs. lfu_rep l bs)"

text \<open>\<open>n\<close> successive pops.\<close>

fun pops :: "('s \<Rightarrow> addr \<times> 's) \<Rightarrow> nat \<Rightarrow> 's \<Rightarrow> addr list \<times> 's" where
  "pops pop 0 s = ([], s)"
| "pops pop (Suc n) s = (let (a, s) = pop s; (as, s) = pops pop n s in (a # as, s))"

text \<open>An index with the item 7 at frequency 1 and the item 5 at frequency 2.\<close>

definition sampleLfu :: lfuList where
  "sampleLfu =
     (let st = (emptyStore :: (nat, nat) store);
          l = snd (lfu_add st newLFUList 5); l = snd (lfu_increment st l 5)
      in snd (lfu_add st l 7))"

text \<open>The abstract value of the index: the frequency of each item it tracks.\<close>

definition lfu_freq :: "lfuList \<Rightarrow> addr \<rightharpoonup> int" where
  "lfu_freq l a = map_option (\<lambda>n. freq (nodes l n)) (mget (itemFreq l) a)"

section \<open>Lemmas\<close>

lemma nodes_frame [simp]:
  "nodes (l\<lparr>lhead := h\<rparr>) = nodes l" "nodes (l\<lparr>freqMap := m\<rparr>) = nodes l" "nodes (l\<lparr>itemFreq := m'\<rparr>) = nodes l"
  "nodes (l\<lparr>nodeTop := n\<rparr>) = nodes l"
  "nodes (l\<lparr>nodeHeap := mput a x (nodeHeap l)\<rparr>) b = (if b = a then x else nodes l b)"
  by (simp_all add: nodes_def)

lemma setNode_simps [simp]:
  "nodes (setNode a f l) b = (if b = a then f (nodes l a) else nodes l b)"
  "lhead (setNode a f l) = lhead l" "freqMap (setNode a f l) = freqMap l"
  "itemFreq (setNode a f l) = itemFreq l" "nodeTop (setNode a f l) = nodeTop l"
  by (simp_all add: setNode_def nodes_def)

lemma lfu_struct_frame:
  assumes "\<And>n. freq (nodes l' n) = freq (nodes l n)" "\<And>n. fnext (nodes l' n) = fnext (nodes l n)"
    "\<And>n. fprev (nodes l' n) = fprev (nodes l n)"
    "lhead l' = lhead l" "freqMap l' = freqMap l" "nodeTop l' = nodeTop l"
  shows "lfu_struct l' bs = lfu_struct l bs"
proof -
  have "freq \<circ> nodes l' = freq \<circ> nodes l" "fnext \<circ> nodes l' = fnext \<circ> nodes l" "fprev \<circ> nodes l' = fprev \<circ> nodes l"
    using assms by (simp_all add: fun_eq_iff)
  then show ?thesis using assms by (simp add: lfu_struct_def)
qed

lemma lfu_struct_items [simp]:
  "lfu_struct (setNode a (fitems_update g) l) bs = lfu_struct l bs"
  "lfu_struct (l\<lparr>itemFreq := m\<rparr>) bs = lfu_struct l bs"
  by (rule lfu_struct_frame; simp)+

lemma lfu_struct_distinct: "lfu_struct l bs \<Longrightarrow> distinct (lhead l # bs)"
  by (auto simp: lfu_struct_def chain_def butlast_append)

lemma lfu_struct_freq_inj:
  "lfu_struct l bs \<Longrightarrow> b \<in> set bs \<Longrightarrow> b' \<in> set bs \<Longrightarrow> freq (nodes l b) = freq (nodes l b') \<Longrightarrow> b = b'"
  by (metis lfu_struct_def option.inject)

lemma lfu_struct_None:
  "lfu_struct l bs \<Longrightarrow> mget (freqMap l) f = None \<Longrightarrow> b \<in> set bs \<Longrightarrow> freq (nodes l b) \<noteq> f"
  by (metis lfu_struct_def option.distinct(1))

lemma lfu_struct_pos: "lfu_struct l bs \<Longrightarrow> b \<in> set bs \<Longrightarrow> 0 < freq (nodes l b)"
  by (auto simp: lfu_struct_def)

lemma lfu_struct_next:
  assumes "lfu_struct l bs" "lhead l # bs = us @ p # vs"
  shows "fnext (nodes l p) = hd (vs @ [lhead l])"
proof -
  obtain b ws where b: "vs @ [lhead l] = b # ws" by (cases vs) auto
  have "lhead l # bs @ [lhead l] = us @ p # b # ws"
    using assms(2) b by (metis append.assoc append_Cons)
  with assms(1) have "chain (fnext \<circ> nodes l) (fprev \<circ> nodes l) (us @ p # b # ws)"
    by (simp only: lfu_struct_def)
  from chain_nx[OF this] show ?thesis using b by simp
qed

lemma ensureIndex_found: "mget (freqMap l) f = Some n \<Longrightarrow> ensureIndex l p f = (n, l)"
  by (simp add: ensureIndex_def)

lemma ensureIndex_new:
  assumes "mget (freqMap l) f = None" "lfu_struct l bs" "p \<in> set (lhead l # bs)"
  obtains l' where "ensureIndex l p f = (nodeTop l, l')" "lhead l' = lhead l" "itemFreq l' = itemFreq l"
    "nodeTop l' = nodeTop l + 1" "freqMap l' = mput f (nodeTop l) (freqMap l)"
    "\<And>n. fitems (nodes l' n) = (if n = nodeTop l then [] else fitems (nodes l n))"
    "\<And>n. freq (nodes l' n) = (if n = nodeTop l then f else freq (nodes l n))"
    "\<And>n. fnext (nodes l' n) = (if n = nodeTop l then fnext (nodes l p) else if n = p then nodeTop l else fnext (nodes l n))"
    "\<And>n. fprev (nodes l' n) = (if n = nodeTop l then p else if n = fnext (nodes l p) then nodeTop l else fprev (nodes l n))"
proof -
  have p: "p < nodeTop l" using assms(2,3) by (auto simp: lfu_struct_def)
  obtain us vs where "lhead l # bs = us @ p # vs" using assms(3) by (metis split_list)
  from lfu_struct_next[OF assms(2) this] have "fnext (nodes l p) \<in> set (lhead l # bs)"
    using arg_cong[OF \<open>lhead l # bs = us @ p # vs\<close>, of set] by (cases vs) auto
  then have nx: "fnext (nodes l p) < nodeTop l" using assms(2) by (auto simp: lfu_struct_def)
  show thesis
    by (rule that[of "snd (ensureIndex l p f)"])
      (use assms(1) p nx in \<open>simp_all add: ensureIndex_def newNode_def zeroNode_def Let_def\<close>)
qed

lemma lfu_sorted_insert:
  assumes st: "lfu_struct l bs" and p: "lhead l # bs = us @ p # vs" and new: "mget (freqMap l) f = None"
    and fr: "\<And>x. freq (nodes l' x) = (if x = n then f else freq (nodes l x))"
    and lo: "freq (nodes l p) < f" and hi: "\<forall>b \<in> set vs. f \<le> freq (nodes l b)"
    and fresh: "n \<notin> set (lhead l # bs)"
  shows "sorted_wrt (<) (map (freq \<circ> nodes l') (us @ p # n # vs))"
proof -
  have s: "sorted_wrt (<) (map (freq \<circ> nodes l) (us @ p # vs))"
    using st unfolding lfu_struct_def p[symmetric] by blast
  have m: "map (freq \<circ> nodes l') xs = map (freq \<circ> nodes l) xs" if "set xs \<subseteq> set (lhead l # bs)" for xs
    using that fresh by (auto simp: fr)
  have sub: "set us \<subseteq> set (lhead l # bs)" "set vs \<subseteq> set (lhead l # bs)" "p \<noteq> n"
    using fresh by (auto simp: p)
  have "f \<noteq> freq (nodes l b)" if "b \<in> set vs" for b
  proof -
    have "b \<in> set bs" using that p by (cases us) auto
    with lfu_struct_None[OF st new] show ?thesis by blast
  qed
  with hi have "\<forall>b \<in> set vs. f < freq (nodes l b)" by (simp add: order_less_le)
  with s lo sub(3) show ?thesis by (auto simp: sorted_wrt_append m[OF sub(1)] m[OF sub(2)] fr)
qed

lemma ensureIndex_struct:
  assumes st: "lfu_struct l bs" and p: "lhead l # bs = us @ p # vs"
    and lo: "freq (nodes l p) < f" and hi: "\<forall>b \<in> set vs. f \<le> freq (nodes l b)"
  obtains n l' bs' where "ensureIndex l p f = (n, l')" "lfu_struct l' bs'" "set bs' = insert n (set bs)"
    "freq (nodes l' n) = f" "\<forall>b \<in> set (lhead l # bs). freq (nodes l' b) = freq (nodes l b)"
    "\<forall>b \<in> set (lhead l # bs). fitems (nodes l' b) = fitems (nodes l b)"
    "n \<in> set bs \<or> n \<notin> set (lhead l # bs) \<and> fitems (nodes l' n) = []"
    "lhead l' = lhead l" "itemFreq l' = itemFreq l"
proof (cases "mget (freqMap l) f")
  case (Some n)
  then have "n \<in> set bs" "freq (nodes l n) = f" using st by (auto simp: lfu_struct_def)
  with that[of n l bs] show thesis using st by (simp add: ensureIndex_found[OF Some] insert_absorb)
next
  case None
  let ?n = "nodeTop l"
  have pin: "p \<in> set (lhead l # bs)" by (simp add: p)
  from ensureIndex_new[OF None st pin] obtain l' where
    e: "ensureIndex l p f = (?n, l')" "lhead l' = lhead l" "itemFreq l' = itemFreq l"
    "nodeTop l' = ?n + 1" "freqMap l' = mput f ?n (freqMap l)"
    and it: "\<And>n. fitems (nodes l' n) = (if n = ?n then [] else fitems (nodes l n))"
    and fr: "\<And>n. freq (nodes l' n) = (if n = ?n then f else freq (nodes l n))"
    and nx: "\<And>n. fnext (nodes l' n) = (if n = ?n then fnext (nodes l p) else if n = p then ?n else fnext (nodes l n))"
    and pv: "\<And>n. fprev (nodes l' n) = (if n = ?n then p else if n = fnext (nodes l p) then ?n else fprev (nodes l n))"
    by blast
  have fresh: "?n \<notin> set (lhead l # bs)" using st by (auto simp: lfu_struct_def)
  define bs' where "bs' = tl (us @ p # ?n # vs)"
  have c: "lhead l # bs' = us @ p # ?n # vs" using p by (cases us) (auto simp: bs'_def)
  obtain b ws where b: "vs @ [lhead l] = b # ws" by (cases vs) auto
  have full: "lhead l # bs @ [lhead l] = us @ p # b # ws" "lhead l # bs' @ [lhead l] = us @ p # ?n # b # ws"
    using p c b by (metis append.assoc append_Cons)+
  have bn: "fnext (nodes l p) = b" using lfu_struct_next[OF st p] b by simp
  have sb: "set (us @ p # b # ws) = set (lhead l # bs)" by (simp flip: full(1))
  have "chain (fnext \<circ> nodes l') (fprev \<circ> nodes l') (us @ p # ?n # b # ws)"
  proof (rule chain_insert)
    show "chain (fnext \<circ> nodes l) (fprev \<circ> nodes l) (us @ p # b # ws)"
      using st by (simp add: lfu_struct_def flip: full(1))
    show "?n \<notin> set (us @ p # b # ws)" using fresh by (simp only: sb not_False_eq_True)
  qed (simp_all add: nx pv bn)
  moreover have "set bs' = insert ?n (set bs)"
    using c p lfu_struct_distinct[OF st] fresh by (cases us) auto
  moreover have "sorted_wrt (<) (map (freq \<circ> nodes l') (us @ p # ?n # vs))"
    using st p None fr lo hi fresh by (rule lfu_sorted_insert)
  moreover have "\<forall>g n. mget (freqMap l') g = Some n \<longleftrightarrow> n \<in> set bs' \<and> freq (nodes l' n) = g"
    using st fresh lfu_struct_None[OF st None] calculation(2)
    by (auto simp: e mget_mput fr lfu_struct_def)
  ultimately have "lfu_struct l' bs'"
    using st fresh unfolding lfu_struct_def
    by (auto simp: e full(2) fr simp flip: c)
  then show thesis
    using fresh \<open>set bs' = insert ?n (set bs)\<close> by (intro that[of ?n l' bs']) (auto simp: e it fr)
qed

lemma removeFreqNode_simps:
  assumes "lfu_struct l bs" "bs = us @ n # vs"
  shows "lhead (removeFreqNode l n) = lhead l" "itemFreq (removeFreqNode l n) = itemFreq l"
    "nodeTop (removeFreqNode l n) = nodeTop l"
    "freqMap (removeFreqNode l n) = mdel (freq (nodes l n)) (freqMap l)"
    "fitems (nodes (removeFreqNode l n) x) = fitems (nodes l x)"
    "freq (nodes (removeFreqNode l n) x) = freq (nodes l x)"
  by (simp_all add: removeFreqNode_def Let_def)

lemma removeFreqNode_struct:
  assumes st: "lfu_struct l bs" and n: "n \<in> set bs"
  shows "lfu_struct (removeFreqNode l n) (remove1 n bs)"
proof -
  let ?l = "removeFreqNode l n"
  obtain us vs where bs: "bs = us @ n # vs" using n by (metis split_list)
  have d: "distinct (lhead l # bs)" using st by (rule lfu_struct_distinct)
  have rem: "remove1 n bs = us @ vs" using d bs by (simp add: remove1_append)
  obtain hs a where a: "lhead l # us = hs @ [a]" by (metis rev_exhaust list.distinct(1))
  obtain b ts where b: "vs @ [lhead l] = b # ts" by (cases vs) auto
  have full: "lhead l # bs @ [lhead l] = hs @ a # n # b # ts"
    using bs a b by (metis append.assoc append_Cons append_Nil)
  have full': "lhead l # (us @ vs) @ [lhead l] = hs @ a # b # ts"
    using a b by (metis append.assoc append_Cons append_Nil)
  have c: "chain (fnext \<circ> nodes l) (fprev \<circ> nodes l) (hs @ a # n # b # ts)"
    using st unfolding lfu_struct_def full by blast
  have nx: "fnext (nodes l n) = b" "fprev (nodes l n) = a"
    using chain_nx[of "fnext \<circ> nodes l" _ "hs @ [a]" n b ts] chain_pv[OF c] c by auto
  have ns: "n \<notin> set (hs @ a # b # ts)"
    using d bs unfolding full'[symmetric] by auto
  have "chain (fnext \<circ> nodes ?l) (fprev \<circ> nodes ?l) (hs @ a # b # ts)"
    by (rule chain_remove[OF c ns]) (use ns nx in \<open>auto simp: removeFreqNode_def Let_def\<close>)
  then have ch: "chain (fnext \<circ> nodes ?l) (fprev \<circ> nodes ?l) (lhead l # (us @ vs) @ [lhead l])"
    by (simp only: full')
  have fm: "mget (freqMap ?l) f = Some m \<longleftrightarrow> m \<in> set (us @ vs) \<and> freq (nodes ?l m) = f" for f m
  proof -
    have "m = n" if "m \<in> set bs" "freq (nodes l m) = freq (nodes l n)"
      using lfu_struct_freq_inj[OF st that(1) n that(2)] .
    then show ?thesis using st d unfolding lfu_struct_def
      by (auto simp: removeFreqNode_simps[OF st bs] mget_mdel bs)
  qed
  have "freq \<circ> nodes ?l = freq \<circ> nodes l" by (simp add: fun_eq_iff removeFreqNode_simps[OF st bs])
  then have "sorted_wrt (<) (map (freq \<circ> nodes ?l) (lhead l # us @ vs))"
    using st unfolding lfu_struct_def by (auto simp: bs sorted_wrt_append)
  then show ?thesis using st ch fm unfolding rem lfu_struct_def
    by (auto simp: removeFreqNode_simps[OF st bs] bs)
qed



lemma lfu_items_cong:
  "lfu_items l bs \<Longrightarrow> mget (itemFreq l') = mget (itemFreq l) \<Longrightarrow>
   (\<And>b. b \<in> set (lhead l # bs) \<Longrightarrow> fitems (nodes l' b) = fitems (nodes l b)) \<Longrightarrow> lhead l' = lhead l \<Longrightarrow>
   lfu_items l' bs"
  by (auto simp: lfu_items_def)

lemma lfu_items_mem:
  "lfu_items l bs \<Longrightarrow> b \<in> set bs \<Longrightarrow> a \<in> set (fitems (nodes l b)) \<Longrightarrow> mget (itemFreq l) a = Some b"
  by (simp add: lfu_items_def)

lemma lfu_freq_cong: "mget (itemFreq l') = mget (itemFreq l) \<Longrightarrow> nodes l' = nodes l \<Longrightarrow> lfu_freq l' = lfu_freq l"
  by (simp add: lfu_freq_def fun_eq_iff)

lemma lfu_freq_None_iff: "lfu_freq l a = None \<longleftrightarrow> mget (itemFreq l) a = None"
  by (simp add: lfu_freq_def)

lemma detach:
  assumes "lfu_items l bs" "mget (itemFreq l) a = Some n" "lfu_struct l bs"
  defines "l' \<equiv> (setNode n (fitems_update (removeAll a)) l)\<lparr>itemFreq := mdel a (itemFreq l)\<rparr>"
  shows "lfu_items l' bs" "lfu_freq l' = (lfu_freq l)(a := None)"
proof -
  have n: "n \<in> set bs" "n \<noteq> lhead l"
    using assms(1,2) lfu_struct_distinct[OF assms(3)] by (auto simp: lfu_items_def)
  have "a \<notin> set (fitems (nodes l b))" if "b \<in> set bs" "b \<noteq> n" for b
    using lfu_items_mem[OF assms(1) that(1)] assms(2) that(2) by auto
  then have "mget (itemFreq l') x = Some m \<longleftrightarrow> m \<in> set bs \<and> x \<in> set (fitems (nodes l' m))" for x m
    using assms(1) by (cases "x = a") (auto simp: lfu_items_def l'_def mget_mdel)
  moreover have "\<forall>b \<in> set bs. distinct (fitems (nodes l' b))" "fitems (nodes l' (lhead l')) = []"
    using assms(1) n by (simp_all add: lfu_items_def l'_def distinct_removeAll)
  ultimately show "lfu_items l' bs" unfolding lfu_items_def by blast
  show "lfu_freq l' = (lfu_freq l)(a := None)"
    by (auto simp: lfu_freq_def l'_def mget_mdel fun_eq_iff intro!: map_option_cong)
qed

lemma attach:
  assumes "lfu_items l bs" "mget (itemFreq l) a = None" "lfu_struct l bs" "n \<in> set bs"
  defines "l' \<equiv> (setNode n (fitems_update (List.insert a)) l)\<lparr>itemFreq := mput a n (itemFreq l)\<rparr>"
  shows "lfu_items l' bs" "lfu_freq l' = (lfu_freq l)(a \<mapsto> freq (nodes l n))"
proof -
  have n: "n \<noteq> lhead l" using assms(4) lfu_struct_distinct[OF assms(3)] by auto
  have "a \<notin> set (fitems (nodes l b))" if "b \<in> set bs" for b
    using lfu_items_mem[OF assms(1) that] assms(2) by auto
  then have "mget (itemFreq l') x = Some m \<longleftrightarrow> m \<in> set bs \<and> x \<in> set (fitems (nodes l' m))" for x m
    using assms(1,4) by (cases "x = a") (auto simp: lfu_items_def l'_def mget_mput)
  moreover have "\<forall>b \<in> set bs. distinct (fitems (nodes l' b))" "fitems (nodes l' (lhead l')) = []"
    using assms(1) n by (simp_all add: lfu_items_def l'_def)
  ultimately show "lfu_items l' bs" unfolding lfu_items_def by blast
  show "lfu_freq l' = (lfu_freq l)(a \<mapsto> freq (nodes l n))"
    by (auto simp: lfu_freq_def l'_def mget_mput fun_eq_iff intro!: map_option_cong)
qed

lemma drop_if_empty:
  assumes "lfu_struct l bs" "lfu_items l bs" "n \<in> set bs"
    "\<And>b. b \<in> set bs \<Longrightarrow> b \<noteq> n \<Longrightarrow> fitems (nodes l b) \<noteq> []"
  defines "l' \<equiv> (if fitems (nodes l n) = [] then removeFreqNode l n else l)"
  shows "lfu_inv l'" "lfu_freq l' = lfu_freq l"
proof -
  obtain us vs where bs: "bs = us @ n # vs" using assms(3) by (metis split_list)
  note sim = removeFreqNode_simps[OF assms(1) bs]
  show "lfu_freq l' = lfu_freq l" by (simp add: lfu_freq_def l'_def sim fun_eq_iff)
  show "lfu_inv l'"
  proof (cases "fitems (nodes l n) = []")
    case True
    have d: "set (remove1 n bs) = set bs - {n}" using lfu_struct_distinct[OF assms(1)] by simp
    have "lfu_items (removeFreqNode l n) (remove1 n bs)"
      using assms(2) True by (auto simp: lfu_items_def sim d)
    moreover have "fitems (nodes (removeFreqNode l n) b) \<noteq> []" if "b \<in> set (remove1 n bs)" for b
      using that assms(4)[of b] by (simp add: sim d)
    ultimately have "lfu_rep l' (remove1 n bs)"
      using removeFreqNode_struct[OF assms(1,3)] True by (simp add: lfu_rep_def l'_def)
    then show ?thesis by (auto simp: lfu_inv_def)
  next
    case False
    then have "lfu_rep l' bs" using assms by (auto simp: lfu_rep_def l'_def)
    then show ?thesis by (auto simp: lfu_inv_def)
  qed
qed

lemma lfu_rep_new: "lfu_rep newLFUList []"
  by (simp add: lfu_rep_def lfu_struct_def lfu_items_def newLFUList_def newNode_def Let_def chain_def
      setNode_def nodes_def zeroNode_def hget_def)

lemma lfu_new: "lfu_inv newLFUList" "lfu_freq newLFUList = Map.empty"
  using lfu_rep_new by (auto simp: lfu_inv_def lfu_freq_def newLFUList_def newNode_def Let_def)

lemma lfu_remove_correct:
  assumes "lfu_inv l"
  shows "lfu_inv (lfu_remove l a)" "lfu_freq (lfu_remove l a) = (lfu_freq l)(a := None)"
proof -
  obtain bs where r: "lfu_struct l bs" "lfu_items l bs" "\<forall>b \<in> set bs. fitems (nodes l b) \<noteq> []"
    using assms by (auto simp: lfu_inv_def lfu_rep_def)
  have "lfu_inv (lfu_remove l a) \<and> lfu_freq (lfu_remove l a) = (lfu_freq l)(a := None)"
  proof (cases "mget (itemFreq l) a")
    case None
    then show ?thesis using assms by (simp add: lfu_remove_def lfu_freq_def fun_eq_iff)
  next
    case (Some n)
    let ?l = "(setNode n (fitems_update (removeAll a)) l)\<lparr>itemFreq := mdel a (itemFreq l)\<rparr>"
    have n: "n \<in> set bs" using r(2) Some by (auto simp: lfu_items_def)
    then have "freq (nodes l n) \<noteq> 0" using lfu_struct_pos[OF r(1)] by fastforce
    then have "lfu_remove l a = (if fitems (nodes ?l n) = [] then removeFreqNode ?l n else ?l)"
      using Some by (simp add: lfu_remove_def Let_def)
    then show ?thesis
      using drop_if_empty[of ?l bs n] detach[OF r(2) Some r(1)] r(1,3) n by simp
  qed
  then show "lfu_inv (lfu_remove l a)" "lfu_freq (lfu_remove l a) = (lfu_freq l)(a := None)" by auto
qed

text \<open>Buckets below the frequency \<open>f\<close> stay, one for \<open>f\<close> exists afterwards, and no item moves.\<close>

lemma lfu_freq_ensure:
  assumes "lfu_items l bs" "\<forall>b \<in> set (lhead l # bs). freq (nodes l' b) = freq (nodes l b)" "itemFreq l' = itemFreq l"
  shows "lfu_freq l' = lfu_freq l"
  using assms by (auto simp: lfu_freq_def lfu_items_def fun_eq_iff intro!: map_option_cong)

lemma lfu_items_ensure:
  assumes "lfu_items l bs" "lfu_struct l bs" "set bs' = insert n (set bs)"
    "\<forall>b \<in> set (lhead l # bs). fitems (nodes l' b) = fitems (nodes l b)"
    "n \<in> set bs \<or> n \<notin> set (lhead l # bs) \<and> fitems (nodes l' n) = []"
    "lhead l' = lhead l" "itemFreq l' = itemFreq l"
  shows "lfu_items l' bs'"
  using assms by (auto simp: lfu_items_def)

lemma lfu_add_correct:
  assumes "lfu_inv l" "lfu_freq l a = None"
  obtains l' where "lfu_add st l a = (setItem a (frequency_update (\<lambda>_. 1)) st, l')"
    "lfu_inv l'" "lfu_freq l' = (lfu_freq l)(a \<mapsto> 1)"
proof -
  obtain bs where r: "lfu_struct l bs" "lfu_items l bs" "\<forall>b \<in> set bs. fitems (nodes l b) \<noteq> []"
    using assms by (auto simp: lfu_inv_def lfu_rep_def)
  have lo: "freq (nodes l (lhead l)) < 1" "\<forall>b \<in> set bs. 1 \<le> freq (nodes l b)"
    using r(1) lfu_struct_pos[OF r(1)] by (simp_all add: lfu_struct_def int_one_le_iff_zero_less)
  obtain n l1 bs1 where e: "ensureIndex l (lhead l) 1 = (n, l1)" "lfu_struct l1 bs1"
    "set bs1 = insert n (set bs)" "freq (nodes l1 n) = 1"
    "\<forall>b \<in> set (lhead l # bs). freq (nodes l1 b) = freq (nodes l b)"
    "\<forall>b \<in> set (lhead l # bs). fitems (nodes l1 b) = fitems (nodes l b)"
    "n \<in> set bs \<or> n \<notin> set (lhead l # bs) \<and> fitems (nodes l1 n) = []"
    "lhead l1 = lhead l" "itemFreq l1 = itemFreq l"
    using ensureIndex_struct[OF r(1) append_Nil[symmetric] lo] .
  let ?l = "(setNode n (fitems_update (List.insert a)) l1)\<lparr>itemFreq := mput a n (itemFreq l1)\<rparr>"
  have i1: "lfu_items l1 bs1" using lfu_items_ensure[OF r(2,1) e(3,6,7,8,9)] .
  have n: "mget (itemFreq l1) a = None" "n \<in> set bs1" using assms(2) e by (auto simp: lfu_freq_None_iff)
  have f1: "lfu_freq l1 = lfu_freq l" using lfu_freq_ensure[OF r(2) e(5) e(9)] by simp
  have "lfu_rep ?l bs1"
    using attach(1)[OF i1 n(1) e(2) n(2)] e r(3) by (auto simp: lfu_rep_def)
  moreover have "lfu_add st l a = (setItem a (frequency_update (\<lambda>_. 1)) st, ?l)"
    by (simp add: lfu_add_def getOrCreateFreqNode_def e Let_def)
  ultimately show thesis
    using attach(2)[OF i1 n(1) e(2) n(2)] f1 e(4) by (intro that[of ?l]) (auto simp: lfu_inv_def)
qed

lemma lfu_add_spec:
  assumes "lfu_inv l" "lfu_freq l a = None"
  shows "fst (lfu_add st l a) = setItem a (frequency_update (\<lambda>_. 1)) st" "lfu_inv (snd (lfu_add st l a))"
    "lfu_freq (snd (lfu_add st l a)) = (lfu_freq l)(a \<mapsto> 1)"
  by (rule lfu_add_correct[OF assms, of st], simp)+

text \<open>The bucket an increment moves its item to.\<close>

lemma increment_target:
  assumes st: "lfu_struct l bs" and cur: "cur \<in> set bs"
  defines "nxt \<equiv> fnext (nodes l cur)" and "f \<equiv> freq (nodes l cur) + 1"
  obtains n l' bs' where
    "(if nxt \<noteq> lhead l \<and> freq (nodes l nxt) = f then (nxt, l) else ensureIndex l cur f) = (n, l')"
    "lfu_struct l' bs'" "set bs' = insert n (set bs)"
    "freq (nodes l' n) = f" "\<forall>b \<in> set (lhead l # bs). freq (nodes l' b) = freq (nodes l b)"
    "\<forall>b \<in> set (lhead l # bs). fitems (nodes l' b) = fitems (nodes l b)"
    "n \<in> set bs \<or> n \<notin> set (lhead l # bs) \<and> fitems (nodes l' n) = []"
    "lhead l' = lhead l" "itemFreq l' = itemFreq l"
proof -
  obtain us vs where bs: "bs = us @ cur # vs" using cur by (metis split_list)
  then have p: "lhead l # bs = (lhead l # us) @ cur # vs" by simp
  have srt: "\<forall>b \<in> set vs. f \<le> freq (nodes l b)"
    using st by (auto simp: lfu_struct_def bs sorted_wrt_append f_def)
  show thesis
  proof (cases "nxt \<noteq> lhead l \<and> freq (nodes l nxt) = f")
    case True
    then have "nxt \<in> set bs" using lfu_struct_next[OF st p] by (cases vs) (auto simp: nxt_def bs)
    with True that[of nxt l bs] st show thesis by (simp add: insert_absorb)
  next
    case False
    then have e: "(if nxt \<noteq> lhead l \<and> freq (nodes l nxt) = f then (nxt, l) else ensureIndex l cur f) = ensureIndex l cur f"
      by (rule if_not_P)
    have "freq (nodes l cur) < f" by (simp add: f_def)
    then show thesis by (rule ensureIndex_struct[OF st p _ srt]) (rule that[unfolded e])
  qed
qed

lemma lfu_increment_correct:
  assumes "lfu_inv l" "lfu_freq l a = Some f"
  obtains l' where "lfu_increment st l a = (setItem a (frequency_update (\<lambda>_. f + 1)) st, l')"
    "lfu_inv l'" "lfu_freq l' = (lfu_freq l)(a \<mapsto> f + 1)"
proof -
  obtain bs where r: "lfu_struct l bs" "lfu_items l bs" "\<forall>b \<in> set bs. fitems (nodes l b) \<noteq> []"
    using assms by (auto simp: lfu_inv_def lfu_rep_def)
  obtain cur where cur: "mget (itemFreq l) a = Some cur" "freq (nodes l cur) = f"
    using assms(2) by (auto simp: lfu_freq_def)
  let ?l1 = "setNode cur (fitems_update (removeAll a)) l" and ?m = "mdel a (itemFreq l)"
  have c: "cur \<in> set bs" using r(2) cur by (auto simp: lfu_items_def)
  have s1: "lfu_struct ?l1 bs" using r(1) by simp
  obtain n l2 bs2 where e: "(if fnext (nodes ?l1 cur) \<noteq> lhead ?l1 \<and> freq (nodes ?l1 (fnext (nodes ?l1 cur))) =
      freq (nodes ?l1 cur) + 1 then (fnext (nodes ?l1 cur), ?l1) else ensureIndex ?l1 cur (freq (nodes ?l1 cur) + 1)) = (n, l2)"
    "lfu_struct l2 bs2" "set bs2 = insert n (set bs)" "freq (nodes l2 n) = freq (nodes ?l1 cur) + 1"
    "\<forall>b \<in> set (lhead ?l1 # bs). freq (nodes l2 b) = freq (nodes ?l1 b)"
    "\<forall>b \<in> set (lhead ?l1 # bs). fitems (nodes l2 b) = fitems (nodes ?l1 b)"
    "n \<in> set bs \<or> n \<notin> set (lhead ?l1 # bs) \<and> fitems (nodes l2 n) = []"
    "lhead l2 = lhead ?l1" "itemFreq l2 = itemFreq ?l1"
    using increment_target[OF s1 c] .
  have fq: "freq (nodes ?l1 cur) = f" by (simp add: cur(2))
  let ?l3 = "(setNode n (fitems_update (List.insert a)) l2)\<lparr>itemFreq := mput a n (itemFreq l2)\<rparr>"
  have i2: "lfu_items (l2\<lparr>itemFreq := ?m\<rparr>) bs2" "lfu_freq (l2\<lparr>itemFreq := ?m\<rparr>) = (lfu_freq l)(a := None)"
    using lfu_items_ensure[OF detach(1)[OF r(2) cur(1) r(1)], of bs2 n "l2\<lparr>itemFreq := ?m\<rparr>"]
      lfu_freq_ensure[OF detach(1)[OF r(2) cur(1) r(1)], of "l2\<lparr>itemFreq := ?m\<rparr>"]
      detach(2)[OF r(2) cur(1) r(1)] e r(1) by simp_all
  let ?k = "(setNode n (fitems_update (List.insert a)) (l2\<lparr>itemFreq := ?m\<rparr>))\<lparr>itemFreq := mput a n ?m\<rparr>"
  have k: "mget (itemFreq ?l3) = mget (itemFreq ?k)" "nodes ?l3 = nodes ?k" "lhead ?l3 = lhead ?k"
    using e(9) by (simp_all add: setNode_def mget_mput mget_mdel)
  have "lfu_items ?k bs2" "lfu_freq ?k = (lfu_freq l)(a \<mapsto> f + 1)"
    using attach[OF i2(1), of a n] e(2,3,4) cur(2) by (simp_all add: i2(2) mget_mdel)
  then have i3: "lfu_items ?l3 bs2" and f3: "lfu_freq ?l3 = (lfu_freq l)(a \<mapsto> f + 1)"
    using lfu_items_cong[OF _ k(1) _ k(3)] lfu_freq_cong[OF k(1,2)] by (simp_all only: k(2))
  have "freq (nodes ?l3 cur) \<noteq> 0" using lfu_struct_pos[OF r(1) c] e(5) c by (auto split: if_splits)
  then have X: "lfu_increment st l a = (setItem a (frequency_update (\<lambda>_. f + 1)) st,
      if fitems (nodes ?l3 cur) = [] then removeFreqNode ?l3 cur else ?l3)"
    unfolding lfu_increment_def Let_def cur(1)
    by (simp only: option.case cur(2) e(1)[unfolded fq] prod.case simp_thms setNode_simps(4))
  have ne: "fitems (nodes ?l3 b) \<noteq> []" if "b \<in> set bs2" "b \<noteq> cur" for b
    using that e(3,6) r(3) by auto
  have s3: "lfu_struct ?l3 bs2" and c3: "cur \<in> set bs2" using e(2,3) c by simp_all
  note D = drop_if_empty[OF s3 i3 c3 ne]
  show thesis by (rule that[OF X D(1) trans[OF D(2) f3]])
qed

lemma lfu_increment_spec:
  assumes "lfu_inv l" "lfu_freq l a = Some f"
  shows "fst (lfu_increment st l a) = setItem a (frequency_update (\<lambda>_. f + 1)) st"
    "lfu_inv (snd (lfu_increment st l a))" "lfu_freq (snd (lfu_increment st l a)) = (lfu_freq l)(a \<mapsto> f + 1)"
  by (rule lfu_increment_correct[OF assms, of st], simp)+

lemma removeLFU_empty:
  assumes "lfu_inv l" "lfu_freq l = Map.empty"
  shows "removeLFU it l = (nil, l)"
proof -
  obtain bs where r: "lfu_struct l bs" "lfu_items l bs" "\<forall>b \<in> set bs. fitems (nodes l b) \<noteq> []"
    using assms by (auto simp: lfu_inv_def lfu_rep_def)
  have "bs = []"
  proof (rule ccontr)
    assume "bs \<noteq> []"
    then obtain b where b: "b \<in> set bs" by (cases bs) auto
    with r(3) obtain a where "a \<in> set (fitems (nodes l b))" by (metis last_in_set)
    from lfu_items_mem[OF r(2) b this] assms(2) show False by (auto simp: lfu_freq_def fun_eq_iff)
  qed
  then show ?thesis using lfu_struct_next[OF r(1), of "[]" "lhead l" "[]"] by (simp add: removeLFU_def)
qed

lemma removeLFU_correct:
  assumes "lfu_inv l" "lfu_freq l \<noteq> Map.empty" "iter_ok it"
  obtains a f l' where "removeLFU it l = (a, l')" "lfu_freq l a = Some f"
    "\<forall>b g. lfu_freq l b = Some g \<longrightarrow> f \<le> g" "lfu_inv l'" "lfu_freq l' = (lfu_freq l)(a := None)"
proof -
  obtain bs where r: "lfu_struct l bs" "lfu_items l bs" "\<forall>b \<in> set bs. fitems (nodes l b) \<noteq> []"
    using assms by (auto simp: lfu_inv_def lfu_rep_def)
  have "bs \<noteq> []" using assms(2) r(2) by (auto simp: lfu_freq_def lfu_items_def fun_eq_iff)
  then obtain n vs where bs: "bs = n # vs" by (cases bs) auto
  have nx: "fnext (nodes l (lhead l)) = n" "n \<noteq> lhead l"
    using lfu_struct_next[OF r(1), of "[]" "lhead l" bs] lfu_struct_distinct[OF r(1)] bs by auto
  obtain a as where a: "it (fitems (nodes l n)) = a # as"
    using r(3) bs iter_ok_Nil[OF assms(3)] by (cases "it (fitems (nodes l n))") auto
  then have "a \<in> set (fitems (nodes l n))" using iter_ok_set[OF assms(3)] by (metis list.set_intros(1))
  then have m: "mget (itemFreq l) a = Some n" using lfu_items_mem[OF r(2)] bs by simp
  let ?l = "(setNode n (fitems_update (removeAll a)) l)\<lparr>itemFreq := mdel a (itemFreq l)\<rparr>"
  let ?l' = "if fitems (nodes ?l n) = [] then removeFreqNode ?l n else ?l"
  have "removeLFU it l = (a, ?l')" using nx a by (simp add: removeLFU_def Let_def)
  moreover have "freq (nodes l n) \<le> g" if "lfu_freq l b = Some g" for b g
    using that r(1,2) by (auto simp: lfu_freq_def lfu_items_def lfu_struct_def bs)
  moreover have "lfu_inv ?l'" "lfu_freq ?l' = (lfu_freq l)(a := None)"
    using drop_if_empty[of ?l bs n] detach[OF r(2) m r(1)] r(1,3) bs by simp_all
  ultimately show thesis using m by (intro that[of a ?l' "freq (nodes l n)"]) (auto simp: lfu_freq_def)
qed



locale freq_index =
  fixes inv :: "'s \<Rightarrow> bool" and freqs :: "'s \<Rightarrow> addr \<rightharpoonup> int" and pop :: "'s \<Rightarrow> addr \<times> 's"
  assumes finite_freqs: "inv s \<Longrightarrow> finite (dom (freqs s))"
    and pop_empty: "inv s \<Longrightarrow> freqs s = Map.empty \<Longrightarrow> pop s = (nil, s)"
    and pop_min: "inv s \<Longrightarrow> freqs s \<noteq> Map.empty \<Longrightarrow>
      \<exists>f. freqs s (fst (pop s)) = Some f \<and> (\<forall>b g. freqs s b = Some g \<longrightarrow> f \<le> g) \<and>
          inv (snd (pop s)) \<and> freqs (snd (pop s)) = (freqs s)(fst (pop s) := None)"
begin

lemma drain_sorted:
  "inv s \<Longrightarrow> pops pop (card (dom (freqs s))) s = (as, s') \<Longrightarrow>
   inv s' \<and> freqs s' = Map.empty \<and> distinct as \<and> set as = dom (freqs s) \<and> sorted (map (the \<circ> freqs s) as)"
proof (induction "card (dom (freqs s))" arbitrary: s as)
  case 0
  then have "freqs s = Map.empty" using finite_freqs by simp
  with 0 show ?case by simp
next
  case (Suc n)
  then have "freqs s \<noteq> Map.empty" by auto
  from pop_min[OF Suc.prems(1) this] obtain f where
    f: "freqs s (fst (pop s)) = Some f" "\<forall>b g. freqs s b = Some g \<longrightarrow> f \<le> g" "inv (snd (pop s))"
    "freqs (snd (pop s)) = (freqs s)(fst (pop s) := None)" by blast
  let ?a = "fst (pop s)" and ?t = "snd (pop s)"
  have d: "dom (freqs ?t) = dom (freqs s) - {?a}" using f(4) by auto
  then have n: "n = card (dom (freqs ?t))"
    using Suc.hyps(2) f(1) finite_freqs[OF Suc.prems(1)] by (simp add: domI)
  obtain bs where bs: "as = ?a # bs" "pops pop n ?t = (bs, s')"
    using Suc.prems(2) Suc.hyps(2)[symmetric] by (auto split: prod.splits)
  have IH: "inv s' \<and> freqs s' = Map.empty \<and> distinct bs \<and> set bs = dom (freqs ?t) \<and>
      sorted (map (the \<circ> freqs ?t) bs)"
    using Suc.hyps(1)[OF n f(3)] bs(2) n by simp
  have "map (the \<circ> freqs ?t) bs = map (the \<circ> freqs s) bs" using IH d f(4) by auto
  then have "sorted (map (the \<circ> freqs s) bs)" using IH by metis
  moreover have "\<forall>b \<in> set bs. f \<le> the (freqs s b)" using IH f(2) d by auto
  ultimately show ?case using IH d f(1) by (auto simp: bs domI)
qed

end

lemma finite_dom_lfu_freq: "finite (dom (lfu_freq l))"
proof -
  have "dom (lfu_freq l) \<subseteq> dom (mget (itemFreq l))" by (auto simp: lfu_freq_def)
  then show ?thesis using finite_dom_map_of finite_subset by blast
qed

interpretation lfu: freq_index lfu_inv lfu_freq "removeLFU (\<lambda>xs. xs)"
proof
  fix l assume l: "lfu_inv l" "lfu_freq l \<noteq> Map.empty"
  obtain a f l' where "removeLFU (\<lambda>xs. xs) l = (a, l')" "lfu_freq l a = Some f"
    "\<forall>b g. lfu_freq l b = Some g \<longrightarrow> f \<le> g" "lfu_inv l'" "lfu_freq l' = (lfu_freq l)(a := None)"
    using removeLFU_correct[OF l iter_ok_id] .
  then show "\<exists>f. lfu_freq l (fst (removeLFU (\<lambda>xs. xs) l)) = Some f \<and> (\<forall>b g. lfu_freq l b = Some g \<longrightarrow> f \<le> g) \<and>
      lfu_inv (snd (removeLFU (\<lambda>xs. xs) l)) \<and>
      lfu_freq (snd (removeLFU (\<lambda>xs. xs) l)) = (lfu_freq l)(fst (removeLFU (\<lambda>xs. xs) l) := None)"
    by auto
qed (simp_all add: finite_dom_lfu_freq removeLFU_empty)

lemma sampleLfu_inv: "lfu_inv sampleLfu" and sampleLfu_freq: "lfu_freq sampleLfu = [7 \<mapsto> 1, 5 \<mapsto> 2]"
proof -
  let ?st = "emptyStore :: (nat, nat) store"
  note 1 = lfu_add_spec[OF lfu_new(1), of 5 ?st, simplified lfu_new(2), OF refl]
  note 2 = lfu_increment_spec[OF 1(2), of 5 1 ?st, simplified 1(3) fun_upd_same, OF refl]
  have "lfu_freq (snd (lfu_increment ?st (snd (lfu_add ?st newLFUList 5)) 5)) 7 = None" by (simp add: 2(3))
  note 3 = lfu_add_spec[OF 2(2) this, of ?st]
  have s: "sampleLfu = snd (lfu_add ?st (snd (lfu_increment ?st (snd (lfu_add ?st newLFUList 5)) 5)) 7)"
    by (simp add: sampleLfu_def Let_def)
  show "lfu_inv sampleLfu" unfolding s by (rule 3(2))
  show "lfu_freq sampleLfu = [7 \<mapsto> 1, 5 \<mapsto> 2]" unfolding s 3(3) 2(3) by (simp add: fun_eq_iff)
qed

text \<open>C38. The bucket list implements a plain map from items to frequencies: on a well-formed index,
  \<open>add\<close> of an untracked item enters it with frequency 1, \<open>increment\<close> raises a tracked item's
  frequency by one, \<open>remove\<close> forgets an item, and all three keep the index well-formed.\<close>

theorem lfu_updates_refine_map:
  assumes "lfu_inv l"
  shows "(lfu_freq l a = None \<longrightarrow> lfu_inv (snd (lfu_add st l a)) \<and>
            lfu_freq (snd (lfu_add st l a)) = (lfu_freq l)(a \<mapsto> 1)) \<and>
         (lfu_freq l a = Some f \<longrightarrow> lfu_inv (snd (lfu_increment st l a)) \<and>
            lfu_freq (snd (lfu_increment st l a)) = (lfu_freq l)(a \<mapsto> f + 1)) \<and>
         lfu_inv (lfu_remove l a) \<and> lfu_freq (lfu_remove l a) = (lfu_freq l)(a := None)"
  by (intro conjI impI) (simp_all add: assms lfu_add_spec lfu_increment_spec lfu_remove_correct)

theorem lfu_updates_refine_map_witness:
  "let l = snd (lfu_add (emptyStore :: (nat, nat) store) newLFUList 5)
   in lfu_freq l 5 = Some 1 \<and> lfu_freq (snd (lfu_increment (emptyStore :: (nat, nat) store) l 5)) 5 = Some 2 \<and>
      lfu_freq (lfu_remove l 5) 5 = None"
proof -
  let ?st = "emptyStore :: (nat, nat) store"
  let ?l = "snd (lfu_add ?st newLFUList 5)"
  have 1: "lfu_inv ?l" "lfu_freq ?l 5 = Some 1"
    using lfu_updates_refine_map[OF lfu_new(1), of 5 ?st] lfu_new(2) by simp_all
  have "lfu_freq (snd (lfu_increment ?st ?l 5)) 5 = Some 2" "lfu_freq (lfu_remove ?l 5) 5 = None"
    using lfu_updates_refine_map[OF 1(1), of 5 ?st 1] 1(2) by simp_all
  then show ?thesis using 1(2) by (simp add: Let_def)
qed

text \<open>\<open>removeLFU\<close> pops an item of least frequency, whatever order Go iterates the bucket in, forgets
  exactly that item and keeps the index well-formed; on an empty index it returns nil.\<close>

theorem removeLFU_least:
  assumes "lfu_inv l" "iter_ok it"
  shows "if lfu_freq l = Map.empty then removeLFU it l = (nil, l)
         else let (a, l') = removeLFU it l in
           (\<exists>f. lfu_freq l a = Some f \<and> (\<forall>b g. lfu_freq l b = Some g \<longrightarrow> f \<le> g)) \<and>
           lfu_inv l' \<and> lfu_freq l' = (lfu_freq l)(a := None)"
proof (cases "lfu_freq l = Map.empty")
  case True
  then show ?thesis using removeLFU_empty[OF assms(1)] by simp
next
  case False
  obtain a f l' where "removeLFU it l = (a, l')" "lfu_freq l a = Some f"
    "\<forall>b g. lfu_freq l b = Some g \<longrightarrow> f \<le> g" "lfu_inv l'" "lfu_freq l' = (lfu_freq l)(a := None)"
    using removeLFU_correct[OF assms(1) False assms(2)] .
  with False show ?thesis by auto
qed

theorem removeLFU_least_witness:
  "fst (removeLFU rev sampleLfu) = 7 \<and> lfu_freq (snd (removeLFU rev sampleLfu)) = [5 \<mapsto> 2]"
proof -
  have "fst (removeLFU rev sampleLfu) = 7" by code_simp
  then show ?thesis
    using removeLFU_least[OF sampleLfu_inv iter_ok_rev] by (auto simp: sampleLfu_freq split: prod.splits)
qed

text \<open>Popping until the index is empty lists every tracked item exactly once, in order of
  ascending frequency.\<close>

theorem lfu_drain_ascending:
  assumes "lfu_inv l" "pops (removeLFU (\<lambda>xs. xs)) (card (dom (lfu_freq l))) l = (as, l')"
  shows "distinct as \<and> set as = dom (lfu_freq l) \<and> sorted (map (the \<circ> lfu_freq l) as) \<and>
         lfu_inv l' \<and> lfu_freq l' = Map.empty"
  using lfu.drain_sorted[OF assms] by blast

theorem lfu_drain_ascending_witness:
  "fst (pops (removeLFU (\<lambda>xs. xs)) 2 sampleLfu) = [7, 5] \<and>
   sorted (map (the \<circ> lfu_freq sampleLfu) [7, 5]) \<and>
   lfu_freq (snd (pops (removeLFU (\<lambda>xs. xs)) 2 sampleLfu)) = Map.empty"
proof -
  have "card (dom (lfu_freq sampleLfu)) = 2" by (simp add: sampleLfu_freq)
  moreover have "fst (pops (removeLFU (\<lambda>xs. xs)) 2 sampleLfu) = [7, 5]" by code_simp
  ultimately show ?thesis
    using lfu_drain_ascending[OF sampleLfu_inv, of "[7, 5]" "snd (pops (removeLFU (\<lambda>xs. xs)) 2 sampleLfu)"]
    by (metis prod.collapse)
qed

end
