(* ===== verification/Shard.thy ===== *)
theory Shard
  imports Admission Lfu
begin

text \<open>
  \<open>shard.go\<close>: one partition of the cache, with its map, its intrusive LRU list between two
  sentinel items, the optional LFU index and admission filter, and its counters. All operations
  here run under the shard's lock, so each is one atomic function of the item store and the shard.
  The \<open>int64\<close> counters only move by one per call and are kept as unbounded integers.
\<close>

datatype EvictionPolicy = LRU | LFU | FIFO | AdmissionLFU | OtherPolicy int

record 'k shard =
  data :: "('k, addr) gomap"
  head :: addr
  tail :: addr
  lfu :: "lfuList option"
  ssize :: int
  hits :: int
  misses :: int
  evictions :: int
  expirations :: int
  admission :: "adaptiveAdmissionFilter option"
  lastVictimFrequency :: u64

definition newShard :: "'k shard" where
  "newShard = \<lparr>data = [], head = nil, tail = nil, lfu = None, ssize = 0, hits = 0, misses = 0,
               evictions = 0, expirations = 0, admission = None, lastVictimFrequency = 0\<rparr>"

section \<open>The LRU list\<close>

definition initLRU :: "('k, 'v::zero) store \<Rightarrow> 'k shard \<Rightarrow> ('k, 'v) store \<times> 'k shard" where
  "initLRU st s =
     (let (h, st) = newItem st;
          (t, st) = newItem st;
          st = setItem h (next_update (\<lambda>_. t)) st;
          st = setItem t (prev_update (\<lambda>_. h)) st
      in (st, s\<lparr>head := h, tail := t\<rparr>))"

definition addToLRUHead :: "('k, 'v::zero) store \<Rightarrow> 'k shard \<Rightarrow> addr \<Rightarrow> ('k, 'v) store" where
  "addToLRUHead st s item =
     (let oldNext = next (items st (head s));
          st = setItem (head s) (next_update (\<lambda>_. item)) st;
          st = setItem item (next_update (\<lambda>_. oldNext)) st;
          st = setItem item (prev_update (\<lambda>_. head s)) st
      in setItem oldNext (prev_update (\<lambda>_. item)) st)"

text \<open>The two guarded writes that splice an item out of its neighbours.\<close>

definition unlinkItem :: "('k, 'v::zero) store \<Rightarrow> addr \<Rightarrow> ('k, 'v) store" where
  "unlinkItem st item =
     (let st = (if prev (items st item) \<noteq> nil
                then setItem (prev (items st item)) (next_update (\<lambda>_. next (items st item))) st else st)
      in if next (items st item) \<noteq> nil
         then setItem (next (items st item)) (prev_update (\<lambda>_. prev (items st item))) st else st)"

definition removeFromLRU :: "('k, 'v::zero) store \<Rightarrow> addr \<Rightarrow> ('k, 'v) store" where
  "removeFromLRU st item =
     (let st = unlinkItem st item;
          st = setItem item (prev_update (\<lambda>_. nil)) st
      in setItem item (next_update (\<lambda>_. nil)) st)"

definition moveToLRUHead :: "('k, 'v::zero) store \<Rightarrow> 'k shard \<Rightarrow> addr \<Rightarrow> ('k, 'v) store" where
  "moveToLRUHead st s item =
     (if next (items st (head s)) = item then st
      else
        let st = unlinkItem st item;
            oldNext = next (items st (head s));
            st = setItem (head s) (next_update (\<lambda>_. item)) st;
            st = setItem item (prev_update (\<lambda>_. head s)) st;
            st = setItem item (next_update (\<lambda>_. oldNext)) st
        in setItem oldNext (prev_update (\<lambda>_. item)) st)"

section \<open>Removing an item\<close>

text \<open>
  The statements \<open>delete(s.data, key); s.removeFromLRU(item); pool.Put(item); size--\<close>, which every
  path that takes an item out of the shard runs, and the removal from the LFU index that the
  non-evicting paths put between them when the policy is LFU.
\<close>

definition takeOut :: "'k \<Rightarrow> addr \<Rightarrow> ('k, 'v::zero) store \<Rightarrow> 'k shard \<Rightarrow> ('k, 'v) store \<times> 'k shard" where
  "takeOut k item st s =
     (poolPut item (removeFromLRU st item), s\<lparr>data := mdel k (data s), ssize := ssize s - 1\<rparr>)"

definition dropItem ::
  "EvictionPolicy \<Rightarrow> 'k \<Rightarrow> addr \<Rightarrow> ('k, 'v::zero) store \<Rightarrow> 'k shard \<Rightarrow> ('k, 'v) store \<times> 'k shard" where
  "dropItem policy k item st s =
     takeOut k item st
       (if policy = LFU then s\<lparr>lfu := map_option (\<lambda>l. lfu_remove l item) (lfu s)\<rparr> else s)"

section \<open>Cleanup\<close>

definition expired :: "int \<Rightarrow> ('k, 'v) cacheItem \<Rightarrow> bool" where
  "expired now item \<longleftrightarrow> expireTime item > 0 \<and> now > expireTime item"

text \<open>First pass: collect the expired keys; halve the frequency of the others under AdmissionLFU.\<close>

fun cleanupCollect ::
  "int \<Rightarrow> EvictionPolicy \<Rightarrow> ('k \<times> addr) list \<Rightarrow> ('k, 'v::zero) store \<Rightarrow> 'k list \<times> ('k, 'v) store" where
  "cleanupCollect now policy [] st = ([], st)"
| "cleanupCollect now policy ((k, item) # es) st =
     (if expired now (items st item)
      then let (ks, st) = cleanupCollect now policy es st in (k # ks, st)
      else cleanupCollect now policy es
             (if policy = AdmissionLFU \<and> frequency (items st item) > 1
              then setItem item (frequency_update (\<lambda>f. f div 2)) st else st))"

text \<open>Second pass: remove the collected keys that are still present.\<close>

fun cleanupDelete ::
  "EvictionPolicy \<Rightarrow> bool \<Rightarrow> 'k list \<Rightarrow> ('k, 'v::zero) store \<Rightarrow> 'k shard \<Rightarrow> ('k, 'v) store \<times> 'k shard" where
  "cleanupDelete policy statsEnabled [] st s = (st, s)"
| "cleanupDelete policy statsEnabled (k # ks) st s =
     (case mget (data s) k of
        None \<Rightarrow> cleanupDelete policy statsEnabled ks st s
      | Some item \<Rightarrow>
          let (st, s) = dropItem policy k item st s;
              s = (if statsEnabled then s\<lparr>expirations := expirations s + 1\<rparr> else s)
          in cleanupDelete policy statsEnabled ks st s)"

definition shard_cleanup ::
  "('k \<times> addr) iter \<Rightarrow> int \<Rightarrow> EvictionPolicy \<Rightarrow> bool \<Rightarrow> ('k, 'v::zero) store \<Rightarrow> 'k shard \<Rightarrow>
   ('k, 'v) store \<times> 'k shard" where
  "shard_cleanup it now policy statsEnabled st s =
     (let (ks, st) = cleanupCollect now policy (it (data s)) st
      in cleanupDelete policy statsEnabled ks st s)"

section \<open>Representation invariant\<close>

text \<open>The items between the sentinels, from most to least recently used, read off the pointers.\<close>

fun walk :: "('k, 'v::zero) store \<Rightarrow> addr \<Rightarrow> nat \<Rightarrow> addr \<Rightarrow> addr list" where
  "walk st t 0 a = []"
| "walk st t (Suc n) a = (if a = t then [] else a # walk st t n (next (items st a)))"

definition lruOrder :: "('k, 'v::zero) store \<Rightarrow> 'k shard \<Rightarrow> addr list" where
  "lruOrder st s = walk st (tail s) (length (data s)) (next (items st (head s)))"

definition lru_rep :: "('k, 'v::zero) store \<Rightarrow> 'k shard \<Rightarrow> addr list \<Rightarrow> bool" where
  "lru_rep st s xs \<longleftrightarrow>
     chain (next \<circ> items st) (prev \<circ> items st) (head s # xs @ [tail s]) \<and>
     distinct (head s # tail s # xs) \<and> 0 \<notin> set (head s # tail s # xs) \<and>
     prev (items st (head s)) = nil \<and> next (items st (tail s)) = nil"

text \<open>The addresses a shard uses, and all it may write: those, the pooled ones and the unallocated ones.\<close>

definition footprint :: "'k shard \<Rightarrow> addr set" where
  "footprint s = {head s, tail s} \<union> snd ` set (data s)"

definition own :: "('k, 'v) store \<Rightarrow> 'k shard \<Rightarrow> addr set" where
  "own st s = footprint s \<union> set (pool st) \<union> {itemTop st..}"

definition map_ok :: "('k, 'v::zero) store \<Rightarrow> 'k shard \<Rightarrow> addr list \<Rightarrow> bool" where
  "map_ok st s xs \<longleftrightarrow>
     wf_map (data s) \<and> snd ` set (data s) = set xs \<and>
     (\<forall>k a. mget (data s) k = Some a \<longrightarrow> key (items st a) = Some k) \<and>
     ssize s = int (length (data s))"

definition policy_ok :: "EvictionPolicy \<Rightarrow> ('k, 'v::zero) store \<Rightarrow> 'k shard \<Rightarrow> bool" where
  "policy_ok policy st s \<longleftrightarrow>
     (case lfu s of
        None \<Rightarrow> policy \<noteq> LFU
      | Some l \<Rightarrow> policy = LFU \<and> lfu_inv l \<and>
          lfu_freq l = (\<lambda>a. if a \<in> snd ` set (data s) then Some (frequency (items st a)) else None)) \<and>
     (\<forall>f. admission s = Some f \<longrightarrow> aaf_wf f)"

definition shard_inv :: "EvictionPolicy \<Rightarrow> ('k, 'v::zero) store \<Rightarrow> 'k shard \<Rightarrow> bool" where
  "shard_inv policy st s \<longleftrightarrow>
     lru_rep st s (lruOrder st s) \<and> map_ok st s (lruOrder st s) \<and> policy_ok policy st s \<and>
     pool_ok st \<and> (\<forall>a \<in> footprint s. a < itemTop st) \<and> footprint s \<inter> set (pool st) = {}"

text \<open>What a step of one shard may touch of the store the shards share.\<close>

definition frame :: "('k, 'v::zero) store \<Rightarrow> 'k shard \<Rightarrow> ('k, 'v) store \<Rightarrow> 'k shard \<Rightarrow> bool" where
  "frame st s st' s' \<longleftrightarrow> itemTop st \<le> itemTop st' \<and> own st' s' \<subseteq> own st s \<and>
     (\<forall>a. a \<notin> own st s \<longrightarrow> items st' a = items st a)"

text \<open>What a shard holds: value and expiry of each key, and the keys in recency order.\<close>

definition view :: "('k, 'v::zero) store \<Rightarrow> 'k shard \<Rightarrow> 'k \<rightharpoonup> 'v \<times> int" where
  "view st s k = map_option (\<lambda>a. (val (items st a), expireTime (items st a))) (mget (data s) k)"

definition lruKeys :: "('k, 'v::zero) store \<Rightarrow> 'k shard \<Rightarrow> 'k list" where
  "lruKeys st s = map (\<lambda>a. the (key (items st a))) (lruOrder st s)"

section \<open>Lemmas\<close>

lemma addToLRUHead_frame [simp]:
  "val (items (addToLRUHead st s x) u) = val (items st u)"
  "expireTime (items (addToLRUHead st s x) u) = expireTime (items st u)"
  "lastAccess (items (addToLRUHead st s x) u) = lastAccess (items st u)"
  "frequency (items (addToLRUHead st s x) u) = frequency (items st u)"
  "key (items (addToLRUHead st s x) u) = key (items st u)"
  "itemTop (addToLRUHead st s x) = itemTop st" "pool (addToLRUHead st s x) = pool st"
  by (simp_all add: addToLRUHead_def Let_def)

lemma unlinkItem_frame [simp]:
  "val (items (unlinkItem st x) u) = val (items st u)"
  "expireTime (items (unlinkItem st x) u) = expireTime (items st u)"
  "lastAccess (items (unlinkItem st x) u) = lastAccess (items st u)"
  "frequency (items (unlinkItem st x) u) = frequency (items st u)"
  "key (items (unlinkItem st x) u) = key (items st u)"
  "itemTop (unlinkItem st x) = itemTop st" "pool (unlinkItem st x) = pool st"
  by (simp_all add: unlinkItem_def Let_def)

lemma removeFromLRU_frame [simp]:
  "val (items (removeFromLRU st x) u) = val (items st u)"
  "expireTime (items (removeFromLRU st x) u) = expireTime (items st u)"
  "lastAccess (items (removeFromLRU st x) u) = lastAccess (items st u)"
  "frequency (items (removeFromLRU st x) u) = frequency (items st u)"
  "key (items (removeFromLRU st x) u) = key (items st u)"
  "itemTop (removeFromLRU st x) = itemTop st" "pool (removeFromLRU st x) = pool st"
  by (simp_all add: removeFromLRU_def Let_def)

lemma moveToLRUHead_frame [simp]:
  "val (items (moveToLRUHead st s x) u) = val (items st u)"
  "expireTime (items (moveToLRUHead st s x) u) = expireTime (items st u)"
  "lastAccess (items (moveToLRUHead st s x) u) = lastAccess (items st u)"
  "frequency (items (moveToLRUHead st s x) u) = frequency (items st u)"
  "key (items (moveToLRUHead st s x) u) = key (items st u)"
  "itemTop (moveToLRUHead st s x) = itemTop st" "pool (moveToLRUHead st s x) = pool st"
  by (simp_all add: moveToLRUHead_def Let_def)

text \<open>The pointers along the list.\<close>

lemma lru_rep_nz: "lru_rep st s xs \<Longrightarrow> x \<in> set xs \<Longrightarrow> x \<noteq> 0"
  by (rule notI) (simp add: lru_rep_def)

lemma lru_rep_around:
  assumes "lru_rep st s xs" "x \<in> set xs"
  obtains hs a b ts where "head s # xs @ [tail s] = hs @ a # x # b # ts"
    "head s # remove1 x xs @ [tail s] = hs @ a # b # ts" "prev (items st x) = a" "next (items st x) = b"
    "x \<notin> set (hs @ a # b # ts)" "distinct (hs @ a # b # ts)"
proof -
  obtain us vs where xs: "xs = us @ x # vs" using assms(2) by (metis split_list)
  have d: "distinct (head s # tail s # xs)" using assms(1) by (simp add: lru_rep_def)
  then have r: "remove1 x xs = us @ vs" by (simp add: xs remove1_append)
  obtain hs a where a: "head s # us = hs @ [a]" by (metis rev_exhaust list.distinct(1))
  obtain b ts where b: "vs @ [tail s] = b # ts" by (cases vs) auto
  have 1: "head s # xs @ [tail s] = hs @ a # x # b # ts"
    using a b by (metis append.assoc append_Cons append_Nil xs)
  have 2: "head s # remove1 x xs @ [tail s] = hs @ a # b # ts"
    using a b by (metis append.assoc append_Cons append_Nil r)
  have c: "chain (next \<circ> items st) (prev \<circ> items st) (hs @ a # x # b # ts)"
    using assms(1) by (simp add: lru_rep_def flip: 1)
  then have c': "chain (next \<circ> items st) (prev \<circ> items st) ((hs @ [a]) @ x # b # ts)" by simp
  have 3: "x \<notin> set (hs @ a # b # ts)" "distinct (hs @ a # b # ts)"
    using d unfolding 2[symmetric] r by (auto simp: xs)
  show thesis using that[OF 1 2 _ _ 3] chain_pv[OF c] chain_nx[OF c'] by simp
qed

lemma lru_head_next: "lru_rep st s xs \<Longrightarrow> next (items st (head s)) = hd (xs @ [tail s])"
proof -
  assume "lru_rep st s xs"
  moreover have "hd (xs @ [tail s]) # tl (xs @ [tail s]) = xs @ [tail s]" by (rule list.collapse) simp
  ultimately have "chain (next \<circ> items st) (prev \<circ> items st) ([] @ head s # hd (xs @ [tail s]) # tl (xs @ [tail s]))"
    by (simp add: lru_rep_def)
  from chain_nx[OF this] show ?thesis by simp
qed

lemma lru_tail_prev: "lru_rep st s xs \<Longrightarrow> prev (items st (tail s)) = last (head s # xs)"
proof -
  assume "lru_rep st s xs"
  moreover have "butlast (head s # xs) @ [last (head s # xs)] = head s # xs" by (rule append_butlast_last_id) simp
  ultimately have "chain (next \<circ> items st) (prev \<circ> items st) (butlast (head s # xs) @ last (head s # xs) # tail s # [])"
    by (metis append.assoc append_Cons append_Nil lru_rep_def)
  from chain_pv[OF this] show ?thesis by simp
qed

lemma lru_add:
  assumes "lru_rep st s xs" "x \<notin> set (head s # tail s # xs)" "x \<noteq> 0"
  shows "lru_rep (addToLRUHead st s x) s (x # xs)"
proof -
  let ?b = "hd (xs @ [tail s])" and ?ws = "tl (xs @ [tail s])"
  have e: "?b # ?ws = xs @ [tail s]" by (rule list.collapse) simp
  have b: "next (items st (head s)) = ?b" by (rule lru_head_next[OF assms(1)])
  have bin: "?b \<in> set (tail s # xs)" by (cases xs) auto
  then have ne: "?b \<noteq> x" "?b \<noteq> head s" "x \<noteq> head s" "x \<noteq> tail s"
    using assms by (auto simp: lru_rep_def)
  have "chain (next \<circ> items (addToLRUHead st s x)) (prev \<circ> items (addToLRUHead st s x)) ([] @ head s # x # ?b # ?ws)"
  proof (rule chain_insert)
    show "chain (next \<circ> items st) (prev \<circ> items st) ([] @ head s # ?b # ?ws)"
      using assms(1) unfolding e by (simp add: lru_rep_def)
    show "x \<notin> set ([] @ head s # ?b # ?ws)" using assms(2) unfolding e by auto
  qed (use ne in \<open>simp_all add: addToLRUHead_def Let_def b\<close>)
  then have "chain (next \<circ> items (addToLRUHead st s x)) (prev \<circ> items (addToLRUHead st s x)) (head s # (x # xs) @ [tail s])"
    by (simp only: e append_Nil append_Cons)
  moreover have "prev (items (addToLRUHead st s x) (head s)) = nil" "next (items (addToLRUHead st s x) (tail s)) = nil"
    using assms(1) ne by (auto simp: addToLRUHead_def Let_def b lru_rep_def)
  ultimately show ?thesis using assms by (simp add: lru_rep_def)
qed

lemma lru_rep_cong:
  assumes "\<And>u. next (items st' u) = next (items st u)" "\<And>u. prev (items st' u) = prev (items st u)"
  shows "lru_rep st' s xs = lru_rep st s xs"
proof -
  have "next \<circ> items st' = next \<circ> items st" "prev \<circ> items st' = prev \<circ> items st" using assms by auto
  then show ?thesis using assms by (simp add: lru_rep_def)
qed

lemma lru_rep_chainI:
  assumes "lru_rep st s xs" "chain (next \<circ> items st') (prev \<circ> items st') (head s # ys @ [tail s])"
    "set ys \<subseteq> set xs" "distinct ys" "prev (items st' (head s)) = nil" "next (items st' (tail s)) = nil"
  shows "lru_rep st' s ys"
  using assms by (auto simp: lru_rep_def)

lemma unlinkItem_links:
  assumes "lru_rep st s xs" "x \<in> set xs" "prev (items st x) = a" "next (items st x) = b"
  shows "next (items (unlinkItem st x) u) = (if u = a then b else next (items st u))"
    "prev (items (unlinkItem st x) u) = (if u = b then a else prev (items st u))"
proof -
  obtain hs a' b' ts where n: "head s # xs @ [tail s] = hs @ a' # x # b' # ts"
    "prev (items st x) = a'" "next (items st x) = b'" "x \<notin> set (hs @ a' # b' # ts)"
    "distinct (hs @ a' # b' # ts)"
    using lru_rep_around[OF assms(1,2)] by metis
  have "a \<in> set (head s # xs @ [tail s])" "b \<in> set (head s # xs @ [tail s])"
    using n assms(3,4) by auto
  then have "a \<noteq> 0" "b \<noteq> 0" "a \<noteq> x" "b \<noteq> x" "a \<noteq> b"
    using assms(1,3,4) n(2-5) by (auto simp: lru_rep_def)
  then show "next (items (unlinkItem st x) u) = (if u = a then b else next (items st u))"
    "prev (items (unlinkItem st x) u) = (if u = b then a else prev (items st u))"
    using assms(3,4) by (auto simp: unlinkItem_def Let_def)
qed

lemma chain_unlinked:
  assumes r: "lru_rep st s xs" and x: "x \<in> set xs"
    and nx: "\<And>u. u \<noteq> x \<Longrightarrow> next (items st' u) = next (items (unlinkItem st x) u)"
    and pv: "\<And>u. u \<noteq> x \<Longrightarrow> prev (items st' u) = prev (items (unlinkItem st x) u)"
  shows "lru_rep st' s (remove1 x xs)"
proof -
  obtain hs a b ts where n: "head s # xs @ [tail s] = hs @ a # x # b # ts"
    "head s # remove1 x xs @ [tail s] = hs @ a # b # ts" "prev (items st x) = a" "next (items st x) = b"
    "x \<notin> set (hs @ a # b # ts)" "distinct (hs @ a # b # ts)"
    using lru_rep_around[OF r x] .
  have c: "chain (next \<circ> items st) (prev \<circ> items st) (hs @ a # x # b # ts)"
    using r by (simp add: lru_rep_def flip: n(1))
  have "chain (next \<circ> items st') (prev \<circ> items st') (hs @ a # b # ts)"
    by (rule chain_remove[OF c n(5)]) (simp_all add: nx pv unlinkItem_links[OF r x n(3,4)])
  then have ch: "chain (next \<circ> items st') (prev \<circ> items st') (head s # remove1 x xs @ [tail s])"
    by (simp only: n(2))
  have hx: "head s \<noteq> x" "tail s \<noteq> x" using r x by (auto simp: lru_rep_def)
  have "hd (hs @ a # b # ts) = head s" "last (hs @ a # b # ts) = tail s" by (simp_all flip: n(2))
  then have "b \<noteq> head s" "tail s \<in> set (b # ts)"
    using n(6) last_in_set[of "b # ts"] by (cases hs; auto)+
  then have "b \<noteq> head s" "a \<noteq> tail s" using n(6) by auto
  then have "prev (items st' (head s)) = nil" "next (items st' (tail s)) = nil"
    using r hx by (simp_all add: nx pv unlinkItem_links[OF r x n(3,4)] lru_rep_def)
  then show ?thesis using lru_rep_chainI[OF r ch] r by (auto simp: lru_rep_def dest: notin_set_remove1)
qed

lemma lru_remove: "lru_rep st s xs \<Longrightarrow> x \<in> set xs \<Longrightarrow> lru_rep (removeFromLRU st x) s (remove1 x xs)"
  by (rule chain_unlinked) (simp_all add: removeFromLRU_def Let_def)

lemma lru_move:
  assumes r: "lru_rep st s xs" and x: "x \<in> set xs"
  shows "lru_rep (moveToLRUHead st s x) s (x # remove1 x xs)"
proof (cases "next (items st (head s)) = x")
  case True
  then have "hd xs = x" using lru_head_next[OF r] x by (cases xs) auto
  then have "x # remove1 x xs = xs" using x by (cases xs) auto
  then show ?thesis using True r by (simp add: moveToLRUHead_def)
next
  case False
  let ?u = "unlinkItem st x"
  have u: "lru_rep ?u s (remove1 x xs)" by (rule chain_unlinked[OF r x]) (rule refl)+
  have nin: "x \<notin> set (head s # tail s # remove1 x xs)" "x \<noteq> 0"
    using r x lru_rep_nz[OF r x] by (auto simp: lru_rep_def)
  have "lru_rep (addToLRUHead ?u s x) s (x # remove1 x xs)" by (rule lru_add[OF u nin])
  moreover have "next (items (moveToLRUHead st s x) v) = next (items (addToLRUHead ?u s x) v)"
    "prev (items (moveToLRUHead st s x) v) = prev (items (addToLRUHead ?u s x) v)" for v
    using False by (simp_all add: moveToLRUHead_def addToLRUHead_def Let_def)
  ultimately show ?thesis by (subst lru_rep_cong)
qed

lemma walk_links:
  "links (next \<circ> items st) pv (ys @ [t]) \<Longrightarrow> t \<notin> set ys \<Longrightarrow> walk st t (length ys) (hd (ys @ [t])) = ys"
proof (induction ys)
  case (Cons y ys)
  then show ?case by (cases ys) auto
qed simp

lemma map_ok_length:
  assumes "map_ok st s xs" "distinct xs"
  shows "length (data s) = length xs"
proof -
  have "inj_on snd (set (data s))"
  proof (rule inj_onI)
    fix e e' assume e: "e \<in> set (data s)" "e' \<in> set (data s)" "snd e = snd e'"
    then have "key (items st (snd e)) = Some (fst e)" "key (items st (snd e)) = Some (fst e')"
      using assms(1) by (metis map_ok_def map_of_eq_Some_iff prod.collapse)+
    then show "e = e'" using e(3) by (simp add: prod_eq_iff)
  qed
  then have "card (snd ` set (data s)) = card (set (data s))" by (rule card_image)
  moreover have "distinct (data s)" using assms(1) by (simp add: map_ok_def distinct_map)
  ultimately show ?thesis using assms by (simp add: map_ok_def distinct_card)
qed

lemma lruOrder_eq:
  assumes "lru_rep st s xs" "map_ok st s xs"
  shows "lruOrder st s = xs"
proof -
  have l: "length (data s) = length xs" using assms by (intro map_ok_length) (simp_all add: lru_rep_def)
  have "links (next \<circ> items st) (prev \<circ> items st) (xs @ [tail s])" "tail s \<notin> set xs"
    using assms(1) by (cases xs; auto simp: lru_rep_def chain_def)+
  from walk_links[OF this] show ?thesis by (simp add: lruOrder_def l lru_head_next[OF assms(1)])
qed

lemma shard_invI:
  assumes "lru_rep st s xs" "map_ok st s xs" "policy_ok policy st s" "pool_ok st"
    "\<forall>a \<in> footprint s. a < itemTop st" "footprint s \<inter> set (pool st) = {}"
  shows "shard_inv policy st s" "lruOrder st s = xs"
  using assms by (simp_all add: shard_inv_def lruOrder_eq)

lemma shard_invD:
  assumes "shard_inv policy st s"
  shows "lru_rep st s (lruOrder st s)" "map_ok st s (lruOrder st s)" "policy_ok policy st s" "pool_ok st"
    "\<forall>a \<in> footprint s. a < itemTop st" "footprint s \<inter> set (pool st) = {}"
  using assms by (simp_all add: shard_inv_def)

lemma shard_inv_mget:
  assumes "shard_inv policy st s" "mget (data s) k = Some a"
  shows "a \<in> set (lruOrder st s)" "key (items st a) = Some k" "0 < a" "a < itemTop st" "a \<in> footprint s"
    "a \<noteq> head s" "a \<noteq> tail s" "a \<notin> set (pool st)"
proof -
  have a: "a \<in> snd ` set (data s)" using map_of_SomeD[OF assms(2)] by force
  then show 1: "a \<in> set (lruOrder st s)" using shard_invD(2)[OF assms(1)] by (simp add: map_ok_def)
  show "key (items st a) = Some k" using shard_invD(2)[OF assms(1)] assms(2) by (simp add: map_ok_def)
  show "0 < a" using lru_rep_nz[OF shard_invD(1)[OF assms(1)] 1] by simp
  show f: "a \<in> footprint s" using a by (simp add: footprint_def)
  then show "a < itemTop st" "a \<notin> set (pool st)" using shard_invD(5,6)[OF assms(1)] by auto
  show "a \<noteq> head s" "a \<noteq> tail s" using shard_invD(1)[OF assms(1)] 1 by (auto simp: lru_rep_def)
qed

text \<open>Two keys never share an item.\<close>

lemma shard_inv_inj:
  "shard_inv policy st s \<Longrightarrow> mget (data s) k = Some a \<Longrightarrow> mget (data s) k' = Some a \<Longrightarrow> k = k'"
  using shard_inv_mget(2)[of policy st s k a] shard_inv_mget(2)[of policy st s k' a] by simp

text \<open>The statistics counters are no part of the invariant.\<close>

lemma shard_inv_cong:
  "data s' = data s \<Longrightarrow> head s' = head s \<Longrightarrow> tail s' = tail s \<Longrightarrow> lfu s' = lfu s \<Longrightarrow> ssize s' = ssize s \<Longrightarrow>
   admission s' = admission s \<Longrightarrow> shard_inv p st s' = shard_inv p st s"
  by (simp add: shard_inv_def lru_rep_def map_ok_def policy_ok_def lruOrder_def footprint_def cong: option.case_cong)

lemma shard_inv_counters [simp]:
  "shard_inv p st (s\<lparr>hits := n\<rparr>) = shard_inv p st s" "shard_inv p st (s\<lparr>misses := n\<rparr>) = shard_inv p st s"
  "shard_inv p st (s\<lparr>evictions := n\<rparr>) = shard_inv p st s" "shard_inv p st (s\<lparr>expirations := n\<rparr>) = shard_inv p st s"
  "shard_inv p st (s\<lparr>lastVictimFrequency := w\<rparr>) = shard_inv p st s"
  by (rule shard_inv_cong; simp)+

lemma view_counters [simp]:
  "view st (s\<lparr>hits := n\<rparr>) = view st s" "view st (s\<lparr>misses := n\<rparr>) = view st s"
  "view st (s\<lparr>evictions := n\<rparr>) = view st s" "view st (s\<lparr>expirations := n\<rparr>) = view st s"
  "view st (s\<lparr>lastVictimFrequency := w\<rparr>) = view st s" "view st (s\<lparr>lfu := l\<rparr>) = view st s"
  "view st (s\<lparr>admission := f\<rparr>) = view st s" "view st (s\<lparr>ssize := n\<rparr>) = view st s"
  by (simp_all add: view_def fun_eq_iff)

lemma lruOrder_counters [simp]:
  "lruOrder st (s\<lparr>hits := n\<rparr>) = lruOrder st s" "lruOrder st (s\<lparr>misses := n\<rparr>) = lruOrder st s"
  "lruOrder st (s\<lparr>evictions := n\<rparr>) = lruOrder st s" "lruOrder st (s\<lparr>expirations := n\<rparr>) = lruOrder st s"
  "lruOrder st (s\<lparr>lastVictimFrequency := w\<rparr>) = lruOrder st s" "lruOrder st (s\<lparr>lfu := l\<rparr>) = lruOrder st s"
  "lruOrder st (s\<lparr>admission := f\<rparr>) = lruOrder st s" "lruOrder st (s\<lparr>ssize := n\<rparr>) = lruOrder st s"
  by (simp_all add: lruOrder_def)

lemma frame_counters [simp]:
  "frame st s st' (s'\<lparr>hits := n\<rparr>) = frame st s st' s'" "frame st s st' (s'\<lparr>misses := n\<rparr>) = frame st s st' s'"
  "frame st s st' (s'\<lparr>evictions := n\<rparr>) = frame st s st' s'" "frame st s st' (s'\<lparr>expirations := n\<rparr>) = frame st s st' s'"
  "frame st s st' (s'\<lparr>lastVictimFrequency := w\<rparr>) = frame st s st' s'" "frame st s st' (s'\<lparr>admission := f\<rparr>) = frame st s st' s'"
  "frame st s st' (s'\<lparr>lfu := l\<rparr>) = frame st s st' s'"
  by (simp_all add: frame_def own_def footprint_def)

lemma frame_refl [simp]: "frame st s st s"
  by (simp add: frame_def)

lemma frame_trans: "frame st s st1 s1 \<Longrightarrow> frame st1 s1 st2 s2 \<Longrightarrow> frame st s st2 s2"
  by (auto simp: frame_def)

text \<open>Links are written only at the item itself and at its neighbours.\<close>

lemma removeFromLRU_outside:
  assumes "lru_rep st s xs" "x \<in> set xs" "u \<notin> set (head s # tail s # xs)"
  shows "items (removeFromLRU st x) u = items st u"
proof -
  obtain hs a b ts where n: "head s # xs @ [tail s] = hs @ a # x # b # ts"
    "head s # remove1 x xs @ [tail s] = hs @ a # b # ts" "prev (items st x) = a" "next (items st x) = b"
    "x \<notin> set (hs @ a # b # ts)" "distinct (hs @ a # b # ts)"
    using lru_rep_around[OF assms(1,2)] .
  have "u \<notin> set (head s # xs @ [tail s])" using assms(3) by auto
  then have "u \<noteq> a" "u \<noteq> b" "u \<noteq> x" unfolding n(1) by auto
  moreover have "b = next (items (if a \<noteq> nil then setItem a (next_update (\<lambda>_. b)) st else st) x)"
    using n by auto
  ultimately show ?thesis using n(3,4) by (auto simp: removeFromLRU_def unlinkItem_def Let_def)
qed

lemma takeOut_core:
  assumes inv: "shard_inv p st s" and k: "mget (data s) k = Some a"
    and l: "case l' of None \<Rightarrow> p \<noteq> LFU | Some l \<Rightarrow> p = LFU \<and> lfu_inv l \<and>
      lfu_freq l = (\<lambda>x. if x \<in> snd ` set (data s) - {a} then Some (frequency (items st x)) else None)"
    and st: "takeOut k a st (s\<lparr>lfu := l'\<rparr>) = (st', s')"
  shows "shard_inv p st' s'" "lruOrder st' s' = remove1 a (lruOrder st s)" "frame st s st' s'"
    "view st' s' = (view st s)(k := None)"
proof -
  let ?xs = "lruOrder st s"
  have e: "st' = poolPut a (removeFromLRU st a)" "s' = s\<lparr>lfu := l', data := mdel k (data s), ssize := ssize s - 1\<rparr>"
    using st by (simp_all add: takeOut_def)
  note D = shard_invD[OF inv] and G = shard_inv_mget[OF inv k]
  have wf: "wf_map (data s)" using D(2) by (simp add: map_ok_def)
  have img: "snd ` set (mdel k (data s)) = snd ` set (data s) - {a}"
  proof -
    have "snd x = a \<longleftrightarrow> fst x = k" if "x \<in> set (data s)" for x
      using that wf k shard_inv_inj[OF inv k, of "fst x"] by (metis map_of_eq_Some_iff option.inject prod.collapse)
    then have "{e \<in> set (data s). fst e \<noteq> k} = {e \<in> set (data s). snd e \<noteq> a}" by blast
    then show ?thesis by (auto simp: set_mdel)
  qed
  have d: "distinct ?xs" using D(1) by (simp add: lru_rep_def)
  have "lru_rep st' s' (remove1 a ?xs)"
    using lru_remove[OF D(1) G(1)] by (simp add: e lru_rep_def)
  moreover have "map_ok st' s' (remove1 a ?xs)"
    using D(2) d img length_mdel[OF wf k] by (auto simp: e map_ok_def mget_mdel wf_mdel)
  moreover have "policy_ok p st' s'"
    using l D(3) img by (auto simp: e policy_ok_def split: option.splits)
  moreover have "pool_ok st'" using D(4) G by (auto simp: e pool_ok_def)
  moreover have "\<forall>x \<in> footprint s'. x < itemTop st'" "footprint s' \<inter> set (pool st') = {}"
    using D(5,6) img G by (auto simp: e footprint_def)
  ultimately show "shard_inv p st' s'" "lruOrder st' s' = remove1 a ?xs" by (auto intro: shard_invI)
  have fp: "set (head s # tail s # ?xs) = footprint s" using D(2) by (simp add: footprint_def map_ok_def)
  have "items st' u = items st u" if "u \<notin> own st s" for u
    using that removeFromLRU_outside[OF D(1) G(1), of u] unfolding fp by (simp add: e own_def)
  moreover have "own st' s' \<subseteq> own st s"
    using G(5) img by (auto simp: e own_def footprint_def)
  ultimately show "frame st s st' s'" by (simp add: frame_def e)
  show "view st' s' = (view st s)(k := None)" by (simp add: view_def e mget_mdel fun_eq_iff)
qed

lemma dropItem_spec:
  assumes inv: "shard_inv p st s" and k: "mget (data s) k = Some a"
    and st: "dropItem p k a st s = (st', s')"
  shows "shard_inv p st' s'" "lruOrder st' s' = remove1 a (lruOrder st s)" "frame st s st' s'"
    "view st' s' = (view st s)(k := None)" "data s' = mdel k (data s)" "ssize s' = ssize s - 1"
    "items st' = items (removeFromLRU st a)" "itemTop st' = itemTop st" "pool st' = a # pool st"
proof -
  define l' where "l' = (if p = LFU then map_option (\<lambda>l. lfu_remove l a) (lfu s) else lfu s)"
  have e: "takeOut k a st (s\<lparr>lfu := l'\<rparr>) = (st', s')"
    using st by (simp add: dropItem_def l'_def split: if_splits)
  have "case l' of None \<Rightarrow> p \<noteq> LFU | Some l \<Rightarrow> p = LFU \<and> lfu_inv l \<and>
      lfu_freq l = (\<lambda>x. if x \<in> snd ` set (data s) - {a} then Some (frequency (items st x)) else None)"
    using shard_invD(3)[OF inv]
    by (auto simp: policy_ok_def l'_def lfu_remove_correct split: option.splits)
  note T = takeOut_core[OF inv k this e]
  show "shard_inv p st' s'" "lruOrder st' s' = remove1 a (lruOrder st s)" "frame st s st' s'"
    "view st' s' = (view st s)(k := None)" by (rule T)+
  show "data s' = mdel k (data s)" "ssize s' = ssize s - 1" "items st' = items (removeFromLRU st a)"
    "itemTop st' = itemTop st" "pool st' = a # pool st"
    using e by (auto simp: takeOut_def)
qed

text \<open>Payload writes at an address leave the links and the key alone.\<close>

lemma shard_inv_payload:
  assumes inv: "shard_inv p st s"
    and f: "\<And>x. next (f x) = next x" "\<And>x. prev (f x) = prev x" "\<And>x. key (f x) = key x"
    and fr: "\<And>x. p = LFU \<Longrightarrow> frequency (f x) = frequency x"
    and a: "a \<in> own st s"
  shows "shard_inv p (setItem a f st) s" "lruOrder (setItem a f st) s = lruOrder st s"
    "frame st s (setItem a f st) s"
proof -
  let ?st = "setItem a f st"
  have "lru_rep ?st s (lruOrder st s)"
    using shard_invD(1)[OF inv] by (subst lru_rep_cong) (simp_all add: f)
  moreover have "map_ok ?st s (lruOrder st s)" using shard_invD(2)[OF inv] by (auto simp: map_ok_def f)
  moreover have "policy_ok p ?st s"
  proof (cases "p = LFU")
    case True
    then show ?thesis
      using shard_invD(3)[OF inv] fr[OF True] by (auto simp: policy_ok_def fun_eq_iff split: option.splits)
  next
    case False
    then show ?thesis using shard_invD(3)[OF inv] by (auto simp: policy_ok_def split: option.splits)
  qed
  moreover have "pool_ok ?st" using shard_invD(4)[OF inv] by (simp add: pool_ok_def)
  moreover have "\<forall>a \<in> footprint s. a < itemTop ?st" "footprint s \<inter> set (pool ?st) = {}"
    using shard_invD(5,6)[OF inv] by simp_all
  ultimately show "shard_inv p ?st s" "lruOrder ?st s = lruOrder st s" by (rule shard_invI)+
  show "frame st s ?st s" using a by (auto simp: frame_def own_def)
qed

lemma cleanupCollect_spec:
  assumes "shard_inv p st s" "set es \<subseteq> set (data s)" "cleanupCollect now p es st = (ks, st')"
  shows "shard_inv p st' s \<and> lruOrder st' s = lruOrder st s \<and> frame st s st' s \<and>
    (\<forall>u. val (items st' u) = val (items st u) \<and> expireTime (items st' u) = expireTime (items st u)) \<and>
    itemTop st' = itemTop st \<and> pool st' = pool st \<and>
    ks = map fst (filter (\<lambda>e. expired now (items st (snd e))) es)"
  using assms
proof (induction now p es st arbitrary: ks rule: cleanupCollect.induct)
  case (2 now p k a es st)
  have a: "a \<in> own st s" using "2.prems"(2) by (force simp: own_def footprint_def)
  show ?case
  proof (cases "expired now (items st a)")
    case True
    then show ?thesis using "2.prems" "2.IH"(1)[OF True] by (auto split: prod.splits)
  next
    case False
    let ?st = "if p = AdmissionLFU \<and> frequency (items st a) > 1 then setItem a (frequency_update (\<lambda>f. f div 2)) st else st"
    have 1: "shard_inv p ?st s" "lruOrder ?st s = lruOrder st s" "frame st s ?st s"
      using shard_inv_payload[OF "2.prems"(1) _ _ _ _ a, of "frequency_update (\<lambda>f. f div 2)"] "2.prems"(1) by auto
    have 2: "val (items ?st u) = val (items st u)" "expireTime (items ?st u) = expireTime (items st u)" for u by auto
    then have x: "expired now (items ?st u) = expired now (items st u)" for u by (simp add: expired_def)
    have c: "cleanupCollect now p es ?st = (ks, st')" using "2.prems"(3) False by simp
    have "set es \<subseteq> set (data s)" using "2.prems"(2) by simp
    from "2.IH"(2)[OF False 1(1) this c] show ?thesis
      using 1 2 x False frame_trans[OF 1(3)] by (auto split: if_splits)
  qed
qed simp

lemma cleanupDelete_spec:
  assumes "shard_inv p st s" "cleanupDelete p stats ks st s = (st', s')"
  shows "shard_inv p st' s' \<and> frame st s st' s' \<and>
    view st' s' = (\<lambda>k. if k \<in> set ks then None else view st s k) \<and>
    data s' = filter (\<lambda>e. fst e \<notin> set ks) (data s) \<and> ssize s' \<le> ssize s"
  using assms
proof (induction p stats ks st s arbitrary: st' s' rule: cleanupDelete.induct)
  case (2 p stats k ks st s)
  show ?case
  proof (cases "mget (data s) k")
    case None
    then have f: "filter (\<lambda>e. fst e \<notin> set ks) (data s) = filter (\<lambda>e. fst e \<notin> set (k # ks)) (data s)"
      by (intro filter_cong) (auto simp: map_of_eq_None_iff)
    have "view st s k = None" using None by (simp add: view_def)
    then have v: "(\<lambda>j. if j \<in> set ks then None else view st s j) = (\<lambda>j. if j \<in> set (k # ks) then None else view st s j)"
      by auto
    have "cleanupDelete p stats ks st s = (st', s')" using "2.prems"(2) None by simp
    from "2.IH"(1)[OF None "2.prems"(1) this] show ?thesis unfolding f v .
  next
    case (Some a)
    obtain st1 s1 where d: "dropItem p k a st s = (st1, s1)" by fastforce
    note D = dropItem_spec[OF "2.prems"(1) Some d]
    let ?s = "if stats then s1\<lparr>expirations := expirations s1 + 1\<rparr> else s1"
    have i: "shard_inv p st1 ?s" "data ?s = mdel k (data s)" "view st1 ?s = (view st s)(k := None)"
      "frame st s st1 ?s" "ssize ?s = ssize s - 1" using D(1,3-6) by simp_all
    have c: "cleanupDelete p stats ks st1 ?s = (st', s')" using "2.prems"(2) Some d by simp
    note I = "2.IH"(2)[OF Some d[symmetric] refl refl i(1) c]
    have f: "filter (\<lambda>e. fst e \<notin> set ks) (mdel k (data s)) = filter (\<lambda>e. fst e \<notin> set (k # ks)) (data s)"
      unfolding AList.delete_eq filter_filter by (rule filter_cong) auto
    have v: "(\<lambda>j. if j \<in> set ks then None else ((view st s)(k := None)) j) =
        (\<lambda>j. if j \<in> set (k # ks) then None else view st s j)" by auto
    have "frame st s st' s'" using frame_trans[OF i(4)] I by blast
    then show ?thesis using I i(5) unfolding i(2,3) f v by simp
  qed
qed simp

lemma shard_cleanup_spec:
  assumes "shard_inv p st s" "iter_ok it" "shard_cleanup it now p stats st s = (st', s')"
  shows "shard_inv p st' s'" "frame st s st' s'" "ssize s' \<le> ssize s"
    "view st' s' = (\<lambda>k. case view st s k of Some (v, e) \<Rightarrow> if e > 0 \<and> now > e then None else Some (v, e) | None \<Rightarrow> None)"
    "data s' = filter (\<lambda>e. \<not> expired now (items st (snd e))) (data s)"
proof -
  obtain ks st1 where c: "cleanupCollect now p (it (data s)) st = (ks, st1)" by fastforce
  have d: "cleanupDelete p stats ks st1 s = (st', s')" using assms(3) c by (simp add: shard_cleanup_def)
  have sub: "set (it (data s)) \<subseteq> set (data s)" using assms(2) by simp
  note C = cleanupCollect_spec[OF assms(1) sub c]
  have s1: "shard_inv p st1 s" using C by simp
  note D = cleanupDelete_spec[OF s1 d]
  show "shard_inv p st' s'" "ssize s' \<le> ssize s" using D by auto
  show "frame st s st' s'" using frame_trans C D by blast
  have wf: "wf_map (data s)" using shard_invD(2)[OF assms(1)] by (simp add: map_ok_def)
  have Dv: "view st' s' = (\<lambda>k. if k \<in> set ks then None else view st1 s k)"
    and Dd: "data s' = filter (\<lambda>e. fst e \<notin> set ks) (data s)" using D by blast+
  have Cv: "view st1 s = view st s" using C by (simp add: view_def fun_eq_iff)
  have "ks = map fst (filter (\<lambda>e. expired now (items st (snd e))) (it (data s)))" using C by blast
  then have ks: "set ks = fst ` {e \<in> set (data s). expired now (items st (snd e))}" using assms(2) by simp
  have mem: "k \<in> set ks \<longleftrightarrow> expired now (items st a)" if "(k, a) \<in> set (data s)" for k a
  proof
    assume "k \<in> set ks"
    then obtain a' where "(k, a') \<in> set (data s)" "expired now (items st a')" by (auto simp: ks)
    then show "expired now (items st a)" using eq_key_imp_eq_value[OF wf that] by blast
  qed (use that in \<open>force simp: ks\<close>)
  then show "data s' = filter (\<lambda>e. \<not> expired now (items st (snd e))) (data s)"
    unfolding Dd by (intro filter_cong) auto
  show "view st' s' = (\<lambda>k. case view st s k of Some (v, e) \<Rightarrow> if e > 0 \<and> now > e then None else Some (v, e) | None \<Rightarrow> None)"
  proof
    fix k
    show "view st' s' k = (case view st s k of Some (v, e) \<Rightarrow> if e > 0 \<and> now > e then None else Some (v, e) | None \<Rightarrow> None)"
    proof (cases "mget (data s) k")
      case None
      then show ?thesis unfolding Dv Cv by (simp add: view_def)
    next
      case (Some a)
      then have "(k, a) \<in> set (data s)" by (rule map_of_SomeD)
      then show ?thesis unfolding Dv Cv using Some mem by (simp add: view_def expired_def)
    qed
  qed
qed

end
