(* ===== verification/Eviction.thy ===== *)
theory Eviction
  imports Shard
begin

text \<open>
  \<open>eviction.go\<close>: the four eviction policies behind the interface \<open>evictor\<close>. The interface is a
  locale whose laws say what one call of \<open>evict\<close> does to a shard; it is interpreted for the LRU,
  LFU, FIFO and AdmissionLFU evictors and for the one that \<open>createEvictor\<close> selects.

  What Go leaves open (the order of a \<open>range\<close> over a map or a set, and what \<open>sync.Pool\<close> hands out)
  is collected in a record of choices that every operation takes; the results hold for all of them.
\<close>

record 'k choices =
  mapOrder :: "('k \<times> addr) iter"
  setOrder :: "addr iter"
  poolPick :: "addr list \<Rightarrow> addr option"

definition choices_ok :: "'k choices \<Rightarrow> bool" where
  "choices_ok ch \<longleftrightarrow> iter_ok (mapOrder ch) \<and> iter_ok (setOrder ch)"

definition someChoices :: "'k choices" where
  "someChoices = \<lparr>mapOrder = (\<lambda>xs. xs), setOrder = (\<lambda>xs. xs),
     poolPick = (\<lambda>ps. case ps of [] \<Rightarrow> None | a # _ \<Rightarrow> Some a)\<rparr>"

section \<open>The evictors\<close>

definition countEviction :: "bool \<Rightarrow> 'k shard \<Rightarrow> 'k shard" where
  "countEviction statsEnabled s = (if statsEnabled then s\<lparr>evictions := evictions s + 1\<rparr> else s)"

definition lru_evict ::
  "bool \<Rightarrow> ('k, 'v::zero) store \<Rightarrow> 'k shard \<Rightarrow> bool \<times> ('k, 'v) store \<times> 'k shard" where
  "lru_evict statsEnabled st s =
     (if prev (items st (tail s)) = head s then (False, st, s)
      else
        let victim = prev (items st (tail s)) in
        if victim \<noteq> nil then
          (case key (items st victim) of
             None \<Rightarrow> (False, st, s)
           | Some k \<Rightarrow>
               let (st, s) = takeOut k victim st s in (True, st, countEviction statsEnabled s))
        else (False, st, s))"

text \<open>
  Pure LFU. The index is always allocated under this policy; without it the source would
  dereference nil, a case the invariant excludes and that returns False here.
\<close>

definition lfu_evict ::
  "'k choices \<Rightarrow> bool \<Rightarrow> ('k, 'v::zero) store \<Rightarrow> 'k shard \<Rightarrow> bool \<times> ('k, 'v) store \<times> 'k shard" where
  "lfu_evict ch statsEnabled st s =
     (case lfu s of
        None \<Rightarrow> (False, st, s)
      | Some l \<Rightarrow>
          let (victim, l) = removeLFU (setOrder ch) l;
              s = s\<lparr>lfu := Some l\<rparr>
          in if victim = nil then (False, st, s)
             else (case key (items st victim) of
                     None \<Rightarrow> (False, st, s)
                   | Some k \<Rightarrow>
                       let (st, s) = takeOut k victim st s in (True, st, countEviction statsEnabled s)))"

definition fifo_evict ::
  "bool \<Rightarrow> ('k, 'v::zero) store \<Rightarrow> 'k shard \<Rightarrow> bool \<times> ('k, 'v) store \<times> 'k shard" where
  "fifo_evict statsEnabled st s =
     (if prev (items st (tail s)) = head s then (False, st, s)
      else
        let oldest = prev (items st (tail s)) in
        if oldest \<noteq> nil then
          (case key (items st oldest) of
             None \<Rightarrow> (False, st, s)
           | Some k \<Rightarrow>
               let s = s\<lparr>lfu := map_option (\<lambda>l. lfu_remove l oldest) (lfu s)\<rparr>;
                   (st, s) = takeOut k oldest st s
               in (True, st, countEviction statsEnabled s))
        else (False, st, s))"

definition defaultAdmissionLFUSampleSize :: int where "defaultAdmissionLFUSampleSize = 5"
definition maxAdmissionLFUSampleSize :: int where "maxAdmissionLFUSampleSize = 20"

text \<open>Whether \<open>b\<close> replaces the victim \<open>a\<close> found so far (nil when there is none).\<close>

definition worse :: "('k, 'v::zero) store \<Rightarrow> addr \<Rightarrow> addr \<Rightarrow> bool" where
  "worse st b a \<longleftrightarrow> a = nil \<or> frequency (items st b) < frequency (items st a) \<or>
     frequency (items st b) = frequency (items st a) \<and> lastAccess (items st b) < lastAccess (items st a)"

fun pickLoop :: "('k, 'v::zero) store \<Rightarrow> int \<Rightarrow> int \<Rightarrow> addr \<Rightarrow> ('k \<times> addr) list \<Rightarrow> addr" where
  "pickLoop st n cnt victim [] = victim"
| "pickLoop st n cnt victim ((_, b) # es) =
     (let victim = (if worse st b victim then b else victim);
          cnt = cnt + 1
      in if cnt \<ge> n then victim else pickLoop st n cnt victim es)"

definition pickVictim :: "'k choices \<Rightarrow> int \<Rightarrow> ('k, 'v::zero) store \<Rightarrow> 'k shard \<Rightarrow> addr" where
  "pickVictim ch sampleSize st s =
     (if data s = [] then nil
      else
        let n = (if sampleSize \<le> 0 then defaultAdmissionLFUSampleSize
                 else if sampleSize > maxAdmissionLFUSampleSize then maxAdmissionLFUSampleSize
                 else sampleSize);
            n = (if n > int (length (data s)) then int (length (data s)) else n)
        in pickLoop st n 0 nil (mapOrder ch (data s)))"

definition removeVictim ::
  "bool \<Rightarrow> addr \<Rightarrow> ('k, 'v::zero) store \<Rightarrow> 'k shard \<Rightarrow> ('k, 'v) store \<times> 'k shard" where
  "removeVictim statsEnabled victim st s =
     (let (st, s) =
        (case key (items st victim) of
           Some k \<Rightarrow> takeOut k victim st s
         | None \<Rightarrow> (poolPut victim (removeFromLRU st victim), s\<lparr>ssize := ssize s - 1\<rparr>))
      in (st, countEviction statsEnabled s))"

definition admission_evict ::
  "int \<Rightarrow> 'k choices \<Rightarrow> bool \<Rightarrow> ('k, 'v::zero) store \<Rightarrow> 'k shard \<Rightarrow> bool \<times> ('k, 'v) store \<times> 'k shard" where
  "admission_evict sampleSize ch statsEnabled st s =
     (let victim = pickVictim ch sampleSize st s in
      if victim = nil then (False, st, s)
      else
        let s = (if admission s \<noteq> None
                 then s\<lparr>lastVictimFrequency := word_of_int (frequency (items st victim))\<rparr> else s);
            (st, s) = removeVictim statsEnabled victim st s
        in (True, st, s))"

text \<open>
  \<open>aaf\<close> is the shard's own filter, which the caller passes; the filter the calls leave behind is
  stored back. The clock readings of \<open>shouldAdmit\<close> are \<open>t\<close>.
\<close>

definition evictWithAdmission ::
  "(nat \<Rightarrow> int) \<Rightarrow> int \<Rightarrow> 'k choices \<Rightarrow> bool \<Rightarrow> adaptiveAdmissionFilter \<Rightarrow> u64 \<Rightarrow>
   ('k, 'v::zero) store \<Rightarrow> 'k shard \<Rightarrow> bool \<times> ('k, 'v) store \<times> 'k shard" where
  "evictWithAdmission t sampleSize ch statsEnabled aaf keyHash st s =
     (let victim = pickVictim ch sampleSize st s in
      if victim = nil then (False, st, s)
      else
        let f = word_of_int (frequency (items st victim));
            victimAge = lastAccess (items st victim);
            s = s\<lparr>lastVictimFrequency := f\<rparr>;
            (admit, aaf) = shouldAdmit t aaf keyHash f victimAge
        in if \<not> admit then (False, st, s\<lparr>admission := Some aaf\<rparr>)
           else
             let (st, s) = removeVictim statsEnabled victim st s
             in (True, st, s\<lparr>admission := Some (RecordEviction aaf)\<rparr>))"

datatype evictorKind = lruEvictor | lfuEvictor | fifoEvictor | admissionLFUEvictor int

definition createEvictor :: "EvictionPolicy \<Rightarrow> evictorKind" where
  "createEvictor policy =
     (case policy of
        LRU \<Rightarrow> lruEvictor
      | LFU \<Rightarrow> lfuEvictor
      | FIFO \<Rightarrow> fifoEvictor
      | AdmissionLFU \<Rightarrow> admissionLFUEvictor defaultAdmissionLFUSampleSize
      | OtherPolicy _ \<Rightarrow> admissionLFUEvictor defaultAdmissionLFUSampleSize)"

text \<open>The dynamic dispatch of a call through the interface.\<close>

fun evict ::
  "evictorKind \<Rightarrow> 'k choices \<Rightarrow> bool \<Rightarrow> ('k, 'v::zero) store \<Rightarrow> 'k shard \<Rightarrow> bool \<times> ('k, 'v) store \<times> 'k shard" where
  "evict lruEvictor ch = lru_evict"
| "evict lfuEvictor ch = lfu_evict ch"
| "evict fifoEvictor ch = fifo_evict"
| "evict (admissionLFUEvictor n) ch = admission_evict n ch"

text \<open>The eviction order of AdmissionLFU: fewer uses first, then the older access.\<close>

definition rank_le :: "('k, 'v::zero) store \<Rightarrow> addr \<Rightarrow> addr \<Rightarrow> bool" where
  "rank_le st a b \<longleftrightarrow> frequency (items st a) < frequency (items st b) \<or>
     frequency (items st a) = frequency (items st b) \<and> lastAccess (items st a) \<le> lastAccess (items st b)"

text \<open>How many entries of the map the sampling loop looks at.\<close>

definition sampleCount :: "int \<Rightarrow> nat \<Rightarrow> nat" where
  "sampleCount sampleSize len = min (nat (if sampleSize \<le> 0 then 5 else min sampleSize 20)) len"

section \<open>The interface\<close>

locale evictor =
  fixes policy :: EvictionPolicy
    and ev :: "'k choices \<Rightarrow> bool \<Rightarrow> ('k, 'v::zero) store \<Rightarrow> 'k shard \<Rightarrow> bool \<times> ('k, 'v) store \<times> 'k shard"
  assumes ev_empty: "shard_inv policy st s \<Longrightarrow> data s = [] \<Longrightarrow> ev ch b st s = (False, st, s)"
    and ev_one: "shard_inv policy st s \<Longrightarrow> choices_ok ch \<Longrightarrow> data s \<noteq> [] \<Longrightarrow>
      \<exists>k a st' s'. ev ch b st s = (True, st', s') \<and> mget (data s) k = Some a \<and> shard_inv policy st' s' \<and>
        frame st s st' s' \<and> data s' = mdel k (data s) \<and> view st' s' = (view st s)(k := None) \<and>
        lruOrder st' s' = remove1 a (lruOrder st s)"
begin

lemma ev_size:
  assumes "shard_inv policy st s" "choices_ok ch" "ev ch b st s = (r, st', s')"
  shows "shard_inv policy st' s'" "frame st s st' s'" "r = (ssize s > 0)" "ssize s' = (if r then ssize s - 1 else ssize s)"
    "view st' s' \<subseteq>\<^sub>m view st s" "set (data s') \<subseteq> set (data s)"
proof -
  have sz: "shard_inv policy st s \<Longrightarrow> ssize s = int (length (data s))" for st s by (simp add: shard_inv_def map_ok_def)
  have "shard_inv policy st' s' \<and> frame st s st' s' \<and> r = (ssize s > 0) \<and>
    ssize s' = (if r then ssize s - 1 else ssize s) \<and> view st' s' \<subseteq>\<^sub>m view st s \<and> set (data s') \<subseteq> set (data s)"
  proof (cases "data s = []")
    case True
    then show ?thesis using ev_empty[OF assms(1)] assms sz[OF assms(1)] by simp
  next
    case False
    then obtain k a st1 s1 where e: "ev ch b st s = (True, st1, s1)" "mget (data s) k = Some a"
      "shard_inv policy st1 s1" "frame st s st1 s1" "data s1 = mdel k (data s)" "view st1 s1 = (view st s)(k := None)"
      using ev_one[OF assms(1,2)] by blast
    have eq: "r = True" "st' = st1" "s' = s1" using e(1) assms(3) by auto
    have "wf_map (data s)" using assms(1) by (simp add: shard_inv_def map_ok_def)
    from length_mdel[OF this e(2)] have "ssize s1 = ssize s - 1" "ssize s > 0"
      using sz[OF e(3)] sz[OF assms(1)] e(5) by auto
    then show ?thesis using e(3-6) unfolding eq by (auto simp: map_le_def set_mdel)
  qed
  then show "shard_inv policy st' s'" "frame st s st' s'" "r = (ssize s > 0)"
    "ssize s' = (if r then ssize s - 1 else ssize s)" "view st' s' \<subseteq>\<^sub>m view st s" "set (data s') \<subseteq> set (data s)" by auto
qed

end

section \<open>Lemmas\<close>

lemma countEviction_simps [simp]:
  "shard_inv p st (countEviction b s) = shard_inv p st s" "view st (countEviction b s) = view st s"
  "lruOrder st (countEviction b s) = lruOrder st s" "frame st0 s0 st (countEviction b s) = frame st0 s0 st s"
  "data (countEviction b s) = data s" "ssize (countEviction b s) = ssize s" "admission (countEviction b s) = admission s"
  "head (countEviction b s) = head s" "tail (countEviction b s) = tail s" "lfu (countEviction b s) = lfu s"
  by (simp_all add: countEviction_def)

lemma shard_inv_key:
  assumes "shard_inv p st s" "a \<in> set (lruOrder st s)"
  obtains k where "mget (data s) k = Some a" "key (items st a) = Some k"
proof -
  have m: "map_ok st s (lruOrder st s)" using shard_invD(2)[OF assms(1)] .
  then have "a \<in> snd ` set (data s)" "wf_map (data s)" using assms(2) by (simp_all add: map_ok_def)
  then obtain k where "mget (data s) k = Some a" by auto
  then show thesis using that m by (simp add: map_ok_def)
qed

lemma lruOrder_empty_iff: "shard_inv p st s \<Longrightarrow> lruOrder st s = [] \<longleftrightarrow> data s = []"
  using shard_invD(2)[of p st s] by (auto simp: map_ok_def)

lemma takeOut_nonlfu:
  assumes "shard_inv p st s" "mget (data s) k = Some a" "lfu s = None" "takeOut k a st s = (st', s')"
  shows "shard_inv p st' s'" "lruOrder st' s' = remove1 a (lruOrder st s)" "frame st s st' s'"
    "view st' s' = (view st s)(k := None)" "data s' = mdel k (data s)" "admission s' = admission s"
    "lfu s' = None"
proof -
  have "p \<noteq> LFU" using shard_invD(3)[OF assms(1)] assms(3) by (simp add: policy_ok_def)
  then have l: "case lfu s of None \<Rightarrow> p \<noteq> LFU | Some l \<Rightarrow> p = LFU \<and> lfu_inv l \<and>
      lfu_freq l = (\<lambda>x. if x \<in> snd ` set (data s) - {a} then Some (frequency (items st x)) else None)"
    using assms(3) by simp
  have e: "takeOut k a st (s\<lparr>lfu := lfu s\<rparr>) = (st', s')" using assms(4) by simp
  show "shard_inv p st' s'" "lruOrder st' s' = remove1 a (lruOrder st s)" "frame st s st' s'"
    "view st' s' = (view st s)(k := None)" by (rule takeOut_core[OF assms(1,2) l e])+
  show "data s' = mdel k (data s)" "admission s' = admission s" "lfu s' = None"
    using assms(3,4) by (auto simp: takeOut_def)
qed

lemma lfu_None: "shard_inv p st s \<Longrightarrow> p \<noteq> LFU \<Longrightarrow> lfu s = None"
  using shard_invD(3)[of p st s] by (auto simp: policy_ok_def split: option.splits)

lemma tail_victim:
  assumes "shard_inv p st s" "data s \<noteq> []"
  obtains k where "prev (items st (tail s)) = last (lruOrder st s)" "last (lruOrder st s) \<noteq> head s"
    "last (lruOrder st s) \<noteq> 0" "key (items st (last (lruOrder st s))) = Some k"
    "mget (data s) k = Some (last (lruOrder st s))"
proof -
  let ?xs = "lruOrder st s"
  have ne: "?xs \<noteq> []" using assms lruOrder_empty_iff by blast
  then have m: "last ?xs \<in> set ?xs" by simp
  have r: "lru_rep st s ?xs" using shard_invD(1)[OF assms(1)] .
  have "prev (items st (tail s)) = last ?xs" using lru_tail_prev[OF r] ne by simp
  moreover have "last ?xs \<noteq> head s" using r m by (auto simp: lru_rep_def)
  ultimately show thesis using shard_inv_key[OF assms(1) m] lru_rep_nz[OF r m] that by metis
qed

lemma tail_empty: "shard_inv p st s \<Longrightarrow> data s = [] \<Longrightarrow> prev (items st (tail s)) = head s"
  using lru_tail_prev[OF shard_invD(1)] lruOrder_empty_iff by fastforce

lemma lru_evict_spec:
  assumes "shard_inv p st s" "p \<noteq> LFU" "data s \<noteq> []"
  shows "\<exists>k a st' s'. lru_evict b st s = (True, st', s') \<and> mget (data s) k = Some a \<and> shard_inv p st' s' \<and>
    frame st s st' s' \<and> data s' = mdel k (data s) \<and> view st' s' = (view st s)(k := None) \<and>
    lruOrder st' s' = remove1 a (lruOrder st s) \<and> a = last (lruOrder st s)"
proof -
  obtain k where v: "prev (items st (tail s)) = last (lruOrder st s)" "last (lruOrder st s) \<noteq> head s"
    "last (lruOrder st s) \<noteq> 0" "key (items st (last (lruOrder st s))) = Some k"
    "mget (data s) k = Some (last (lruOrder st s))" using tail_victim[OF assms(1,3)] .
  obtain st' s' where t: "takeOut k (last (lruOrder st s)) st s = (st', s')" by fastforce
  note T = takeOut_nonlfu[OF assms(1) v(5) lfu_None[OF assms(1,2)] t]
  have "lru_evict b st s = (True, st', countEviction b s')" using v(1-4) t by (simp add: lru_evict_def)
  then show ?thesis using T v(5) by (intro exI[of _ k] exI[of _ "last (lruOrder st s)"] exI[of _ st'] exI[of _ "countEviction b s'"]) simp
qed

lemma fifo_evict_eq: "lfu s = None \<Longrightarrow> fifo_evict b st s = lru_evict b st s"
proof -
  assume "lfu s = None"
  then have "s\<lparr>lfu := None\<rparr> = s" by (cases s) simp
  then show ?thesis
    by (simp only: fifo_evict_def lru_evict_def Let_def \<open>lfu s = None\<close> option.map)
qed

lemma lfu_evict_spec:
  assumes "shard_inv LFU st s" "choices_ok ch" "data s \<noteq> []"
  shows "\<exists>k a st' s'. lfu_evict ch b st s = (True, st', s') \<and> mget (data s) k = Some a \<and> shard_inv LFU st' s' \<and>
    frame st s st' s' \<and> data s' = mdel k (data s) \<and> view st' s' = (view st s)(k := None) \<and>
    lruOrder st' s' = remove1 a (lruOrder st s) \<and>
    (\<forall>k' b. mget (data s) k' = Some b \<longrightarrow> frequency (items st a) \<le> frequency (items st b))"
proof -
  obtain l where l: "lfu s = Some l" "lfu_inv l"
    "lfu_freq l = (\<lambda>a. if a \<in> snd ` set (data s) then Some (frequency (items st a)) else None)"
    using shard_invD(3)[OF assms(1)] by (auto simp: policy_ok_def split: option.splits)
  have ne: "lfu_freq l \<noteq> Map.empty" using l(3) assms(3) by (cases "data s") (auto simp: fun_eq_iff)
  have it: "iter_ok (setOrder ch)" using assms(2) by (simp add: choices_ok_def)
  obtain a f l' where r: "removeLFU (setOrder ch) l = (a, l')" "lfu_freq l a = Some f"
    "\<forall>b g. lfu_freq l b = Some g \<longrightarrow> f \<le> g" "lfu_inv l'" "lfu_freq l' = (lfu_freq l)(a := None)"
    using removeLFU_correct[OF l(2) ne it] .
  have a: "a \<in> set (lruOrder st s)"
    using r(2) l(3) shard_invD(2)[OF assms(1)] by (auto simp: map_ok_def split: if_splits)
  obtain k where k: "mget (data s) k = Some a" "key (items st a) = Some k"
    using shard_inv_key[OF assms(1) a] .
  obtain st' s' where t: "takeOut k a st (s\<lparr>lfu := Some l'\<rparr>) = (st', s')" by fastforce
  have "case Some l' of None \<Rightarrow> LFU \<noteq> LFU | Some l \<Rightarrow> LFU = LFU \<and> lfu_inv l \<and>
      lfu_freq l = (\<lambda>x. if x \<in> snd ` set (data s) - {a} then Some (frequency (items st x)) else None)"
    using r(4,5) l(3) by auto
  note T = takeOut_core[OF assms(1) k(1) this t]
  have "lfu_evict ch b st s = (True, st', countEviction b s')"
    using l(1) r(1) k(2) t shard_inv_mget(3)[OF assms(1) k(1)] by (simp add: lfu_evict_def)
  moreover have "data s' = mdel k (data s)" using t by (auto simp: takeOut_def)
  moreover have "frequency (items st a) \<le> frequency (items st b)" if "mget (data s) k' = Some b" for k' b
  proof -
    have "b \<in> snd ` set (data s)" "a \<in> snd ` set (data s)"
      using map_of_SomeD[OF that] map_of_SomeD[OF k(1)] by force+
    then have "lfu_freq l b = Some (frequency (items st b))" "lfu_freq l a = Some (frequency (items st a))"
      by (simp_all add: l(3))
    then show ?thesis using r(2,3) by (metis option.inject)
  qed
  ultimately show ?thesis using T k(1)
    by (intro exI[of _ k] exI[of _ a] exI[of _ st'] exI[of _ "countEviction b s'"]) simp
qed

lemma rank_le_total: "rank_le st a b \<or> rank_le st b a" and rank_le_refl: "rank_le st a a"
  and rank_le_trans: "rank_le st a b \<Longrightarrow> rank_le st b c \<Longrightarrow> rank_le st a c"
  by (auto simp: rank_le_def)

lemma worse_iff: "worse st b a \<longleftrightarrow> a = 0 \<or> \<not> rank_le st a b"
  by (auto simp: worse_def rank_le_def)

text \<open>The loop returns a least item of the sample, the running victim included.\<close>

lemma pickLoop_spec:
  assumes "\<forall>e \<in> set es. snd e \<noteq> 0" "c < n"
    "S = (if v = 0 then {} else {v}) \<union> snd ` set (take (nat (n - c)) es)" "S \<noteq> {}"
  shows "pickLoop st n c v es \<in> S \<and> (\<forall>b \<in> S. rank_le st (pickLoop st n c v es) b)"
  using assms
proof (induction st n c v es arbitrary: S rule: pickLoop.induct)
  case (1 st n c v)
  then show ?case by (auto simp: rank_le_refl split: if_splits)
next
  case (2 st n c v k b es)
  let ?v = "if worse st b v then b else v"
  have b: "b \<noteq> 0" using "2.prems"(1) by simp
  then have v: "?v \<noteq> 0" "?v = b \<or> ?v = v" by (auto simp: worse_def)
  have le: "rank_le st ?v b" "v \<noteq> 0 \<Longrightarrow> rank_le st ?v v"
    using rank_le_total rank_le_refl by (auto simp: worse_iff)
  have n: "nat (n - c) = Suc (nat (n - (c + 1)))" using "2.prems"(2) by simp
  have S: "S = (if v = 0 then {} else {v}) \<union> insert b (snd ` set (take (nat (n - (c + 1))) es))"
    using "2.prems"(3) n by simp
  show ?case
  proof (cases "n \<le> c + 1")
    case True
    then show ?thesis using v le S by (auto split: if_splits)
  next
    case False
    let ?S = "{?v} \<union> snd ` set (take (nat (n - (c + 1))) es)"
    let ?r = "pickLoop st n (c + 1) ?v es"
    have r: "?r \<in> ?S" "\<forall>x \<in> ?S. rank_le st ?r x"
      using "2.IH"[OF refl refl, of ?S] False "2.prems"(1) v(1) by auto
    have "?v \<in> S" using v S by (metis UnCI insertI1 singletonI)
    then have sub: "?S \<subseteq> S" unfolding S by blast
    have "rank_le st ?r x" if x: "x \<in> S" for x
    proof -
      consider "x = b" | "x = v" "v \<noteq> 0" | "x \<in> snd ` set (take (nat (n - (c + 1))) es)"
        using x S by (auto split: if_splits)
      then show ?thesis using r(2) le rank_le_trans[of st ?r ?v x] by cases blast+
    qed
    moreover have "pickLoop st n c v ((k, b) # es) = ?r" using False by (simp add: Let_def)
    ultimately show ?thesis using r(1) sub by (simp only:) blast
  qed
qed

lemma pickVictim_spec:
  fixes n :: int
  assumes "shard_inv p st s" "choices_ok ch" "data s \<noteq> []"
  defines "S \<equiv> snd ` set (take (sampleCount n (length (data s))) (mapOrder ch (data s)))"
  shows "pickVictim ch n st s \<in> S" "\<forall>b \<in> S. rank_le st (pickVictim ch n st s) b"
    "\<exists>k. mget (data s) k = Some (pickVictim ch n st s)" "pickVictim ch n st s \<noteq> 0"
proof -
  let ?m = "if n \<le> 0 then 5 else if n > 20 then 20 else n"
  let ?n = "if ?m > int (length (data s)) then int (length (data s)) else ?m"
  have it: "set (mapOrder ch (data s)) = set (data s)" "mapOrder ch (data s) \<noteq> []"
    using assms(2,3) by (simp_all add: choices_ok_def)
  have pv: "pickVictim ch n st s = pickLoop st ?n 0 nil (mapOrder ch (data s))"
    using assms(3) by (simp add: pickVictim_def defaultAdmissionLFUSampleSize_def maxAdmissionLFUSampleSize_def Let_def)
  have n: "nat ?n = sampleCount n (length (data s))" "0 < ?n"
    using assms(3) by (auto simp: sampleCount_def)
  have nz: "\<forall>e \<in> set (data s). snd e \<noteq> 0"
  proof
    fix e assume "e \<in> set (data s)"
    then have "snd e \<in> set (lruOrder st s)" using shard_invD(2)[OF assms(1)] by (auto simp: map_ok_def)
    then show "snd e \<noteq> 0" by (rule lru_rep_nz[OF shard_invD(1)[OF assms(1)]])
  qed
  have S: "S = (if nil = (0::addr) then {} else {nil}) \<union> snd ` set (take (nat (?n - 0)) (mapOrder ch (data s)))" "S \<noteq> {}"
    using n it(2) by (auto simp: S_def)
  show 1: "pickVictim ch n st s \<in> S" "\<forall>b \<in> S. rank_le st (pickVictim ch n st s) b"
    using pickLoop_spec[OF _ n(2) S, of st] nz unfolding it(1) pv by blast+
  then have "pickVictim ch n st s \<in> snd ` set (data s)" using it(1) in_set_takeD by (fastforce simp: S_def)
  then obtain k where k: "(k, pickVictim ch n st s) \<in> set (data s)" by auto
  moreover have "wf_map (data s)" using shard_invD(2)[OF assms(1)] by (simp add: map_ok_def)
  ultimately show "\<exists>k. mget (data s) k = Some (pickVictim ch n st s)" by (intro exI[of _ k]) simp
  show "pickVictim ch n st s \<noteq> 0" using k nz by fastforce
qed

lemma removeVictim_spec:
  assumes "shard_inv p st s" "p \<noteq> LFU" "mget (data s) k = Some a" "removeVictim b a st s = (st', s')"
  shows "shard_inv p st' s'" "frame st s st' s'" "data s' = mdel k (data s)" "view st' s' = (view st s)(k := None)"
    "lruOrder st' s' = remove1 a (lruOrder st s)" "admission s' = admission s"
proof -
  obtain s1 where t: "takeOut k a st s = (st', s1)" "s' = countEviction b s1"
    using assms(4) shard_inv_mget(2)[OF assms(1,3)] by (auto simp: removeVictim_def split: prod.splits)
  note T = takeOut_nonlfu[OF assms(1,3) lfu_None[OF assms(1,2)] t(1)]
  show "shard_inv p st' s'" "frame st s st' s'" "data s' = mdel k (data s)" "view st' s' = (view st s)(k := None)"
    "lruOrder st' s' = remove1 a (lruOrder st s)" "admission s' = admission s"
    using T t(2) by simp_all
qed

lemma admission_evict_spec:
  assumes "shard_inv p st s" "p \<noteq> LFU" "choices_ok ch" "data s \<noteq> []"
  shows "\<exists>k a st' s'. admission_evict n ch b st s = (True, st', s') \<and> mget (data s) k = Some a \<and> shard_inv p st' s' \<and>
    frame st s st' s' \<and> data s' = mdel k (data s) \<and> view st' s' = (view st s)(k := None) \<and>
    lruOrder st' s' = remove1 a (lruOrder st s) \<and> a = pickVictim ch n st s"
proof -
  let ?a = "pickVictim ch n st s"
  let ?s = "if admission s \<noteq> None then s\<lparr>lastVictimFrequency := word_of_int (frequency (items st ?a))\<rparr> else s"
  obtain k where k: "mget (data s) k = Some ?a" using pickVictim_spec(3)[OF assms(1,3,4)] by blast
  obtain st' s' where r: "removeVictim b ?a st ?s = (st', s')" by fastforce
  have s: "shard_inv p st ?s" "mget (data ?s) k = Some ?a" "frame st s st1 s1 = frame st ?s st1 s1" for st1 s1
    using assms(1) k by (simp_all add: frame_def own_def footprint_def)
  note R = removeVictim_spec[OF s(1) assms(2) s(2) r]
  have "admission_evict n ch b st s = (True, st', s')"
    using r pickVictim_spec(4)[OF assms(1,3,4)] by (simp add: admission_evict_def Let_def)
  moreover have "data ?s = data s" "view st ?s = view st s" "lruOrder st ?s = lruOrder st s" by simp_all
  ultimately show ?thesis using R k s(3)
    by (intro exI[of _ k] exI[of _ ?a] exI[of _ st'] exI[of _ s']) simp
qed

lemma shard_inv_admission:
  assumes "shard_inv p st s" "aaf_wf f"
  shows "shard_inv p st (s\<lparr>admission := Some f\<rparr>)"
proof -
  note D = shard_invD[OF assms(1)]
  have "lru_rep st (s\<lparr>admission := Some f\<rparr>) (lruOrder st s)" using D(1) by (simp add: lru_rep_def)
  moreover have "map_ok st (s\<lparr>admission := Some f\<rparr>) (lruOrder st s)" using D(2) by (simp add: map_ok_def)
  moreover have "policy_ok p st (s\<lparr>admission := Some f\<rparr>)"
    using D(3) assms(2) by (simp add: policy_ok_def cong: option.case_cong)
  ultimately show ?thesis using D(4-6) by (intro shard_invI(1)) (simp_all add: footprint_def)
qed

lemma evictWithAdmission_spec:
  assumes "shard_inv p st s" "p \<noteq> LFU" "choices_ok ch" "data s \<noteq> []" "admission s = Some aaf"
    "evictWithAdmission t n ch b aaf kh st s = (r, st', s')"
  defines "v \<equiv> items st (pickVictim ch n st s)"
  shows "shard_inv p st' s'" "frame st s st' s'"
    "r = fst (shouldAdmit t aaf kh (word_of_int (frequency v)) (lastAccess v))"
    "r \<Longrightarrow> \<exists>k. mget (data s) k = Some (pickVictim ch n st s) \<and> data s' = mdel k (data s) \<and>
            view st' s' = (view st s)(k := None) \<and> lruOrder st' s' = remove1 (pickVictim ch n st s) (lruOrder st s)"
    "\<not> r \<Longrightarrow> st' = st \<and> data s' = data s \<and> view st' s' = view st s \<and> lruOrder st' s' = lruOrder st s \<and> ssize s' = ssize s"
    "\<exists>aaf'. admission s' = Some aaf'"
proof -
  let ?a = "pickVictim ch n st s" and ?f = "word_of_int (frequency v) :: u64"
  obtain k where k: "mget (data s) k = Some ?a" using pickVictim_spec(3)[OF assms(1,3,4)] by blast
  obtain ad aaf' where sa: "shouldAdmit t aaf kh ?f (lastAccess v) = (ad, aaf')" by fastforce
  have wf: "aaf_wf aaf'"
    using aaf_wf_shouldAdmit[of aaf t kh ?f "lastAccess v"] sa shard_invD(3)[OF assms(1)] assms(5)
    by (simp add: policy_ok_def)
  let ?s = "s\<lparr>lastVictimFrequency := ?f\<rparr>"
  have i: "shard_inv p st ?s" "mget (data ?s) k = Some ?a" using assms(1) k by simp_all
  obtain st1 s1 where rv: "removeVictim b ?a st ?s = (st1, s1)" by fastforce
  note R = removeVictim_spec[OF i(1) assms(2) i(2) rv]
  have e: "(r, st', s') = (if ad then (True, st1, s1\<lparr>admission := Some (RecordEviction aaf')\<rparr>) else (False, st, ?s\<lparr>admission := Some aaf'\<rparr>))"
    using assms(6) sa rv pickVictim_spec(4)[OF assms(1,3,4), of n]
    by (cases ad) (auto simp: evictWithAdmission_def Let_def v_def)
  have f: "frame st s st1 s1" using R(2) by (simp add: frame_def own_def footprint_def)
  show "shard_inv p st' s'" using e R(1) i(1) wf by (cases ad) (auto intro!: shard_inv_admission)
  show "frame st s st' s'" using e f by (cases ad) auto
  show "r = fst (shouldAdmit t aaf kh ?f (lastAccess v))" using e sa by (cases ad) auto
  show "\<exists>k. mget (data s) k = Some ?a \<and> data s' = mdel k (data s) \<and> view st' s' = (view st s)(k := None) \<and>
      lruOrder st' s' = remove1 ?a (lruOrder st s)" if r
    using that e R k by (cases ad) (auto intro!: exI[of _ k])
  show "st' = st \<and> data s' = data s \<and> view st' s' = view st s \<and> lruOrder st' s' = lruOrder st s \<and> ssize s' = ssize s" if "\<not> r"
    using that e by (cases ad) auto
  show "\<exists>aaf'. admission s' = Some aaf'" using e by (cases ad) auto
qed

interpretation lru_ev: evictor LRU "\<lambda>ch. lru_evict"
proof
  show "lru_evict b st s = (False, st, s)" if "shard_inv LRU st s" "data s = []" for b st and s :: "'k shard"
    using tail_empty[OF that] by (simp add: lru_evict_def)
qed (use lru_evict_spec[of LRU] in blast)

interpretation fifo_ev: evictor FIFO "\<lambda>ch. fifo_evict"
proof
  fix b st and s :: "'k shard" and ch :: "'k choices" assume i: "shard_inv FIFO st s"
  then have l: "lfu s = None" by (rule lfu_None) simp
  show "fifo_evict b st s = (False, st, s)" if "data s = []"
    using tail_empty[OF i that] by (simp add: fifo_evict_eq[OF l] lru_evict_def)
  show "\<exists>k a st' s'. fifo_evict b st s = (True, st', s') \<and> mget (data s) k = Some a \<and> shard_inv FIFO st' s' \<and>
        frame st s st' s' \<and> data s' = mdel k (data s) \<and> view st' s' = (view st s)(k := None) \<and>
        lruOrder st' s' = remove1 a (lruOrder st s)" if "data s \<noteq> []"
    using lru_evict_spec[OF i _ that] unfolding fifo_evict_eq[OF l] by blast
qed

interpretation lfu_ev: evictor LFU lfu_evict
proof
  show "lfu_evict ch b st s = (False, st, s)" if i: "shard_inv LFU st s" "data s = []" for ch b st and s :: "'k shard"
  proof -
    obtain l where l: "lfu s = Some l" "lfu_inv l" "lfu_freq l = Map.empty"
      using shard_invD(3)[OF i(1)] i(2) by (auto simp: policy_ok_def split: option.splits)
    then have "s\<lparr>lfu := Some l\<rparr> = s" by (cases s) simp
    then show ?thesis using l removeLFU_empty[OF l(2,3)] by (simp add: lfu_evict_def)
  qed
qed (use lfu_evict_spec in blast)

interpretation admission_ev: evictor AdmissionLFU "admission_evict n" for n
proof
  show "admission_evict n ch b st s = (False, st, s)" if "data s = []" for ch b st and s :: "'k shard"
    using that by (simp add: admission_evict_def pickVictim_def)
qed (use admission_evict_spec[of AdmissionLFU] in blast)

lemma evict_eta:
  "evict lruEvictor = (\<lambda>ch. lru_evict)" "evict lfuEvictor = lfu_evict" "evict fifoEvictor = (\<lambda>ch. fifo_evict)"
  "evict (admissionLFUEvictor n) = admission_evict n"
  by (rule ext, simp)+

interpretation ev: evictor policy "evict (createEvictor policy)" for policy
proof (cases policy)
  case (OtherPolicy n)
  then show "evictor policy (evict (createEvictor policy))"
  proof (unfold_locales)
    show "evict (createEvictor policy) ch b st s = (False, st, s)" if "data s = []" for ch b st and s :: "'k shard"
      using that OtherPolicy by (simp add: admission_evict_def pickVictim_def createEvictor_def)
  qed (use admission_evict_spec[of "OtherPolicy n"] OtherPolicy in \<open>simp add: createEvictor_def; blast\<close>)
qed (simp_all only: createEvictor_def EvictionPolicy.case evict_eta lru_ev.evictor_axioms fifo_ev.evictor_axioms
    lfu_ev.evictor_axioms admission_ev.evictor_axioms)

text \<open>Every evictor that reports success has counted its victim out.\<close>

lemma evict_ssize: "evict e ch b st s = (True, st', s') \<Longrightarrow> ssize s' = ssize s - 1"
  by (cases e) (auto simp: lru_evict_def lfu_evict_def fifo_evict_def admission_evict_def removeVictim_def takeOut_def
    countEviction_def Let_def split: if_splits option.splits prod.splits)

end
