(* ===== verification/Cache.thy ===== *)
theory Cache
  imports Eviction
begin

text \<open>
  \<open>cache.go\<close>: the sharded in-memory cache. A cache owns a list of shards, the store of items they
  share through the item pool, its configuration and the flags of its life cycle. Each exported
  method is a function of the cache; a method that runs under one shard's lock changes that shard
  and the store.

  The clock is an argument: \<open>t 0, t 1, ...\<close> are the successive readings of \<open>time.Now().UnixNano()\<close>
  in one call. \<open>ch\<close> are the choices that Go leaves open. A method that returns \<open>(zero, false)\<close>
  returns the pair \<open>(0, False)\<close>. The struct's field \<open>globalStats\<close>, which no method reads or
  writes, has no counterpart.
\<close>

unbundle bit_operations_syntax

section \<open>Configuration and state\<close>

datatype goError = ErrCacheExists | ErrCacheNotFound | ErrTypeMismatch | ErrInvalidConfig | ErrCacheClosed

record Config =
  MaxSize :: int
  ShardCount :: int
  CleanupInterval :: int
  DefaultTTL :: int
  Policy :: EvictionPolicy
  StatsEnabled :: bool
  AdmissionResetInterval :: int
  AdmissionScanRateThreshold :: u64
  AdmissionScanMissThreshold :: u64
  AdmissionScanRecencyThreshold :: int
  AdmissionRecencyTieBreak :: int

definition minute :: int where "minute = 60 * 1000000000"

definition DefaultConfig :: Config where
  "DefaultConfig =
     \<lparr>MaxSize = 10000, ShardCount = 0, CleanupInterval = 5 * minute, DefaultTTL = 30 * minute,
      Policy = AdmissionLFU, StatsEnabled = True, AdmissionResetInterval = 1 * minute,
      AdmissionScanRateThreshold = defaultScanAdmissionThreshold,
      AdmissionScanMissThreshold = defaultScanMissThreshold,
      AdmissionScanRecencyThreshold = defaultScanRecencyThreshold,
      AdmissionRecencyTieBreak = defaultRecencyTieBreak\<rparr>"

record ('k, 'v) cache =
  shards :: "'k shard list"
  shardMask :: u64
  config :: Config
  perShardCap :: int
  cleanupCh :: bool
  closeCh :: bool
  closeOnce :: bool
  closed :: bool
  store :: "('k, 'v) store"
  hasher :: "'k \<Rightarrow> u64"
  evictr :: evictorKind

record Stats =
  Hits :: int
  Misses :: int
  Evictions :: int
  Expirations :: int
  StatSize :: int
  Capacity :: int
  Shards :: int

section \<open>Construction\<close>

definition maxShardCount :: int where "maxShardCount = 256"
definition shardMultiplier :: int where "shardMultiplier = 4"

text \<open>\<open>for (int64(maxPow2) << 1) <= limit { maxPow2 <<= 1 }\<close>, from \<open>maxPow2 = 1\<close>.\<close>

function maxPow2Loop :: "int \<Rightarrow> int \<Rightarrow> int" where
  "maxPow2Loop limit m = (if 0 < m \<and> m * 2 \<le> limit then maxPow2Loop limit (m * 2) else m)"
  by pat_completeness auto
termination by (relation "measure (\<lambda>(limit, m). nat (limit - m))") auto

definition shardCountFor :: "int \<Rightarrow> Config \<Rightarrow> int" where
  "shardCountFor numCPU cfg =
     (let n = ShardCount cfg;
          n = (if n \<le> 0 then min (numCPU * shardMultiplier) maxShardCount else n);
          n = (if MaxSize cfg > 0 then min n (maxPow2Loop (min (MaxSize cfg) maxShardCount) 1) else n)
      in NextPowerOf2 n)"

text \<open>
  The body of the shard loop of \<open>New\<close>, for shard \<open>i\<close>; \<open>t i\<close> are the clock readings of its filter's
  constructor.
\<close>

definition initShard ::
  "(nat \<Rightarrow> int) \<Rightarrow> Config \<Rightarrow> int \<Rightarrow> ('k, 'v::zero) store \<Rightarrow> ('k, 'v) store \<times> 'k shard" where
  "initShard t cfg cap st =
     (let (st, s) = initLRU st newShard;
          s = (if Policy cfg = LFU then s\<lparr>lfu := Some newLFUList\<rparr> else s);
          s = (if Policy cfg = AdmissionLFU \<and> cap > 0 then
                 let nc = word_of_int (i64 (cap * 10)) :: u64;
                     nc = max nc 1024;
                     resetInt = (if AdmissionResetInterval cfg = 0 then 1 * minute else AdmissionResetInterval cfg)
                 in s\<lparr>admission := Some (newAdaptiveAdmissionFilter t nc resetInt
                        (AdmissionScanRateThreshold cfg) (AdmissionScanMissThreshold cfg)
                        (AdmissionScanRecencyThreshold cfg) (AdmissionRecencyTieBreak cfg))\<rparr>
               else s)
      in (st, s))"

fun initShards ::
  "(nat \<Rightarrow> nat \<Rightarrow> int) \<Rightarrow> Config \<Rightarrow> int \<Rightarrow> nat \<Rightarrow> ('k, 'v::zero) store \<Rightarrow> ('k, 'v) store \<times> 'k shard list" where
  "initShards t cfg cap 0 st = (st, [])"
| "initShards t cfg cap (Suc n) st =
     (let (st, s) = initShard (t n) cfg cap st;
          (st, ss) = initShards t cfg cap n st
      in (st, s # ss))"

definition New :: "(nat \<Rightarrow> nat \<Rightarrow> int) \<Rightarrow> int \<Rightarrow> ('k \<Rightarrow> u64) \<Rightarrow> Config \<Rightarrow> ('k, 'v::zero) cache" where
  "New t numCPU hf cfg =
     (let n = shardCountFor numCPU cfg;
          cap = (if MaxSize cfg > 0 then MaxSize cfg div n else 0);
          (st, ss) = initShards t cfg cap (nat n) emptyStore
      in \<lparr>shards = ss, shardMask = word_of_int (n - 1), config = cfg, perShardCap = cap,
          cleanupCh = False, closeCh = False, closeOnce = False, closed = False,
          store = st, hasher = hf, evictr = createEvictor (Policy cfg)\<rparr>)"

definition NewWithDefaults :: "(nat \<Rightarrow> nat \<Rightarrow> int) \<Rightarrow> int \<Rightarrow> ('k \<Rightarrow> u64) \<Rightarrow> ('k, 'v::zero) cache" where
  "NewWithDefaults t numCPU hf = New t numCPU hf DefaultConfig"

section \<open>Shard selection\<close>

definition shardByHash :: "('k, 'v) cache \<Rightarrow> u64 \<Rightarrow> nat" where
  "shardByHash c h = unat (h AND shardMask c)"

definition getShard :: "('k, 'v) cache \<Rightarrow> 'k \<Rightarrow> nat" where
  "getShard c k = shardByHash c (hasher c k)"

definition putShard :: "nat \<Rightarrow> ('k, 'v) store \<times> 'k shard \<Rightarrow> ('k, 'v) cache \<Rightarrow> ('k, 'v) cache" where
  "putShard i r c = c\<lparr>store := fst r, shards := (shards c)[i := snd r]\<rparr>"

section \<open>Reading\<close>

text \<open>The policy switch that records an access.\<close>

definition touch ::
  "EvictionPolicy \<Rightarrow> int \<Rightarrow> addr \<Rightarrow> ('k, 'v::zero) store \<Rightarrow> 'k shard \<Rightarrow> ('k, 'v) store \<times> 'k shard" where
  "touch policy now item st s =
     (case policy of
        LRU \<Rightarrow> (moveToLRUHead st s item, s)
      | LFU \<Rightarrow>
          let st = setItem item (lastAccess_update (\<lambda>_. now)) st;
              st = setItem item (frequency_update (\<lambda>f. f + 1)) st
          in (case lfu s of
                None \<Rightarrow> (st, s)
              | Some l \<Rightarrow> let (st, l) = lfu_increment st l item in (st, s\<lparr>lfu := Some l\<rparr>))
      | AdmissionLFU \<Rightarrow>
          let st = setItem item (lastAccess_update (\<lambda>_. now)) st
          in (setItem item (frequency_update (\<lambda>f. f + 1)) st, s)
      | _ \<Rightarrow> (st, s))"

text \<open>
  The part of \<open>get\<close> after the item was found, at the clock reading \<open>now\<close>: an expired item is removed,
  any other is touched and counted as a hit. The result is the item (nil on a miss), the reading and
  the success flag.
\<close>

definition getFound ::
  "Config \<Rightarrow> int \<Rightarrow> 'k \<Rightarrow> addr \<Rightarrow> ('k, 'v::zero) store \<Rightarrow> 'k shard \<Rightarrow>
   (addr \<times> int \<times> bool) \<times> ('k, 'v) store \<times> 'k shard" where
  "getFound cfg now k item st s =
     (if expired now (items st item) then
        let (st, s) = dropItem (Policy cfg) k item st s;
            s = (if StatsEnabled cfg
                 then s\<lparr>expirations := expirations s + 1, misses := misses s + 1\<rparr> else s)
        in ((nil, now, False), st, s)
      else
        let (st, s) = touch (Policy cfg) now item st s;
            s = (if StatsEnabled cfg then s\<lparr>hits := hits s + 1\<rparr> else s)
        in ((item, now, True), st, s))"

definition countMiss :: "Config \<Rightarrow> 'k shard \<Rightarrow> 'k shard" where
  "countMiss cfg s = (if StatsEnabled cfg then s\<lparr>misses := misses s + 1\<rparr> else s)"

text \<open>
  \<open>get\<close> holds the write lock from the start under LRU and LFU. Under the other policies it starts
  with the read lock and, when the item has expired, releases it and takes the write lock:
  \<open>window\<close> is what other goroutines do to the cache between the two. The loop then runs at most
  once more, because the write lock is held.
\<close>

definition cache_get ::
  "(('k, 'v::zero) cache \<Rightarrow> ('k, 'v) cache) \<Rightarrow> (nat \<Rightarrow> int) \<Rightarrow> ('k, 'v) cache \<Rightarrow> 'k \<Rightarrow>
   (addr \<times> int \<times> bool) \<times> ('k, 'v) cache" where
  "cache_get window t c k =
     (if closed c then ((nil, 0, False), c)
      else
        let i = getShard c k; s = shards c ! i; cfg = config c; st = store c;
            nw = (Policy cfg = LRU \<or> Policy cfg = LFU)
        in (case mget (data s) k of
              None \<Rightarrow> ((nil, 0, False), putShard i (st, countMiss cfg s) c)
            | Some item \<Rightarrow>
                if nw \<or> \<not> expired (t 0) (items st item) then
                  let (r, st, s) = getFound cfg (t 0) k item st s in (r, putShard i (st, s) c)
                else
                  let c = window c; s = shards c ! i; st = store c in
                  (case mget (data s) k of
                     None \<Rightarrow> ((nil, t 0, False), putShard i (st, countMiss cfg s) c)
                   | Some item \<Rightarrow>
                       let (r, st, s) = getFound cfg (t 1) k item st s in (r, putShard i (st, s) c))))"

text \<open>
  \<open>Get\<close> and \<open>GetWithTTL\<close> read the item's fields after \<open>get\<close> has released the lock; \<open>after\<close> is what
  other goroutines do before that read.
\<close>

definition Get ::
  "(('k, 'v::zero) cache \<Rightarrow> ('k, 'v) cache) \<Rightarrow> (('k, 'v) cache \<Rightarrow> ('k, 'v) cache) \<Rightarrow> (nat \<Rightarrow> int) \<Rightarrow>
   ('k, 'v) cache \<Rightarrow> 'k \<Rightarrow> ('v \<times> bool) \<times> ('k, 'v) cache" where
  "Get window after t c k =
     (let ((item, _, ok), c) = cache_get window t c k;
          c = after c
      in if \<not> ok then ((0, False), c) else ((val (items (store c) item), True), c))"

definition GetWithTTL ::
  "(('k, 'v::zero) cache \<Rightarrow> ('k, 'v) cache) \<Rightarrow> (('k, 'v) cache \<Rightarrow> ('k, 'v) cache) \<Rightarrow> (nat \<Rightarrow> int) \<Rightarrow>
   ('k, 'v) cache \<Rightarrow> 'k \<Rightarrow> ('v \<times> int \<times> bool) \<times> ('k, 'v) cache" where
  "GetWithTTL window after t c k =
     (let ((item, now, ok), c) = cache_get window t c k;
          c = after c;
          it = items (store c) item
      in if \<not> ok then ((0, 0, False), c)
         else if expireTime it = 0 then ((val it, -1, True), c)
         else ((val it, i64 (expireTime it - now), True), c))"

section \<open>Writing\<close>

text \<open>The expiry stored at the clock reading \<open>now\<close>: 0 stands for none, and the sum may wrap around.\<close>

definition setExpire :: "Config \<Rightarrow> int \<Rightarrow> int \<Rightarrow> int" where
  "setExpire cfg now ttl =
     (let ttl = (if ttl = 0 then DefaultTTL cfg else ttl)
      in if ttl > 0 then i64 (now + ttl) else 0)"

text \<open>The in-place update of an existing key.\<close>

definition updateItem ::
  "EvictionPolicy \<Rightarrow> int \<Rightarrow> 'v \<Rightarrow> int \<Rightarrow> addr \<Rightarrow> ('k, 'v::zero) store \<Rightarrow> 'k shard \<Rightarrow> ('k, 'v) store \<times> 'k shard" where
  "updateItem policy now v expire ex st s =
     (let st = setItem ex (val_update (\<lambda>_. v)) st;
          st = setItem ex (lastAccess_update (\<lambda>_. now)) st;
          st = setItem ex (expireTime_update (\<lambda>_. expire)) st
      in (case policy of
            LRU \<Rightarrow> (moveToLRUHead st s ex, s)
          | LFU \<Rightarrow>
              (case lfu s of
                 None \<Rightarrow> (st, s)
               | Some l \<Rightarrow>
                   let l = lfu_remove l ex;
                       st = setItem ex (frequency_update (\<lambda>_. 1)) st;
                       (st, l) = lfu_add st l ex
                   in (st, s\<lparr>lfu := Some l\<rparr>))
          | AdmissionLFU \<Rightarrow> (setItem ex (frequency_update (\<lambda>_. 1)) st, s)
          | _ \<Rightarrow> (st, s)))"

text \<open>
  Making room in a full shard. The flag is False when the admission filter turned the new key
  away. The type assertion to \<open>admissionLFUEvictor\<close> holds for every cache that \<open>New\<close> builds.
\<close>

definition makeRoom ::
  "'k choices \<Rightarrow> (nat \<Rightarrow> int) \<Rightarrow> Config \<Rightarrow> evictorKind \<Rightarrow> int \<Rightarrow> u64 \<Rightarrow> ('k, 'v::zero) store \<Rightarrow> 'k shard \<Rightarrow>
   bool \<times> ('k, 'v) store \<times> 'k shard" where
  "makeRoom ch t cfg e cap kh st s =
     (if cap > 0 \<and> ssize s \<ge> cap then
        (case (Policy cfg, admission s, e) of
           (AdmissionLFU, Some aaf, admissionLFUEvictor n) \<Rightarrow>
             evictWithAdmission t n ch (StatsEnabled cfg) aaf kh st s
         | _ \<Rightarrow> let (_, st, s) = evict e ch (StatsEnabled cfg) st s in (True, st, s))
      else (True, st, s))"

text \<open>A fresh or recycled item for a new key, filled, indexed and linked at the head of the LRU list.\<close>

definition insertItem ::
  "'k choices \<Rightarrow> EvictionPolicy \<Rightarrow> int \<Rightarrow> 'k \<Rightarrow> 'v \<Rightarrow> int \<Rightarrow> ('k, 'v::zero) store \<Rightarrow> 'k shard \<Rightarrow>
   ('k, 'v) store \<times> 'k shard" where
  "insertItem ch policy now k v expire st s =
     (let (item, st) = poolGet (poolPick ch) st;
          st = setItem item (val_update (\<lambda>_. v)) st;
          st = setItem item (lastAccess_update (\<lambda>_. now)) st;
          st = setItem item (frequency_update (\<lambda>_. 1)) st;
          st = setItem item (key_update (\<lambda>_. Some k)) st;
          st = setItem item (expireTime_update (\<lambda>_. expire)) st;
          s = s\<lparr>data := mput k item (data s)\<rparr>;
          st = addToLRUHead st s item;
          (st, s) =
            (if policy = LFU
             then (case lfu s of
                     None \<Rightarrow> (st, s)
                   | Some l \<Rightarrow> let (st, l) = lfu_add st l item in (st, s\<lparr>lfu := Some l\<rparr>))
             else (st, s))
      in (st, s\<lparr>ssize := ssize s + 1\<rparr>))"

definition Set ::
  "'k choices \<Rightarrow> (nat \<Rightarrow> int) \<Rightarrow> ('k, 'v::zero) cache \<Rightarrow> 'k \<Rightarrow> 'v \<Rightarrow> int \<Rightarrow> goError option \<times> ('k, 'v) cache" where
  "Set ch t c k v ttl =
     (if closed c then (Some ErrCacheClosed, c)
      else
        let cfg = config c;
            kh = hasher c k;
            i = shardByHash c kh; s = shards c ! i; st = store c;
            now = t 0;
            expire = setExpire cfg now ttl
        in (case mget (data s) k of
              Some ex \<Rightarrow> (None, putShard i (updateItem (Policy cfg) now v expire ex st s) c)
            | None \<Rightarrow>
                let (admit, st, s) = makeRoom ch (\<lambda>n. t (n + 1)) cfg (evictr c) (perShardCap c) kh st s in
                if \<not> admit then (None, putShard i (st, s) c)
                else (None, putShard i (insertItem ch (Policy cfg) now k v expire st s) c)))"

text \<open>
  \<open>SetWithCallback\<close> stores like \<open>Set\<close> and, for a positive TTL, arms a timer. When the timer fires at
  the reading \<open>now\<close> on a cache \<open>c\<close>, the callback runs with the key and the value given to
  \<open>SetWithCallback\<close> exactly when \<open>callbackFires\<close>.
\<close>

definition SetWithCallback ::
  "'k choices \<Rightarrow> (nat \<Rightarrow> int) \<Rightarrow> ('k, 'v::zero) cache \<Rightarrow> 'k \<Rightarrow> 'v \<Rightarrow> int \<Rightarrow> bool \<Rightarrow>
   (goError option \<times> bool) \<times> ('k, 'v) cache" where
  "SetWithCallback ch t c k v ttl hasCallback =
     (if closed c then ((Some ErrCacheClosed, False), c)
      else
        let (err, c) = Set ch t c k v ttl
        in if err \<noteq> None then ((err, False), c) else ((None, hasCallback \<and> ttl > 0), c))"

definition callbackFires :: "int \<Rightarrow> ('k, 'v::zero) cache \<Rightarrow> 'k \<Rightarrow> bool" where
  "callbackFires now c k =
     (case mget (data (shards c ! getShard c k)) k of
        None \<Rightarrow> False
      | Some item \<Rightarrow> expired now (items (store c) item))"

section \<open>Removing\<close>

definition Delete :: "('k, 'v::zero) cache \<Rightarrow> 'k \<Rightarrow> bool \<times> ('k, 'v) cache" where
  "Delete c k =
     (if closed c then (False, c)
      else
        let i = getShard c k; s = shards c ! i; st = store c in
        (case mget (data s) k of
           None \<Rightarrow> (False, c)
         | Some item \<Rightarrow> (True, putShard i (dropItem (Policy (config c)) k item st s) c)))"

definition clearShard ::
  "'k choices \<Rightarrow> EvictionPolicy \<Rightarrow> ('k, 'v::zero) store \<Rightarrow> 'k shard \<Rightarrow> ('k, 'v) store \<times> 'k shard" where
  "clearShard ch policy st s =
     (let st = fold (\<lambda>e st. poolPut (snd e) st) (mapOrder ch (data s)) st;
          s = s\<lparr>data := []\<rparr>;
          (st, s) = initLRU st s;
          s = (if policy = LFU then s\<lparr>lfu := Some newLFUList\<rparr> else s);
          s = (if policy = AdmissionLFU then s\<lparr>admission := map_option aaf_Reset (admission s)\<rparr> else s)
      in (st, s\<lparr>ssize := 0\<rparr>))"

text \<open>A loop over the shards, one lock at a time.\<close>

fun eachShard ::
  "(('k, 'v) store \<Rightarrow> 'k shard \<Rightarrow> ('k, 'v) store \<times> 'k shard) \<Rightarrow> ('k, 'v) store \<Rightarrow> 'k shard list \<Rightarrow>
   ('k, 'v) store \<times> 'k shard list" where
  "eachShard f st [] = (st, [])"
| "eachShard f st (s # ss) = (let (st, s) = f st s; (st, ss) = eachShard f st ss in (st, s # ss))"

definition Clear :: "'k choices \<Rightarrow> ('k, 'v::zero) cache \<Rightarrow> ('k, 'v) cache" where
  "Clear ch c =
     (if closed c then c
      else let (st, ss) = eachShard (clearShard ch (Policy (config c))) (store c) (shards c)
           in c\<lparr>store := st, shards := ss\<rparr>)"

definition Exists :: "(nat \<Rightarrow> int) \<Rightarrow> ('k, 'v::zero) cache \<Rightarrow> 'k \<Rightarrow> bool \<times> ('k, 'v) cache" where
  "Exists t c k =
     (if closed c then (False, c)
      else
        let i = getShard c k; s = shards c ! i; st = store c; now = t 0 in
        (case mget (data s) k of
           None \<Rightarrow> (False, c)
         | Some item \<Rightarrow>
             if expired now (items st item) then
               let (st, s) = dropItem (Policy (config c)) k item st s;
                   s = (if StatsEnabled (config c) then s\<lparr>expirations := expirations s + 1\<rparr> else s)
               in (False, putShard i (st, s) c)
             else (True, c)))"

section \<open>Inspecting\<close>

definition Keys :: "'k choices \<Rightarrow> (nat \<Rightarrow> int) \<Rightarrow> ('k, 'v::zero) cache \<Rightarrow> 'k list" where
  "Keys ch t c =
     (if closed c then []
      else concat (map (\<lambda>s. map fst (filter (\<lambda>e. \<not> expired (t 0) (items (store c) (snd e)))
                              (mapOrder ch (data s)))) (shards c)))"

definition Size :: "('k, 'v) cache \<Rightarrow> int" where
  "Size c = foldl (\<lambda>n s. n + ssize s) 0 (shards c)"

text \<open>\<open>HitRatio\<close>, a float64 quotient of two of these fields, is left out.\<close>

definition cacheStats :: "('k, 'v) cache \<Rightarrow> Stats" where
  "cacheStats c =
     (let st = \<lparr>Hits = 0, Misses = 0, Evictions = 0, Expirations = 0, StatSize = Size c,
                Capacity = MaxSize (config c), Shards = int (length (shards c))\<rparr>
      in if StatsEnabled (config c)
         then foldl (\<lambda>st s. st\<lparr>Hits := Hits st + hits s, Misses := Misses st + misses s,
                               Evictions := Evictions st + evictions s,
                               Expirations := Expirations st + expirations s\<rparr>) st (shards c)
         else st)"

section \<open>Life cycle\<close>

definition Close :: "'k choices \<Rightarrow> ('k, 'v::zero) cache \<Rightarrow> goError option \<times> ('k, 'v) cache" where
  "Close ch c =
     (if closeOnce c then (None, c)
      else (None, (Clear ch (c\<lparr>closeOnce := True, closeCh := True\<rparr>))\<lparr>closed := True\<rparr>))"

definition cleanup :: "'k choices \<Rightarrow> (nat \<Rightarrow> int) \<Rightarrow> ('k, 'v::zero) cache \<Rightarrow> ('k, 'v) cache" where
  "cleanup ch t c =
     (if closed c then c
      else let now = t 0;
               (st, ss) = eachShard (shard_cleanup (mapOrder ch) now (Policy (config c)) (StatsEnabled (config c)))
                            (store c) (shards c)
           in c\<lparr>store := st, shards := ss\<rparr>)"

definition TriggerCleanup :: "'k choices \<Rightarrow> (nat \<Rightarrow> int) \<Rightarrow> ('k, 'v::zero) cache \<Rightarrow> ('k, 'v) cache" where
  "TriggerCleanup ch t c =
     (if closed c then c
      else if CleanupInterval (config c) \<le> 0 then cleanup ch t c
      else c\<lparr>cleanupCh := True\<rparr>)"

text \<open>
  One turn of the worker's select: a tick, a pending manual trigger, or the close signal, on which
  the worker stops.
\<close>

datatype workerEvent = Tick | Triggered | CloseSignal

definition cleanupWorker ::
  "'k choices \<Rightarrow> (nat \<Rightarrow> int) \<Rightarrow> workerEvent \<Rightarrow> ('k, 'v::zero) cache \<Rightarrow> bool \<times> ('k, 'v) cache" where
  "cleanupWorker ch t e c =
     (case e of
        Tick \<Rightarrow> (True, cleanup ch t c)
      | Triggered \<Rightarrow> (True, cleanup ch t (c\<lparr>cleanupCh := False\<rparr>))
      | CloseSignal \<Rightarrow> (False, c))"

definition filled :: "int \<Rightarrow> 'k \<Rightarrow> 'v \<Rightarrow> int \<Rightarrow> addr \<Rightarrow> ('k, 'v::zero) store \<Rightarrow> ('k, 'v) store" where
  "filled now k v e a st = setItem a (expireTime_update (\<lambda>_. e)) (setItem a (key_update (\<lambda>_. Some k))
     (setItem a (frequency_update (\<lambda>_. 1)) (setItem a (lastAccess_update (\<lambda>_. now)) (setItem a (val_update (\<lambda>_. v)) st))))"

section \<open>Lemmas\<close>

lemma shard_inv_relink:
  assumes inv: "shard_inv p st s" and l: "lru_rep st' s xs" "set xs = set (lruOrder st s)"
    and k: "\<And>u. key (items st' u) = key (items st u)" and t: "itemTop st' = itemTop st" "pool st' = pool st"
    and pol: "policy_ok p st' (s\<lparr>lfu := l'\<rparr>)"
  shows "shard_inv p st' (s\<lparr>lfu := l'\<rparr>)" "lruOrder st' (s\<lparr>lfu := l'\<rparr>) = xs"
proof -
  note D = shard_invD[OF inv]
  have "lru_rep st' (s\<lparr>lfu := l'\<rparr>) xs" using l(1) by (simp add: lru_rep_def)
  moreover have "map_ok st' (s\<lparr>lfu := l'\<rparr>) xs" using D(2) k l(2) by (simp add: map_ok_def)
  moreover have "pool_ok st'" using D(4) t by (simp add: pool_ok_def)
  moreover have "\<forall>a \<in> footprint (s\<lparr>lfu := l'\<rparr>). a < itemTop st'" "footprint (s\<lparr>lfu := l'\<rparr>) \<inter> set (pool st') = {}"
    using D(5,6) t by (simp_all add: footprint_def)
  ultimately show "shard_inv p st' (s\<lparr>lfu := l'\<rparr>)" "lruOrder st' (s\<lparr>lfu := l'\<rparr>) = xs"
    using pol shard_invI[of st' "s\<lparr>lfu := l'\<rparr>" xs p] by blast+
qed

lemma shard_lfu_same: "s\<lparr>lfu := lfu s\<rparr> = s"
  by simp

lemma policy_ok_frequency:
  assumes "policy_ok p st s" "\<And>u. frequency (items st' u) = frequency (items st u)"
  shows "policy_ok p st' s"
  using assms by (auto simp: policy_ok_def split: option.splits)

lemma policy_ok_notLFU:
  assumes "policy_ok p st s" "p \<noteq> LFU"
  shows "policy_ok p st' s"
  using assms by (auto simp: policy_ok_def split: option.splits)

lemma policy_ok_set:
  assumes "policy_ok LFU st s" "lfu s = Some l" "a \<in> snd ` set (data s)"
    "lfu_inv l'" "lfu_freq l' = (lfu_freq l)(a \<mapsto> n)"
    "\<And>u. frequency (items st' u) = (if u = a then n else frequency (items st u))"
  shows "policy_ok LFU st' (s\<lparr>lfu := Some l'\<rparr>)"
  using assms by (auto simp: policy_ok_def fun_eq_iff)

lemma frame_sameI:
  assumes "itemTop st' = itemTop st" "pool st' = pool st" "\<And>u. u \<notin> footprint s \<Longrightarrow> items st' u = items st u"
  shows "frame st s st' (s\<lparr>lfu := l\<rparr>)"
  using assms by (auto simp: frame_def own_def footprint_def)

lemma moveToLRUHead_outside:
  assumes "shard_inv p st s" "x \<in> set (lruOrder st s)" "u \<notin> footprint s"
  shows "items (moveToLRUHead st s x) u = items st u"
proof -
  let ?xs = "lruOrder st s"
  have r: "lru_rep st s ?xs" and fp: "set (head s # tail s # ?xs) = footprint s"
    using shard_invD(1,2)[OF assms(1)] by (auto simp: footprint_def map_ok_def)
  obtain hs a b ts where n: "head s # ?xs @ [tail s] = hs @ a # x # b # ts"
    "head s # remove1 x ?xs @ [tail s] = hs @ a # b # ts" "prev (items st x) = a" "next (items st x) = b"
    "x \<notin> set (hs @ a # b # ts)" "distinct (hs @ a # b # ts)"
    using lru_rep_around[OF r assms(2)] .
  have "u \<notin> set (head s # ?xs @ [tail s])" using assms(3) fp by auto
  moreover have "u \<noteq> head s" "head s \<noteq> 0" using assms(3) r by (auto simp: footprint_def lru_rep_def)
  moreover have "a \<in> set (head s # ?xs @ [tail s])" "b \<in> set (head s # ?xs @ [tail s])"
    "x \<in> set (head s # ?xs @ [tail s])" using n by auto
  ultimately have ne: "u \<noteq> a" "u \<noteq> b" "u \<noteq> x" "u \<noteq> head s" by auto
  have "hd (remove1 x ?xs @ [tail s]) \<in> set (head s # remove1 x ?xs @ [tail s])" by (cases "remove1 x ?xs") auto
  moreover have "u \<notin> set (head s # remove1 x ?xs @ [tail s])" using \<open>u \<notin> set (head s # ?xs @ [tail s])\<close> set_remove1_subset by fastforce
  moreover have "next (items (unlinkItem st x) (head s)) = hd (remove1 x ?xs @ [tail s])"
    by (rule lru_head_next, rule chain_unlinked[OF r assms(2)]) (rule refl)+
  ultimately have "u \<noteq> next (items (unlinkItem st x) (head s))" by metis
  moreover have "items (unlinkItem st x) u = items st u"
    using ne n(3-5) by (auto simp: unlinkItem_def Let_def)
  ultimately show ?thesis using ne by (simp add: moveToLRUHead_def Let_def)
qed

lemma moveToLRUHead_spec:
  assumes "shard_inv p st s" "x \<in> set (lruOrder st s)"
  shows "shard_inv p (moveToLRUHead st s x) s" "lruOrder (moveToLRUHead st s x) s = x # remove1 x (lruOrder st s)"
    "frame st s (moveToLRUHead st s x) s"
proof -
  have r: "lru_rep (moveToLRUHead st s x) s (x # remove1 x (lruOrder st s))"
    using lru_move[OF shard_invD(1)[OF assms(1)] assms(2)] .
  have d: "set (x # remove1 x (lruOrder st s)) = set (lruOrder st s)"
    using assms shard_invD(1)[OF assms(1)] by (auto simp: lru_rep_def)
  have pol: "policy_ok p (moveToLRUHead st s x) (s\<lparr>lfu := lfu s\<rparr>)"
    using policy_ok_frequency[OF shard_invD(3)[OF assms(1)], of "moveToLRUHead st s x"] by simp
  show "shard_inv p (moveToLRUHead st s x) s" "lruOrder (moveToLRUHead st s x) s = x # remove1 x (lruOrder st s)"
    using shard_inv_relink[OF assms(1) r d _ _ _ pol] by simp_all
  show "frame st s (moveToLRUHead st s x) s"
    using frame_sameI[of "moveToLRUHead st s x" st s "lfu s"] moveToLRUHead_outside[OF assms] by simp
qed

lemma view_cong:
  "(\<And>u. val (items st' u) = val (items st u)) \<Longrightarrow> (\<And>u. expireTime (items st' u) = expireTime (items st u)) \<Longrightarrow>
   view st' s = view st s"
  by (simp add: view_def fun_eq_iff)

lemma view_put:
  assumes "shard_inv p st s" "mget (data s) k = Some a"
    "\<And>u. u \<noteq> a \<Longrightarrow> val (items st' u) = val (items st u) \<and> expireTime (items st' u) = expireTime (items st u)"
    "val (items st' a) = v" "expireTime (items st' a) = e"
  shows "view st' s = (view st s)(k \<mapsto> (v, e))"
proof
  fix j
  show "view st' s j = ((view st s)(k \<mapsto> (v, e))) j"
  proof (cases "mget (data s) j")
    case (Some b)
    then have "j \<noteq> k \<Longrightarrow> b \<noteq> a" using shard_inv_inj[OF assms(1,2)] by blast
    then show ?thesis using Some assms by (auto simp: view_def)
  qed (use assms(2) in \<open>auto simp: view_def\<close>)
qed

lemma item_in_footprint: "mget (data s) k = Some a \<Longrightarrow> a \<in> footprint s"
  by (force simp: footprint_def dest: map_of_SomeD)

lemma item_in_data: "mget (data s) k = Some a \<Longrightarrow> a \<in> snd ` set (data s)"
  by (force dest: map_of_SomeD)

text \<open>Writing an item's payload, with the LFU index kept in step.\<close>

lemma shard_inv_write:
  assumes inv: "shard_inv p st s" and k: "mget (data s) k = Some a"
    and st': "itemTop st' = itemTop st" "pool st' = pool st" "\<And>u. u \<noteq> a \<Longrightarrow> items st' u = items st u"
      "next (items st' a) = next (items st a)" "prev (items st' a) = prev (items st a)" "key (items st' a) = key (items st a)"
    and pol: "policy_ok p st' (s\<lparr>lfu := l'\<rparr>)"
  shows "shard_inv p st' (s\<lparr>lfu := l'\<rparr>)" "lruOrder st' (s\<lparr>lfu := l'\<rparr>) = lruOrder st s" "frame st s st' (s\<lparr>lfu := l'\<rparr>)"
proof -
  have n: "next (items st' u) = next (items st u)" "prev (items st' u) = prev (items st u)"
    "key (items st' u) = key (items st u)" for u using st' by (cases "u = a"; simp)+
  have "lru_rep st' s (lruOrder st s)" using shard_invD(1)[OF inv] by (subst lru_rep_cong) (simp_all add: n)
  from shard_inv_relink[OF inv this refl n(3) st'(1,2) pol]
  show "shard_inv p st' (s\<lparr>lfu := l'\<rparr>)" "lruOrder st' (s\<lparr>lfu := l'\<rparr>) = lruOrder st s" .
  have "items st' u = items st u" if "u \<notin> footprint s" for u
    using that st'(3)[of u] item_in_footprint[OF k] by auto
  then show "frame st s st' (s\<lparr>lfu := l'\<rparr>)" using st'(1,2) by (intro frame_sameI)
qed

lemma lfu_of_inv:
  assumes "shard_inv LFU st s"
  obtains l where "lfu s = Some l" "lfu_inv l"
    "lfu_freq l = (\<lambda>a. if a \<in> snd ` set (data s) then Some (frequency (items st a)) else None)"
  using shard_invD(3)[OF assms] by (auto simp: policy_ok_def split: option.splits)

lemma touch_spec:
  assumes inv: "shard_inv p st s" and k: "mget (data s) k = Some a" and t: "touch p now a st s = (st', s')"
  shows "shard_inv p st' s'" "frame st s st' s'" "view st' s' = view st s" "data s' = data s" "ssize s' = ssize s"
    "lruOrder st' s' = (if p = LRU then a # remove1 a (lruOrder st s) else lruOrder st s)"
    "val (items st' a) = val (items st a)" "expireTime (items st' a) = expireTime (items st a)"
    "frequency (items st' a) = (if p = LFU \<or> p = AdmissionLFU then frequency (items st a) + 1 else frequency (items st a))"
proof -
  have a: "a \<in> set (lruOrder st s)" using shard_inv_mget(1)[OF inv k] .
  let ?u = "setItem a (frequency_update (\<lambda>f. f + 1)) (setItem a (lastAccess_update (\<lambda>_. now)) st)"
  have "shard_inv p st' s' \<and> frame st s st' s' \<and> view st' s' = view st s \<and> data s' = data s \<and> ssize s' = ssize s \<and>
    lruOrder st' s' = (if p = LRU then a # remove1 a (lruOrder st s) else lruOrder st s) \<and>
    val (items st' a) = val (items st a) \<and> expireTime (items st' a) = expireTime (items st a) \<and>
    frequency (items st' a) = (if p = LFU \<or> p = AdmissionLFU then frequency (items st a) + 1 else frequency (items st a))"
  proof (cases p)
    case LRU
    then show ?thesis using t moveToLRUHead_spec[OF inv a] by (auto simp: touch_def intro: view_cong)
  next
    case LFU
    from inv have i: "shard_inv LFU st s" by (simp add: LFU)
    obtain l where l: "lfu s = Some l" "lfu_inv l"
      "lfu_freq l = (\<lambda>a. if a \<in> snd ` set (data s) then Some (frequency (items st a)) else None)"
      using lfu_of_inv[OF i] .
    have fa: "lfu_freq l a = Some (frequency (items st a))" using l(3) item_in_data[OF k] by simp
    let ?st = "setItem a (frequency_update (\<lambda>_. frequency (items st a) + 1)) ?u"
    obtain l' where li: "lfu_increment ?u l a = (?st, l')" "lfu_inv l'"
      "lfu_freq l' = (lfu_freq l)(a \<mapsto> frequency (items st a) + 1)"
      using lfu_increment_correct[OF l(2) fa] .
    have e: "st' = ?st" "s' = s\<lparr>lfu := Some l'\<rparr>" using t LFU l(1) li(1) by (simp_all add: touch_def Let_def)
    have pol: "policy_ok p st' (s\<lparr>lfu := Some l'\<rparr>)"
      unfolding LFU by (rule policy_ok_set[OF shard_invD(3)[OF i] l(1) item_in_data[OF k] li(2,3)]) (simp add: e(1))
    show ?thesis using shard_inv_write[OF inv k _ _ _ _ _ _ pol] LFU
      unfolding e(2) by (auto simp: e(1) intro: view_cong)
  next
    case AdmissionLFU
    then have e: "st' = ?u" "s' = s\<lparr>lfu := lfu s\<rparr>" using t by (simp_all add: touch_def)
    have pol: "policy_ok p st' (s\<lparr>lfu := lfu s\<rparr>)"
      using policy_ok_notLFU[OF shard_invD(3)[OF inv]] AdmissionLFU by simp
    show ?thesis using shard_inv_write[OF inv k _ _ _ _ _ _ pol] AdmissionLFU
      unfolding e(2) by (auto simp: e(1) intro: view_cong)
  qed (use t inv in \<open>simp_all add: touch_def\<close>)
  then show "shard_inv p st' s'" "frame st s st' s'" "view st' s' = view st s" "data s' = data s" "ssize s' = ssize s"
    "lruOrder st' s' = (if p = LRU then a # remove1 a (lruOrder st s) else lruOrder st s)"
    "val (items st' a) = val (items st a)" "expireTime (items st' a) = expireTime (items st a)"
    "frequency (items st' a) = (if p = LFU \<or> p = AdmissionLFU then frequency (items st a) + 1 else frequency (items st a))"
    by blast+
qed

lemma updateItem_spec:
  assumes inv: "shard_inv p st s" and k: "mget (data s) k = Some a" and t: "updateItem p now v e a st s = (st', s')"
  shows "shard_inv p st' s'" "frame st s st' s'" "view st' s' = (view st s)(k \<mapsto> (v, e))" "data s' = data s"
    "ssize s' = ssize s" "lruOrder st' s' = (if p = LRU then a # remove1 a (lruOrder st s) else lruOrder st s)"
proof -
  let ?u = "setItem a (expireTime_update (\<lambda>_. e)) (setItem a (lastAccess_update (\<lambda>_. now)) (setItem a (val_update (\<lambda>_. v)) st))"
  have fu: "frequency (items ?u x) = frequency (items st x)" for x by simp
  have "policy_ok p ?u (s\<lparr>lfu := lfu s\<rparr>)" using policy_ok_frequency[OF shard_invD(3)[OF inv] fu] by simp
  note U = shard_inv_write[OF inv k _ _ _ _ _ _ this, simplified]
  have uv: "view ?u s = (view st s)(k \<mapsto> (v, e))" by (rule view_put[OF inv k]) simp_all
  have "shard_inv p st' s' \<and> frame st s st' s' \<and> view st' s' = (view st s)(k \<mapsto> (v, e)) \<and> data s' = data s \<and>
    ssize s' = ssize s \<and> lruOrder st' s' = (if p = LRU then a # remove1 a (lruOrder st s) else lruOrder st s)"
  proof (cases p)
    case LRU
    have a: "a \<in> set (lruOrder ?u s)" using shard_inv_mget(1)[OF U(1) k] .
    have e: "st' = moveToLRUHead ?u s a" "s' = s" using t LRU by (auto simp: updateItem_def Let_def)
    have "view st' s = view ?u s" unfolding e(1) by (rule view_cong) simp_all
    then show ?thesis
      using moveToLRUHead_spec[OF U(1) a] frame_trans[OF U(3)] LRU unfolding e U(2) uv[symmetric] by simp
  next
    case LFU
    from U(1) have i: "shard_inv LFU ?u s" by (simp add: LFU)
    obtain l where l: "lfu s = Some l" "lfu_inv l"
      "lfu_freq l = (\<lambda>a. if a \<in> snd ` set (data s) then Some (frequency (items ?u a)) else None)"
      using lfu_of_inv[OF i] .
    note R = lfu_remove_correct[OF l(2), of a]
    let ?w = "setItem a (frequency_update (\<lambda>_. 1)) ?u"
    have "lfu_freq (lfu_remove l a) a = None" by (simp add: R(2))
    then obtain l' where li: "lfu_add ?w (lfu_remove l a) a = (setItem a (frequency_update (\<lambda>_. 1)) ?w, l')"
      "lfu_inv l'" "lfu_freq l' = (lfu_freq (lfu_remove l a))(a \<mapsto> 1)"
      using lfu_add_correct[OF R(1)] by metis
    have f: "lfu_freq l' = (lfu_freq l)(a \<mapsto> 1)" by (simp add: li(3) R(2))
    have e: "st' = setItem a (frequency_update (\<lambda>_. 1)) ?w" "s' = s\<lparr>lfu := Some l'\<rparr>"
      using t LFU l(1) li(1) by (simp_all add: updateItem_def Let_def)
    have pol: "policy_ok p st' (s\<lparr>lfu := Some l'\<rparr>)"
      unfolding LFU by (rule policy_ok_set[OF shard_invD(3)[OF i] l(1) item_in_data[OF k] li(2) f]) (simp add: e(1))
    have v: "view st' s' = view ?u s" unfolding e by (simp only: view_counters) (rule view_cong; simp)
    show ?thesis using shard_inv_write[OF inv k _ _ _ _ _ _ pol] LFU
      unfolding v uv unfolding e(2) by (simp add: e(1))
  next
    case AdmissionLFU
    then have e: "st' = setItem a (frequency_update (\<lambda>_. 1)) ?u" "s' = s\<lparr>lfu := lfu s\<rparr>"
      using t by (simp_all add: updateItem_def Let_def)
    have pol: "policy_ok p st' (s\<lparr>lfu := lfu s\<rparr>)"
      using policy_ok_notLFU[OF shard_invD(3)[OF inv]] AdmissionLFU by simp
    have v: "view st' s' = view ?u s" unfolding e by (simp only: view_counters) (rule view_cong; simp)
    show ?thesis using shard_inv_write[OF inv k _ _ _ _ _ _ pol] AdmissionLFU
      unfolding v uv unfolding e(2) by (simp add: e(1))
  qed (use t U uv in \<open>simp_all add: updateItem_def Let_def\<close>)
  then show "shard_inv p st' s'" "frame st s st' s'" "view st' s' = (view st s)(k \<mapsto> (v, e))" "data s' = data s"
    "ssize s' = ssize s" "lruOrder st' s' = (if p = LRU then a # remove1 a (lruOrder st s) else lruOrder st s)"
    by blast+
qed

text \<open>An item from the pool is fresh for the shard.\<close>

lemma poolGet_fresh:
  assumes "shard_inv p st s" "poolGet pick st = (a, st1)"
  shows "a \<notin> footprint s" "a \<noteq> 0" "a < itemTop st1" "a \<notin> set (pool st1)" "pool_ok st1" "itemTop st \<le> itemTop st1"
    "a \<in> own st s" "\<And>u. u \<noteq> a \<Longrightarrow> items st1 u = items st u" "set (pool st1) \<subseteq> set (pool st)"
    "itemTop st1 = itemTop st \<or> a = itemTop st \<and> itemTop st1 = itemTop st + 1"
proof -
  note D = shard_invD[OF assms(1)]
  have P: "pool_ok st" using D(4) .
  have "a \<notin> footprint s \<and> a \<noteq> 0 \<and> a < itemTop st1 \<and> a \<notin> set (pool st1) \<and> pool_ok st1 \<and> itemTop st \<le> itemTop st1 \<and>
    a \<in> own st s \<and> (\<forall>u. u \<noteq> a \<longrightarrow> items st1 u = items st u) \<and> set (pool st1) \<subseteq> set (pool st) \<and>
    (itemTop st1 = itemTop st \<or> a = itemTop st \<and> itemTop st1 = itemTop st + 1)"
  proof (cases rule: poolGet_cases[OF P, of pick])
    case (1 b)
    then have e: "b = a" "st1 = st\<lparr>pool := remove1 a (pool st)\<rparr>" using assms(2) by auto
    have "set (remove1 a (pool st)) = set (pool st) - {a}" using P by (simp add: pool_ok_def)
    then show ?thesis using 1 D(5,6) P unfolding e by (auto simp: pool_ok_def own_def)
  next
    case 2
    then have e: "a = itemTop st" "st1 = st\<lparr>itemHeap := mput a zeroItem (itemHeap st), itemTop := a + 1\<rparr>" using assms(2) by auto
    have "itemTop st \<notin> footprint s" "itemTop st \<notin> set (pool st)" using D(5) P by (auto simp: pool_ok_def)
    then show ?thesis using P unfolding e by (auto simp: pool_ok_def own_def items_def)
  qed
  then show "a \<notin> footprint s" "a \<noteq> 0" "a < itemTop st1" "a \<notin> set (pool st1)" "pool_ok st1" "itemTop st \<le> itemTop st1"
    "a \<in> own st s" "\<And>u. u \<noteq> a \<Longrightarrow> items st1 u = items st u" "set (pool st1) \<subseteq> set (pool st)"
    "itemTop st1 = itemTop st \<or> a = itemTop st \<and> itemTop st1 = itemTop st + 1" by auto
qed

lemma addToLRUHead_outside:
  assumes "lru_rep st s xs" "u \<notin> set (head s # tail s # xs)" "u \<noteq> x"
  shows "items (addToLRUHead st s x) u = items st u"
proof -
  have "next (items st (head s)) \<in> set (tail s # xs)" using lru_head_next[OF assms(1)] by (cases xs) auto
  then have "u \<noteq> next (items st (head s))" "u \<noteq> head s" using assms(2) by auto
  then show ?thesis using assms(3) by (simp add: addToLRUHead_def Let_def)
qed

lemma lru_rep_cong_on:
  assumes "lru_rep st s xs" "\<And>u. u \<in> set (head s # tail s # xs) \<Longrightarrow> items st' u = items st u"
  shows "lru_rep st' s xs"
proof -
  have "chain (next \<circ> items st') (prev \<circ> items st') (head s # xs @ [tail s])"
  proof (rule chain_cong)
    show "chain (next \<circ> items st) (prev \<circ> items st) (head s # xs @ [tail s])" using assms(1) by (simp add: lru_rep_def)
  qed (use assms(2) in \<open>auto simp: butlast_append\<close>)
  then show ?thesis using assms by (simp add: lru_rep_def)
qed

lemma filled_simps [simp]:
  "u \<noteq> a \<Longrightarrow> items (filled now k v e a st) u = items st u" "itemTop (filled now k v e a st) = itemTop st"
  "pool (filled now k v e a st) = pool st" "val (items (filled now k v e a st) a) = v"
  "expireTime (items (filled now k v e a st) a) = e" "key (items (filled now k v e a st) a) = Some k"
  "frequency (items (filled now k v e a st) a) = 1"
  by (simp_all add: filled_def)

lemma link_new:
  fixes st :: "('k, 'v::zero) store" and now e :: int and v :: 'v and l' :: "lfuList option"
  assumes inv: "shard_inv p st s" and g: "poolGet pick st = (a, st1)" and k: "mget (data s) k = None"
  defines "st2 \<equiv> addToLRUHead (filled now k v e a st1) s a"
    and "s2 \<equiv> s\<lparr>data := mput k a (data s), lfu := l', ssize := ssize s + 1\<rparr>"
  assumes st': "\<And>u. val (items st' u) = val (items st2 u)"
      "\<And>u. expireTime (items st' u) = expireTime (items st2 u)" "\<And>u. next (items st' u) = next (items st2 u)"
      "\<And>u. prev (items st' u) = prev (items st2 u)" "\<And>u. key (items st' u) = key (items st2 u)"
      "\<And>u. u \<noteq> a \<Longrightarrow> items st' u = items st2 u"
      "itemTop st' = itemTop st2" "pool st' = pool st2"
    and pol: "policy_ok p st' s2"
  shows "shard_inv p st' s2" "lruOrder st' s2 = a # lruOrder st s" "frame st s st' s2"
    "view st' s2 = (view st s)(k \<mapsto> (v, e))"
proof -
  note D = shard_invD[OF inv] and G = poolGet_fresh[OF inv g]
  let ?xs = "lruOrder st s" and ?f = "filled now k v e a st1"
  have fp: "set (head s # tail s # ?xs) = footprint s" using D(2) by (simp add: footprint_def map_ok_def)
  have fi: "items ?f u = items st u" if "u \<noteq> a" for u using that G(8) by simp
  have na: "a \<notin> set (head s # tail s # ?xs)" unfolding fp by (rule G(1))
  have r: "lru_rep ?f s ?xs" by (rule lru_rep_cong_on[OF D(1)], rule fi) (use na in metis)
  have "lru_rep st2 s (a # ?xs)" unfolding st2_def by (rule lru_add[OF r na G(2)])
  then have "lru_rep st' s (a # ?xs)" by (simp only: lru_rep_cong[of st' st2, OF st'(3,4)])
  then have lr: "lru_rep st' s2 (a # ?xs)" by (simp add: lru_rep_def s2_def)
  have key: "key (items st' u) = (if u = a then Some k else key (items st u))" for u
    using st'(5) fi by (simp add: st2_def)
  have im: "snd ` set (mput k a (data s)) = insert a (set ?xs)"
    using D(2) k by (auto simp: map_ok_def set_mput map_of_eq_None_iff image_iff) force+
  have mo: "map_ok st' s2 (a # ?xs)"
    using D(2) k im G(1) item_in_footprint[of s] length_mput_new[OF k]
    by (auto simp: map_ok_def s2_def key mget_mput wf_mput split: if_splits)
  have fs: "footprint s2 = insert a (footprint s)"
    using im D(2) by (auto simp: footprint_def s2_def map_ok_def)
  have po: "pool_ok st'" using G(5) st'(7,8) by (simp add: st2_def pool_ok_def)
  have "\<forall>x \<in> footprint s2. x < itemTop st'" "footprint s2 \<inter> set (pool st') = {}"
    using D(5,6) G fs st'(7,8) by (auto simp: st2_def)
  from shard_invI[OF lr mo pol po this] show "shard_inv p st' s2" "lruOrder st' s2 = a # ?xs" .
  have "items st' u = items st u" if "u \<notin> own st s" for u
  proof -
    have "u \<noteq> a" using that G(7) by auto
    moreover have "u \<notin> set (head s # tail s # ?xs)" using that fp by (auto simp: own_def)
    ultimately show ?thesis using st'(6) addToLRUHead_outside[OF r] fi by (simp add: st2_def)
  qed
  moreover have "own st' s2 \<subseteq> own st s"
    using G(6,7,9) fs st'(7,8) by (auto simp: own_def st2_def)
  ultimately show "frame st s st' s2" using G(6) st'(7) by (simp add: frame_def st2_def)
  show "view st' s2 = (view st s)(k \<mapsto> (v, e))"
  proof
    fix j
    show "view st' s2 j = ((view st s)(k \<mapsto> (v, e))) j"
    proof (cases "mget (data s) j")
      case (Some b)
      then have "b \<noteq> a" using item_in_footprint G(1) by metis
      then show ?thesis using Some k st'(1,2) fi by (auto simp: view_def s2_def mget_mput st2_def)
    qed (use st'(1,2) in \<open>auto simp: view_def s2_def mget_mput st2_def\<close>)
  qed
qed

lemma insertItem_eq:
  "insertItem ch p now k v e st s =
     (let (a, st1) = poolGet (poolPick ch) st;
          st2 = addToLRUHead (filled now k v e a st1) s a;
          s2 = s\<lparr>data := mput k a (data s)\<rparr>;
          (st3, s3) = (if p = LFU
             then (case lfu s of None \<Rightarrow> (st2, s2)
                   | Some l \<Rightarrow> let (st, l) = lfu_add st2 l a in (st, s2\<lparr>lfu := Some l\<rparr>))
             else (st2, s2))
      in (st3, s3\<lparr>ssize := ssize s + 1\<rparr>))"
  by (auto simp: insertItem_def filled_def addToLRUHead_def Let_def split: prod.splits option.splits)

lemma insertItem_spec:
  assumes inv: "shard_inv p st s" and k: "mget (data s) k = None" and t: "insertItem ch p now k v e st s = (st', s')"
  shows "shard_inv p st' s'" "frame st s st' s'" "view st' s' = (view st s)(k \<mapsto> (v, e))" "ssize s' = ssize s + 1"
    "lruOrder st' s' = fst (poolGet (poolPick ch) st) # lruOrder st s"
    "data s' = mput k (fst (poolGet (poolPick ch) st)) (data s)" "admission s' = admission s"
proof -
  obtain a st1 where g: "poolGet (poolPick ch) st = (a, st1)" by fastforce
  let ?st2 = "addToLRUHead (filled now k v e a st1) s a"
  note G = poolGet_fresh[OF inv g]
  have fr: "frequency (items ?st2 u) = (if u = a then 1 else frequency (items st u))" for u
    using G(8) by simp
  have im: "snd ` set (mput k a (data s)) = insert a (snd ` set (data s))"
    using shard_invD(2)[OF inv] k by (auto simp: map_ok_def set_mput map_of_eq_None_iff image_iff) force+
  have na: "a \<notin> snd ` set (data s)" using G(1) by (simp add: footprint_def)
  have "shard_inv p st' s' \<and> frame st s st' s' \<and> view st' s' = (view st s)(k \<mapsto> (v, e)) \<and> ssize s' = ssize s + 1 \<and>
    lruOrder st' s' = a # lruOrder st s \<and> data s' = mput k a (data s) \<and> admission s' = admission s"
  proof (cases "p = LFU")
    case True
    from inv have i: "shard_inv LFU st s" by (simp add: True)
    obtain l where l: "lfu s = Some l" "lfu_inv l"
      "lfu_freq l = (\<lambda>a. if a \<in> snd ` set (data s) then Some (frequency (items st a)) else None)"
      using lfu_of_inv[OF i] .
    have "lfu_freq l a = None" using na l(3) by simp
    then obtain l' where li: "lfu_add ?st2 l a = (setItem a (frequency_update (\<lambda>_. 1)) ?st2, l')"
      "lfu_inv l'" "lfu_freq l' = (lfu_freq l)(a \<mapsto> 1)"
      by (rule lfu_add_correct[OF l(2)])
    let ?s = "s\<lparr>data := mput k a (data s), lfu := Some l', ssize := ssize s + 1\<rparr>"
    have e: "st' = setItem a (frequency_update (\<lambda>_. 1)) ?st2" "s' = ?s"
      using t True g l(1) li(1) by (auto simp: insertItem_eq Let_def)
    have pol: "policy_ok p st' ?s"
      using shard_invD(3)[OF i] l(3) li(2,3) im G(8) by (auto simp: True policy_ok_def e(1) l(1) fun_eq_iff)
    have x: "val (items st' u) = val (items ?st2 u)"
      "expireTime (items st' u) = expireTime (items ?st2 u)" "next (items st' u) = next (items ?st2 u)"
      "prev (items st' u) = prev (items ?st2 u)" "key (items st' u) = key (items ?st2 u)"
      "u \<noteq> a \<Longrightarrow> items st' u = items ?st2 u" "itemTop st' = itemTop ?st2" "pool st' = pool ?st2" for u
      by (cases "u = a"; simp add: e(1))+
    show ?thesis unfolding e(2) using link_new[OF inv g k x pol] by simp
  next
    case False
    have "lfu s = None" using lfu_None[OF inv False] .
    then have e: "st' = ?st2" "s' = s\<lparr>data := mput k a (data s), lfu := lfu s, ssize := ssize s + 1\<rparr>"
      using t False g by (auto simp: insertItem_eq Let_def)
    have pol: "policy_ok p st' (s\<lparr>data := mput k a (data s), lfu := lfu s, ssize := ssize s + 1\<rparr>)"
      using shard_invD(3)[OF inv] False \<open>lfu s = None\<close> by (simp add: policy_ok_def)
    have x: "val (items st' u) = val (items ?st2 u)"
      "expireTime (items st' u) = expireTime (items ?st2 u)" "next (items st' u) = next (items ?st2 u)"
      "prev (items st' u) = prev (items ?st2 u)" "key (items st' u) = key (items ?st2 u)"
      "u \<noteq> a \<Longrightarrow> items st' u = items ?st2 u" "itemTop st' = itemTop ?st2" "pool st' = pool ?st2" for u
      by (simp_all add: e(1))
    show ?thesis unfolding e(2) using link_new[OF inv g k x pol] by simp
  qed
  then show "shard_inv p st' s'" "frame st s st' s'" "view st' s' = (view st s)(k \<mapsto> (v, e))" "ssize s' = ssize s + 1"
    "lruOrder st' s' = fst (poolGet (poolPick ch) st) # lruOrder st s"
    "data s' = mput k (fst (poolGet (poolPick ch) st)) (data s)" "admission s' = admission s" by (simp_all add: g)
qed

lemma shard_inv_ssize: "shard_inv p st s \<Longrightarrow> ssize s = int (length (data s))"
  by (simp add: shard_inv_def map_ok_def)

lemma makeRoom_free:
  "\<not> (cap > 0 \<and> ssize s \<ge> cap) \<Longrightarrow> makeRoom ch t cfg e cap kh st s = (True, st, s)"
  by (auto simp: makeRoom_def)

lemma makeRoom_evict:
  assumes "cap > 0 \<and> ssize s \<ge> cap" "Policy cfg \<noteq> AdmissionLFU \<or> admission s = None"
  shows "makeRoom ch t cfg e cap kh st s = (let (_, st, s) = evict e ch (StatsEnabled cfg) st s in (True, st, s))"
  using assms by (auto simp: makeRoom_def split: EvictionPolicy.splits option.splits)

lemma makeRoom_admission:
  assumes "cap > 0 \<and> ssize s \<ge> cap" "Policy cfg = AdmissionLFU" "admission s = Some aaf"
  shows "makeRoom ch t cfg (createEvictor (Policy cfg)) cap kh st s =
    evictWithAdmission t defaultAdmissionLFUSampleSize ch (StatsEnabled cfg) aaf kh st s"
  using assms by (simp add: makeRoom_def createEvictor_def)

lemma makeRoom_spec:
  assumes inv: "shard_inv (Policy cfg) st s" and ch: "choices_ok ch"
    and m: "makeRoom ch t cfg (createEvictor (Policy cfg)) cap kh st s = (admit, st', s')"
  shows "shard_inv (Policy cfg) st' s'" "frame st s st' s'" "view st' s' \<subseteq>\<^sub>m view st s" "set (data s') \<subseteq> set (data s)"
    "ssize s' \<le> ssize s" "admit \<Longrightarrow> 0 < cap \<Longrightarrow> ssize s \<le> cap \<Longrightarrow> ssize s' < cap"
    "\<not> admit \<Longrightarrow> view st' s' = view st s \<and> lruOrder st' s' = lruOrder st s"
proof -
  have "shard_inv (Policy cfg) st' s' \<and> frame st s st' s' \<and> view st' s' \<subseteq>\<^sub>m view st s \<and> set (data s') \<subseteq> set (data s) \<and>
    ssize s' \<le> ssize s \<and> (admit \<longrightarrow> 0 < cap \<longrightarrow> ssize s \<le> cap \<longrightarrow> ssize s' < cap) \<and>
    (\<not> admit \<longrightarrow> view st' s' = view st s \<and> lruOrder st' s' = lruOrder st s)"
  proof (cases "cap > 0 \<and> ssize s \<ge> cap")
    case False
    then show ?thesis using m inv by (auto simp: makeRoom_free)
  next
    case True
    then have ne: "data s \<noteq> []" using shard_inv_ssize[OF inv] by auto
    show ?thesis
    proof (cases "Policy cfg \<noteq> AdmissionLFU \<or> admission s = None")
      case True': True
      obtain r where r: "evict (createEvictor (Policy cfg)) ch (StatsEnabled cfg) st s = (r, st', s')" "admit"
        using m by (auto simp: makeRoom_evict[OF True True'] split: prod.splits)
      note E = ev.ev_size[OF inv ch r(1)]
      show ?thesis using E r(2) True by auto
    next
      case False
      then obtain aaf where a: "Policy cfg = AdmissionLFU" "admission s = Some aaf" by auto
      have e: "evictWithAdmission t defaultAdmissionLFUSampleSize ch (StatsEnabled cfg) aaf kh st s = (admit, st', s')"
        using m unfolding makeRoom_admission[OF True a] .
      have nl: "Policy cfg \<noteq> LFU" using a by simp
      note E = evictWithAdmission_spec[OF inv nl ch ne a(2) e]
      show ?thesis
      proof (cases admit)
        case True'': True
        then obtain k where k: "mget (data s) k = Some (pickVictim ch defaultAdmissionLFUSampleSize st s)"
          "data s' = mdel k (data s)" "view st' s' = (view st s)(k := None)" using E(4) by blast
        have "wf_map (data s)" using shard_invD(2)[OF inv] by (simp add: map_ok_def)
        from length_mdel[OF this k(1)] have "ssize s' = ssize s - 1"
          using shard_inv_ssize[OF inv] shard_inv_ssize[OF E(1)] k(2) by simp
        then show ?thesis using E(1,2) k True True'' by (auto simp: map_le_def set_mdel)
      next
        case False
        then show ?thesis using E(1,2,5) by auto
      qed
    qed
  qed
  then show "shard_inv (Policy cfg) st' s'" "frame st s st' s'" "view st' s' \<subseteq>\<^sub>m view st s" "set (data s') \<subseteq> set (data s)"
    "ssize s' \<le> ssize s" "admit \<Longrightarrow> 0 < cap \<Longrightarrow> ssize s \<le> cap \<Longrightarrow> ssize s' < cap"
    "\<not> admit \<Longrightarrow> view st' s' = view st s \<and> lruOrder st' s' = lruOrder st s" by blast+
qed

lemma initLRU_spec:
  assumes "pool_ok st" "initLRU st s = (st', s')"
  shows "lru_rep st' s' []" "s' = s\<lparr>head := itemTop st, tail := itemTop st + 1\<rparr>" "itemTop st' = itemTop st + 2"
    "pool st' = pool st" "\<And>u. u < itemTop st \<Longrightarrow> items st' u = items st u" "pool_ok st'"
proof -
  have e: "st' = setItem (itemTop st + 1) (prev_update (\<lambda>_. itemTop st)) (setItem (itemTop st) (next_update (\<lambda>_. itemTop st + 1))
      (snd (newItem (snd (newItem st)))))" "s' = s\<lparr>head := itemTop st, tail := itemTop st + 1\<rparr>"
    using assms(2) by (auto simp: initLRU_def newItem_def Let_def)
  show "s' = s\<lparr>head := itemTop st, tail := itemTop st + 1\<rparr>" using e(2) .
  have i: "items (snd (newItem (snd (newItem st)))) u = (if u = itemTop st \<or> u = itemTop st + 1 then zeroItem else items st u)" for u
    by (simp add: newItem_def items_def)
  show "itemTop st' = itemTop st + 2" "pool st' = pool st" by (simp_all add: e(1) newItem_def)
  show "\<And>u. u < itemTop st \<Longrightarrow> items st' u = items st u" by (simp add: e(1) i)
  show "pool_ok st'" using assms(1) by (auto simp: e(1) pool_ok_def newItem_def)
  show "lru_rep st' s' []"
    using assms(1) by (simp add: e lru_rep_def chain_def i zeroItem_def pool_ok_def)
qed

lemma pool_fold: "items (fold (\<lambda>e st. poolPut (snd e) st) es st) = items st"
  "itemTop (fold (\<lambda>e st. poolPut (snd e) st) es st) = itemTop st"
  "pool (fold (\<lambda>e st. poolPut (snd e) st) es st) = rev (map snd es) @ pool st"
  by (induction es arbitrary: st) simp_all

lemma empty_shard_inv:
  assumes "lru_rep st s []" "data s = []" "ssize s = 0" "pool_ok st" "head s < itemTop st" "tail s < itemTop st"
    "head s \<notin> set (pool st)" "tail s \<notin> set (pool st)"
    "case lfu s of None \<Rightarrow> p \<noteq> LFU | Some l \<Rightarrow> p = LFU \<and> l = newLFUList" "\<forall>f. admission s = Some f \<longrightarrow> aaf_wf f"
  shows "shard_inv p st s" "lruOrder st s = []"
proof -
  have "map_ok st s []" using assms(2,3) by (simp add: map_ok_def)
  moreover have "policy_ok p st s" using assms(2,9,10) lfu_new by (auto simp: policy_ok_def split: option.splits)
  moreover have "\<forall>a \<in> footprint s. a < itemTop st" "footprint s \<inter> set (pool st) = {}"
    using assms(2,5-8) by (simp_all add: footprint_def)
  ultimately show "shard_inv p st s" "lruOrder st s = []" using assms(1,4) shard_invI[of st s "[]" p] by blast+
qed

lemma clearShard_spec:
  assumes inv: "shard_inv p st s" and ch: "choices_ok ch" and t: "clearShard ch p st s = (st', s')"
  shows "shard_inv p st' s'" "frame st s st' s'" "view st' s' = Map.empty" "ssize s' = 0" "data s' = []"
proof -
  note D = shard_invD[OF inv]
  let ?st = "fold (\<lambda>e st. poolPut (snd e) st) (mapOrder ch (data s)) st"
  have io: "mset (mapOrder ch (data s)) = mset (data s)" using ch by (simp add: choices_ok_def iter_ok_mset)
  have so: "set (mapOrder ch (data s)) = set (data s)" using io by (rule mset_eq_setD)
  have "length (data s) = card (snd ` set (data s))"
    using map_ok_length[OF D(2)] D(1,2) by (auto simp: lru_rep_def map_ok_def distinct_card)
  then have "distinct (map snd (data s))" by (simp add: card_distinct)
  then have dm: "distinct (map snd (mapOrder ch (data s)))" using io by (metis mset_map mset_eq_imp_distinct_iff)
  have po: "pool_ok ?st"
    using D(4-6) dm lru_rep_nz[OF D(1)] D(2) by (auto simp: pool_ok_def pool_fold so footprint_def map_ok_def) fastforce+
  obtain st1 s1 where i: "initLRU ?st (s\<lparr>data := []\<rparr>) = (st1, s1)" by fastforce
  note I = initLRU_spec[OF po i]
  have e: "st' = st1" "data s' = []" "ssize s' = 0" "head s' = head s1" "tail s' = tail s1"
    "lfu s' = (if p = LFU then Some newLFUList else lfu s)"
    "admission s' = (if p = AdmissionLFU then map_option aaf_Reset (admission s) else admission s)"
    using t i I(2) by (auto simp: clearShard_def Let_def)
  have lr: "lru_rep st' s' []" using I(1) e(1,4,5) by (simp add: lru_rep_def)
  have pl: "set (pool st1) = snd ` set (data s) \<union> set (pool st)" using I(4) so by (auto simp: pool_fold)
  have fresh: "itemTop st \<notin> set (pool st1)" "itemTop st + 1 \<notin> set (pool st1)"
    using pl D(4,5) by (auto simp: pool_ok_def footprint_def)
  have "lfu s = None" if "p \<noteq> LFU" using lfu_None[OF inv that] .
  then show "shard_inv p st' s'"
    using lr e I po fresh D(3) by (intro empty_shard_inv) (auto simp: pool_fold policy_ok_def split: option.splits)
  show "view st' s' = Map.empty" "ssize s' = 0" "data s' = []" using e by (auto simp: view_def)
  show "frame st s st' s'"
    using e I pl by (auto simp: frame_def own_def footprint_def pool_fold)
qed

end
