(* ===== verification/Cache_Correct.thy ===== *)
theory Cache_Correct
  imports Cache
begin

unbundle bit_operations_syntax

text \<open>
  What the operations of \<open>cache.go\<close> do to a whole cache. \<open>cache_inv\<close> is the invariant of a cache: a
  power-of-two number of well-formed shards that share no item, every key in the shard its hash
  selects, and no shard above its capacity. \<open>cview\<close> abstracts a cache to a finite map from keys to a
  value and an expiry. Each operation is specified on that map, and \<open>reach\<close> closes a cache under
  every operation, in any order.
\<close>

text \<open>Shards of one cache: each well-formed, and no two of them use a common item.\<close>

definition disj_shards :: "'k shard \<Rightarrow> 'k shard \<Rightarrow> bool" where
  "disj_shards s s' \<longleftrightarrow> footprint s \<inter> footprint s' = {}"

definition shards_inv :: "EvictionPolicy \<Rightarrow> ('k, 'v::zero) store \<Rightarrow> 'k shard list \<Rightarrow> bool" where
  "shards_inv p st ss \<longleftrightarrow> (\<forall>s \<in> set ss. shard_inv p st s) \<and> sorted_wrt disj_shards ss"

definition cache_inv :: "('k, 'v::zero) cache \<Rightarrow> bool" where
  "cache_inv c \<longleftrightarrow>
     (\<exists>n\<le>62. length (shards c) = 2 ^ n \<and> shardMask c = mask n) \<and>
     evictr c = createEvictor (Policy (config c)) \<and> shards_inv (Policy (config c)) (store c) (shards c) \<and>
     (\<forall>i < length (shards c). \<forall>k \<in> fst ` set (data (shards c ! i)). getShard c k = i) \<and>
     (perShardCap c > 0 \<longrightarrow> (\<forall>s \<in> set (shards c). ssize s \<le> perShardCap c))"

text \<open>The contents of a cache: what each key maps to in the shard it belongs to.\<close>

definition cview :: "('k, 'v::zero) cache \<Rightarrow> 'k \<rightharpoonup> 'v \<times> int" where
  "cview c k = view (store c) (shards c ! getShard c k) k"

definition alive :: "int \<Rightarrow> int \<Rightarrow> bool" where
  "alive now e \<longleftrightarrow> \<not> (e > 0 \<and> now > e)"

text \<open>The fields that never change after construction.\<close>

definition same_cache :: "('k, 'v) cache \<Rightarrow> ('k, 'v) cache \<Rightarrow> bool" where
  "same_cache c c' \<longleftrightarrow> config c' = config c \<and> shardMask c' = shardMask c \<and> hasher c' = hasher c \<and>
     perShardCap c' = perShardCap c \<and> evictr c' = evictr c"

text \<open>Whether a key's shard is full.\<close>

definition fullFor :: "('k, 'v) cache \<Rightarrow> 'k \<Rightarrow> bool" where
  "fullFor c k \<longleftrightarrow> perShardCap c > 0 \<and> ssize (shards c ! getShard c k) \<ge> perShardCap c"

text \<open>A per-shard operation, run over all shards of a cache.\<close>

definition shard_op ::
  "EvictionPolicy \<Rightarrow> (('v \<times> int) option \<Rightarrow> ('v \<times> int) option) \<Rightarrow>
   (('k, 'v::zero) store \<Rightarrow> 'k shard \<Rightarrow> ('k, 'v) store \<times> 'k shard) \<Rightarrow> bool" where
  "shard_op p g f \<longleftrightarrow> (\<forall>st s st' s'. shard_inv p st s \<longrightarrow> f st s = (st', s') \<longrightarrow>
     shard_inv p st' s' \<and> frame st s st' s' \<and> fst ` set (data s') \<subseteq> fst ` set (data s) \<and> ssize s' \<le> ssize s \<and>
     (\<forall>k. view st' s' k = g (view st s k)))"

definition dropDead :: "int \<Rightarrow> ('v \<times> int) option \<Rightarrow> ('v \<times> int) option" where
  "dropDead now x = (case x of Some (v, e) \<Rightarrow> if alive now e then Some (v, e) else None | None \<Rightarrow> None)"

text \<open>
  Configurations whose sizes fit the arithmetic of \<open>New\<close>: ten counters per entry still is an
  \<open>int64\<close>, and the shard count can be rounded up to a power of two.
\<close>

definition config_ok :: "Config \<Rightarrow> bool" where
  "config_ok cfg \<longleftrightarrow> MaxSize cfg \<le> 2 ^ 58 \<and> ShardCount cfg \<le> 2 ^ 62"

definition fresh_shard :: "EvictionPolicy \<Rightarrow> ('k, 'v::zero) store \<Rightarrow> ('k, 'v) store \<Rightarrow> 'k shard \<Rightarrow> bool" where
  "fresh_shard p st st' s \<longleftrightarrow> shard_inv p st' s \<and> footprint s \<subseteq> {itemTop st..<itemTop st'} \<and> data s = [] \<and> ssize s = 0"

definition good :: "('k, 'v::zero) cache \<Rightarrow> ('k, 'v) cache \<Rightarrow> bool" where
  "good c0 c \<longleftrightarrow> cache_inv c \<and> same_cache c0 c"

text \<open>
  The states a cache reaches from \<open>c0\<close>: every public operation and every turn of the cleanup worker,
  in any order, with any clock, map order and pool. The lock window of a \<open>get\<close> is filled by any
  such run.
\<close>

inductive reach :: "('k, 'v::zero) cache \<Rightarrow> ('k, 'v) cache \<Rightarrow> bool" for c0 where
  reach_refl: "reach c0 c0"
| reach_get: "reach c0 c \<Longrightarrow> (window = (\<lambda>x. x) \<or> window = (\<lambda>_. c2) \<and> reach c0 c2) \<Longrightarrow> reach c0 (snd (cache_get window t c k))"
| reach_set: "reach c0 c \<Longrightarrow> choices_ok ch \<Longrightarrow> reach c0 (snd (Set ch t c k v ttl))"
| reach_delete: "reach c0 c \<Longrightarrow> reach c0 (snd (Delete c k))"
| reach_exists: "reach c0 c \<Longrightarrow> reach c0 (snd (Exists t c k))"
| reach_clear: "reach c0 c \<Longrightarrow> choices_ok ch \<Longrightarrow> reach c0 (Clear ch c)"
| reach_close: "reach c0 c \<Longrightarrow> choices_ok ch \<Longrightarrow> reach c0 (snd (Close ch c))"
| reach_trigger: "reach c0 c \<Longrightarrow> choices_ok ch \<Longrightarrow> reach c0 (TriggerCleanup ch t c)"
| reach_worker: "reach c0 c \<Longrightarrow> choices_ok ch \<Longrightarrow> reach c0 (snd (cleanupWorker ch t e c))"

text \<open>What each policy guarantees of the item it evicts from a shard.\<close>

definition victim_ok :: "'k choices \<Rightarrow> EvictionPolicy \<Rightarrow> ('k, 'v::zero) store \<Rightarrow> 'k shard \<Rightarrow> addr \<Rightarrow> bool" where
  "victim_ok ch p st s a =
     (case p of
        LRU \<Rightarrow> a = last (lruOrder st s)
      | FIFO \<Rightarrow> a = last (lruOrder st s)
      | LFU \<Rightarrow> (\<forall>e \<in> set (data s). frequency (items st a) \<le> frequency (items st (snd e)))
      | _ \<Rightarrow> (let sample = snd ` set (take (sampleCount defaultAdmissionLFUSampleSize (length (data s))) (mapOrder ch (data s)))
              in a \<in> sample \<and> (\<forall>b \<in> sample. rank_le st a b)))"

text \<open>The keys of a shard in recency order depend only on its map and the order of its items.\<close>

definition keyIn :: "('k, addr) gomap \<Rightarrow> addr \<Rightarrow> 'k" where
  "keyIn m a = fst (hd (filter (\<lambda>e. snd e = a) m))"

text \<open>The recency order of a key's shard, most recent first, under each operation.\<close>

definition recency :: "('k, 'v::zero) cache \<Rightarrow> 'k \<Rightarrow> 'k list" where
  "recency c k = lruKeys (store c) (shards c ! getShard c k)"

text \<open>
  The specification of a cache as a map from keys to values with an expiry: what an operation may
  answer and how it may change the map. A write of a new key may push out one other entry; under
  AdmissionLFU it may also be turned away.
\<close>

datatype ('k, 'v) cacheOp =
    OpGet "nat \<Rightarrow> int" 'k
  | OpSet "'k choices" "nat \<Rightarrow> int" 'k 'v int
  | OpDelete 'k
  | OpExists "nat \<Rightarrow> int" 'k
  | OpClear "'k choices"
  | OpCleanup "'k choices" "nat \<Rightarrow> int"

datatype 'v cacheResult = RValue 'v bool | RError "goError option" | RBool bool | RUnit

fun runOp :: "('k, 'v::zero) cacheOp \<Rightarrow> ('k, 'v) cache \<Rightarrow> 'v cacheResult \<times> ('k, 'v) cache" where
  "runOp (OpGet t k) c = (let ((v, ok), c) = Get (\<lambda>x. x) (\<lambda>x. x) t c k in (RValue v ok, c))"
| "runOp (OpSet ch t k v ttl) c = (let (err, c) = Set ch t c k v ttl in (RError err, c))"
| "runOp (OpDelete k) c = (let (r, c) = Delete c k in (RBool r, c))"
| "runOp (OpExists t k) c = (let (r, c) = Exists t c k in (RBool r, c))"
| "runOp (OpClear ch) c = (RUnit, Clear ch c)"
| "runOp (OpCleanup ch t) c = (RUnit, cleanup ch t c)"

fun opOk :: "('k, 'v) cacheOp \<Rightarrow> bool" where
  "opOk (OpGet t k) \<longleftrightarrow> t 0 \<le> t 1"
| "opOk (OpSet ch t k v ttl) \<longleftrightarrow> choices_ok ch"
| "opOk (OpClear ch) \<longleftrightarrow> choices_ok ch"
| "opOk (OpCleanup ch t) \<longleftrightarrow> choices_ok ch"
| "opOk _ \<longleftrightarrow> True"

fun opSpec ::
  "Config \<Rightarrow> ('k, 'v::zero) cacheOp \<Rightarrow> ('k \<rightharpoonup> 'v \<times> int) \<Rightarrow> 'v cacheResult \<Rightarrow> ('k \<rightharpoonup> 'v \<times> int) \<Rightarrow> bool" where
  "opSpec cfg (OpGet t k) m r m' \<longleftrightarrow>
     (case dropDead (t 0) (m k) of
        Some (v, e) \<Rightarrow> r = RValue v True \<and> m' = m
      | None \<Rightarrow> r = RValue 0 False \<and> m' = m(k := None))"
| "opSpec cfg (OpSet ch t k v ttl) m r m' \<longleftrightarrow> r = RError None \<and>
     (m' = m(k \<mapsto> (v, setExpire cfg (t 0) ttl)) \<or>
      m k = None \<and> (\<exists>j. m j \<noteq> None \<and> m' = m(j := None, k \<mapsto> (v, setExpire cfg (t 0) ttl))) \<or>
      m k = None \<and> Policy cfg = AdmissionLFU \<and> m' = m)"
| "opSpec cfg (OpDelete k) m r m' \<longleftrightarrow> r = RBool (m k \<noteq> None) \<and> m' = m(k := None)"
| "opSpec cfg (OpExists t k) m r m' \<longleftrightarrow>
     r = RBool (dropDead (t 0) (m k) \<noteq> None) \<and> m' = (if dropDead (t 0) (m k) = None then m(k := None) else m)"
| "opSpec cfg (OpClear ch) m r m' \<longleftrightarrow> r = RUnit \<and> m' = Map.empty"
| "opSpec cfg (OpCleanup ch t) m r m' \<longleftrightarrow> r = RUnit \<and> m' = (\<lambda>k. dropDead (t 0) (m k))"

section \<open>Lemmas\<close>

lemma shard_inv_frame:
  assumes inv: "shard_inv p st s" and it: "\<And>u. u \<in> footprint s \<Longrightarrow> items st' u = items st u"
    and t: "itemTop st \<le> itemTop st'" "pool_ok st'" "footprint s \<inter> set (pool st') = {}"
  shows "shard_inv p st' s" "view st' s = view st s" "lruOrder st' s = lruOrder st s"
proof -
  note D = shard_invD[OF inv]
  have fp: "set (head s # tail s # lruOrder st s) = footprint s" using D(2) by (simp add: footprint_def map_ok_def)
  have "lru_rep st' s (lruOrder st s)" by (rule lru_rep_cong_on[OF D(1)]) (metis it fp)
  moreover have "map_ok st' s (lruOrder st s)"
    using D(2) it item_in_footprint[of s] by (auto simp: map_ok_def)
  moreover have "policy_ok p st' s"
    using D(3) it by (auto simp: policy_ok_def footprint_def fun_eq_iff split: option.splits)
  moreover have "\<forall>a \<in> footprint s. a < itemTop st'" using D(5) t(1) by auto
  ultimately show "shard_inv p st' s" "lruOrder st' s = lruOrder st s"
    using t(2,3) shard_invI[of st' s "lruOrder st s" p] by blast+
  show "view st' s = view st s" using it item_in_footprint[of s] by (auto simp: view_def fun_eq_iff intro!: map_option_cong)
qed

lemma frame_other:
  assumes "shard_inv p st x" "footprint x \<inter> footprint s = {}" "frame st s st' s'" "pool_ok st'"
  shows "shard_inv p st' x" "view st' x = view st x" "lruOrder st' x = lruOrder st x" "footprint x \<inter> footprint s' = {}"
proof -
  note D = shard_invD[OF assms(1)]
  have o: "footprint x \<inter> own st s = {}" using D(5,6) assms(2) by (fastforce simp: own_def)
  moreover have "own st' s' \<subseteq> own st s" "itemTop st \<le> itemTop st'" using assms(3) by (auto simp: frame_def)
  ultimately have p: "footprint x \<inter> own st' s' = {}" by blast
  then show "footprint x \<inter> footprint s' = {}" by (auto simp: own_def)
  have "items st' u = items st u" if "u \<in> footprint x" for u using that o assms(3) by (auto simp: frame_def)
  moreover have "footprint x \<inter> set (pool st') = {}" using p by (auto simp: own_def)
  ultimately show "shard_inv p st' x" "view st' x = view st x" "lruOrder st' x = lruOrder st x"
    using shard_inv_frame[OF assms(1) _ \<open>itemTop st \<le> itemTop st'\<close> assms(4)] by blast+
qed

lemma shards_step:
  assumes "shards_inv p st (pre @ s # post)" "shard_inv p st' s'" "frame st s st' s'"
  shows "shards_inv p st' (pre @ s' # post)"
    "\<And>x. x \<in> set pre \<union> set post \<Longrightarrow> view st' x = view st x \<and> lruOrder st' x = lruOrder st x"
proof -
  have d: "footprint x \<inter> footprint s = {}" "shard_inv p st x" if "x \<in> set pre \<union> set post" for x
    using that assms(1) by (auto simp: shards_inv_def sorted_wrt_append disj_shards_def)
  have po: "pool_ok st'" using shard_invD(4)[OF assms(2)] .
  note F = frame_other[OF d(2) d(1) assms(3) po]
  show "shards_inv p st' (pre @ s' # post)"
    using assms(1,2) F(1,4) by (auto simp: shards_inv_def sorted_wrt_append disj_shards_def)
  show "\<And>x. x \<in> set pre \<union> set post \<Longrightarrow> view st' x = view st x \<and> lruOrder st' x = lruOrder st x" using F(2,3) by blast
qed

lemma getShard_less: "cache_inv c \<Longrightarrow> getShard c k < length (shards c)"
  by (auto simp: cache_inv_def getShard_def shardByHash_def unat_and_mask_less)

lemma getShard_simps [simp]:
  "getShard (putShard i r c) = getShard c" "shardByHash (putShard i r c) = shardByHash c"
  "config (putShard i r c) = config c" "closed (putShard i r c) = closed c" "perShardCap (putShard i r c) = perShardCap c"
  "store (putShard i r c) = fst r" "shards (putShard i r c) = (shards c)[i := snd r]" "hasher (putShard i r c) = hasher c"
  "evictr (putShard i r c) = evictr c" "shardMask (putShard i r c) = shardMask c" "closeOnce (putShard i r c) = closeOnce c"
  by (simp_all add: putShard_def getShard_def shardByHash_def fun_eq_iff)

lemma cache_shard:
  assumes "cache_inv c" "i < length (shards c)"
  shows "shard_inv (Policy (config c)) (store c) (shards c ! i)"
  using assms by (simp add: cache_inv_def shards_inv_def)

lemma cache_cap:
  assumes "cache_inv c" "i < length (shards c)" "perShardCap c > 0"
  shows "ssize (shards c ! i) \<le> perShardCap c"
  using assms by (simp add: cache_inv_def)

lemma putShard_inv:
  assumes c: "cache_inv c" and i: "i < length (shards c)"
    and s: "shard_inv (Policy (config c)) st' s'" and f: "frame (store c) (shards c ! i) st' s'"
    and k: "\<And>k. k \<in> fst ` set (data s') \<Longrightarrow> getShard c k = i"
    and z: "perShardCap c > 0 \<longrightarrow> ssize s' \<le> perShardCap c"
  shows "cache_inv (putShard i (st', s') c)"
    "\<And>j. j < length (shards c) \<Longrightarrow> j \<noteq> i \<Longrightarrow> view st' (shards c ! j) = view (store c) (shards c ! j) \<and>
       lruOrder st' (shards c ! j) = lruOrder (store c) (shards c ! j)"
proof -
  let ?pre = "take i (shards c)" and ?post = "drop (Suc i) (shards c)"
  have e: "shards c = ?pre @ shards c ! i # ?post" using i by (simp add: id_take_nth_drop)
  have u: "(shards c)[i := s'] = ?pre @ s' # ?post" using i by (simp add: upd_conv_take_nth_drop)
  have "shards_inv (Policy (config c)) (store c) (?pre @ shards c ! i # ?post)"
    using c e by (simp add: cache_inv_def)
  note S = shards_step[OF this s f]
  show "cache_inv (putShard i (st', s') c)"
    unfolding cache_inv_def
  proof (intro conjI)
    show "\<exists>n\<le>62. length (shards (putShard i (st', s') c)) = 2 ^ n \<and> shardMask (putShard i (st', s') c) = mask n"
      using c by (simp add: cache_inv_def)
    show "shards_inv (Policy (config (putShard i (st', s') c))) (store (putShard i (st', s') c)) (shards (putShard i (st', s') c))"
      using S(1) by (simp add: u)
    show "\<forall>j < length (shards (putShard i (st', s') c)). \<forall>k \<in> fst ` set (data (shards (putShard i (st', s') c) ! j)).
        getShard (putShard i (st', s') c) k = j"
    proof (intro allI impI ballI)
      fix j x assume "j < length (shards (putShard i (st', s') c))" "x \<in> fst ` set (data (shards (putShard i (st', s') c) ! j))"
      moreover have "\<forall>i < length (shards c). \<forall>k \<in> fst ` set (data (shards c ! i)). getShard c k = i"
        using c by (simp add: cache_inv_def)
      ultimately show "getShard (putShard i (st', s') c) x = j" using k[of x] i by (cases "j = i") auto
    qed
    show "perShardCap (putShard i (st', s') c) > 0 \<longrightarrow> (\<forall>s \<in> set (shards (putShard i (st', s') c)). ssize s \<le> perShardCap (putShard i (st', s') c))"
      using c z set_update_subset_insert by (fastforce simp: cache_inv_def)
  qed (use c in \<open>simp add: cache_inv_def\<close>)
  show "view st' (shards c ! j) = view (store c) (shards c ! j) \<and> lruOrder st' (shards c ! j) = lruOrder (store c) (shards c ! j)"
    if "j < length (shards c)" "j \<noteq> i" for j
  proof (rule S(2))
    show "shards c ! j \<in> set ?pre \<union> set ?post"
    proof (cases "j < i")
      case True
      then show ?thesis using that by (auto simp: in_set_conv_nth intro!: exI[of _ j])
    next
      case False
      then have "?post ! (j - Suc i) = shards c ! j" "j - Suc i < length ?post" using that by auto
      then show ?thesis using nth_mem[of "j - Suc i" ?post] by simp
    qed
  qed
qed

lemma cache_op:
  assumes c: "cache_inv c" and i: "i = getShard c k" and s: "shard_inv (Policy (config c)) st' s'"
    and f: "frame (store c) (shards c ! i) st' s'"
    and d: "fst ` set (data s') \<subseteq> insert k (fst ` set (data (shards c ! i)))"
    and z: "perShardCap c > 0 \<longrightarrow> ssize s' \<le> perShardCap c"
  shows "cache_inv (putShard i (st', s') c)"
    "cview (putShard i (st', s') c) = (\<lambda>j. if getShard c j = i then view st' s' j else cview c j)"
proof -
  have l: "i < length (shards c)" using getShard_less[OF c] i by simp
  have K: "\<forall>i < length (shards c). \<forall>k \<in> fst ` set (data (shards c ! i)). getShard c k = i"
    using c by (simp add: cache_inv_def)
  have k: "getShard c x = i" if "x \<in> fst ` set (data s')" for x
    using that d K l i by blast
  note P = putShard_inv[OF c l s f k z]
  show "cache_inv (putShard i (st', s') c)" by (rule P(1))
  show "cview (putShard i (st', s') c) = (\<lambda>j. if getShard c j = i then view st' s' j else cview c j)"
    using P(2) getShard_less[OF c] l by (auto simp: cview_def fun_eq_iff)
qed

lemma cview_update:
  assumes "cache_inv c" "view st' s' = (view (store c) (shards c ! getShard c k))(k := x)"
  shows "(\<lambda>j. if getShard c j = getShard c k then view st' s' j else cview c j) = (cview c)(k := x)"
  using assms by (auto simp: cview_def)

lemma cview_same:
  assumes "view st' s' = view (store c) (shards c ! i)"
  shows "(\<lambda>j. if getShard c j = i then view st' s' j else cview c j) = cview c"
  using assms by (auto simp: cview_def)

lemma fst_data_view: "fst ` set (data s) = dom (mget (data s))"
  by (simp add: dom_map_of_conv_image_fst)

lemma cview_None: "mget (data (shards c ! getShard c k)) k = None \<longleftrightarrow> cview c k = None"
  by (simp add: cview_def view_def)

text \<open>Removing a key, and counting.\<close>

lemma drop_op:
  assumes c: "cache_inv c" and k: "mget (data (shards c ! getShard c k)) k = Some a"
    and d: "dropItem (Policy (config c)) k a (store c) (shards c ! getShard c k) = (st', s')"
    and s'': "shard_inv (Policy (config c)) st' s'' = shard_inv (Policy (config c)) st' s'" "data s'' = data s'"
      "ssize s'' = ssize s'" "view st' s'' = view st' s'" "\<And>st s. frame st s st' s'' = frame st s st' s'"
  shows "cache_inv (putShard (getShard c k) (st', s'') c)" "cview (putShard (getShard c k) (st', s'') c) = (cview c)(k := None)"
proof -
  have l: "getShard c k < length (shards c)" using getShard_less[OF c] .
  note D = dropItem_spec[OF cache_shard[OF c l] k d]
  have dd: "fst ` set (data s'') \<subseteq> insert k (fst ` set (data (shards c ! getShard c k)))"
    using D(5) s''(2) by (auto simp: set_mdel)
  have z: "perShardCap c > 0 \<longrightarrow> ssize s'' \<le> perShardCap c" using cache_cap[OF c l] D(6) s''(3) by fastforce
  have i: "shard_inv (Policy (config c)) st' s''" "frame (store c) (shards c ! getShard c k) st' s''" using D(1,3) s''(1,5) by simp_all
  note O = cache_op[OF c refl i dd z]
  show "cache_inv (putShard (getShard c k) (st', s'') c)" by (rule O(1))
  show "cview (putShard (getShard c k) (st', s'') c) = (cview c)(k := None)"
    by (rule trans[OF O(2)], rule cview_update[OF c]) (simp add: D(4) s''(4))
qed

lemma count_op:
  assumes c: "cache_inv c"
    and s'': "shard_inv (Policy (config c)) (store c) s'' = shard_inv (Policy (config c)) (store c) (shards c ! getShard c k)"
      "data s'' = data (shards c ! getShard c k)" "ssize s'' = ssize (shards c ! getShard c k)"
      "view (store c) s'' = view (store c) (shards c ! getShard c k)"
      "frame (store c) (shards c ! getShard c k) (store c) s''"
  shows "cache_inv (putShard (getShard c k) (store c, s'') c)" "cview (putShard (getShard c k) (store c, s'') c) = cview c"
proof -
  have l: "getShard c k < length (shards c)" using getShard_less[OF c] .
  have i: "shard_inv (Policy (config c)) (store c) s''" using cache_shard[OF c l] s''(1) by simp
  have d: "fst ` set (data s'') \<subseteq> insert k (fst ` set (data (shards c ! getShard c k)))" using s''(2) by auto
  have z: "perShardCap c > 0 \<longrightarrow> ssize s'' \<le> perShardCap c" using cache_cap[OF c l] s''(3) by simp
  note O = cache_op[OF c refl i s''(5) d z]
  show "cache_inv (putShard (getShard c k) (store c, s'') c)" by (rule O(1))
  show "cview (putShard (getShard c k) (store c, s'') c) = cview c"
    by (rule trans[OF O(2)], rule cview_same[OF s''(4)])
qed

lemma expired_alive: "expired now it \<longleftrightarrow> \<not> alive now (expireTime it)"
  by (simp add: expired_def alive_def)

lemma same_cache_putShard [simp]: "same_cache c (putShard i r c') = same_cache c c'" "same_cache c c"
  by (simp_all add: same_cache_def)

lemma same_cache_trans: "same_cache a b \<Longrightarrow> same_cache b c \<Longrightarrow> same_cache a c"
  by (simp add: same_cache_def)

lemma same_cache_getShard: "same_cache c c' \<Longrightarrow> getShard c' k = getShard c k"
  by (simp add: same_cache_def getShard_def shardByHash_def)

lemma getFound_op:
  assumes c: "cache_inv c" and k: "mget (data (shards c ! getShard c k)) k = Some a"
    and g: "getFound (config c) now k a (store c) (shards c ! getShard c k) = ((b, m, ok), st', s')"
  defines "c' \<equiv> putShard (getShard c k) (st', s') c" and "e \<equiv> expireTime (items (store c) a)"
  shows "cache_inv c'" "cview c' = (if alive now e then cview c else (cview c)(k := None))"
    "ok = alive now e" "m = now"
    "ok \<Longrightarrow> b = a \<and> val (items (store c') b) = val (items (store c) a) \<and> expireTime (items (store c') b) = e"
    "\<not> ok \<Longrightarrow> b = 0"
    "ok \<Longrightarrow> lruOrder st' s' = (if Policy (config c) = LRU then a # remove1 a (lruOrder (store c) (shards c ! getShard c k))
        else lruOrder (store c) (shards c ! getShard c k)) \<and> data s' = data (shards c ! getShard c k)"
proof -
  let ?s = "shards c ! getShard c k" and ?p = "Policy (config c)"
  have l: "getShard c k < length (shards c)" using getShard_less[OF c] .
  have "cache_inv c' \<and> cview c' = (if alive now e then cview c else (cview c)(k := None)) \<and> ok = alive now e \<and> m = now \<and>
    (ok \<longrightarrow> b = a \<and> val (items (store c') b) = val (items (store c) a) \<and> expireTime (items (store c') b) = e) \<and> (\<not> ok \<longrightarrow> b = 0) \<and>
    (ok \<longrightarrow> lruOrder st' s' = (if Policy (config c) = LRU then a # remove1 a (lruOrder (store c) ?s)
        else lruOrder (store c) ?s) \<and> data s' = data ?s)"
  proof (cases "alive now e")
    case False
    obtain st1 s1 where d: "dropItem ?p k a (store c) ?s = (st1, s1)" by fastforce
    have x: "expired now (items (store c) a)" using False by (simp add: expired_alive e_def)
    have r: "st' = st1" "s' = (if StatsEnabled (config c) then s1\<lparr>expirations := expirations s1 + 1, misses := misses s1 + 1\<rparr> else s1)"
      "b = 0" "m = now" "\<not> ok" using g x d by (auto simp: getFound_def)
    have "cache_inv c'" "cview c' = (cview c)(k := None)"
      unfolding c'_def r(1) by (rule drop_op[OF c k d]; simp add: r(2))+
    then show ?thesis using False r by simp
  next
    case True
    obtain st1 s1 where t: "touch ?p now a (store c) ?s = (st1, s1)" by fastforce
    have x: "\<not> expired now (items (store c) a)" using True by (simp add: expired_alive e_def)
    have r: "st' = st1" "s' = (if StatsEnabled (config c) then s1\<lparr>hits := hits s1 + 1\<rparr> else s1)" "b = a" "m = now" "ok"
      using g x t by (auto simp: getFound_def)
    note T = touch_spec[OF cache_shard[OF c l] k t]
    have i: "shard_inv ?p st' s'" "frame (store c) ?s st' s'" "view st' s' = view (store c) ?s" "data s' = data ?s" "ssize s' = ssize ?s"
      "lruOrder st' s' = lruOrder st1 s1"
      using T by (simp_all add: r(1,2))
    have d: "fst ` set (data s') \<subseteq> insert k (fst ` set (data ?s))" using i(4) by auto
    have z: "perShardCap c > 0 \<longrightarrow> ssize s' \<le> perShardCap c" using cache_cap[OF c l] i(5) by simp
    note O = cache_op[OF c refl i(1,2) d z]
    have "cview c' = cview c" unfolding c'_def by (rule trans[OF O(2)], rule cview_same[OF i(3)])
    then show ?thesis using O(1) T(6,7,8) r True i(4,6) by (simp add: c'_def e_def)
  qed
  then show "cache_inv c'" "cview c' = (if alive now e then cview c else (cview c)(k := None))"
    "ok = alive now e" "m = now"
    "ok \<Longrightarrow> b = a \<and> val (items (store c') b) = val (items (store c) a) \<and> expireTime (items (store c') b) = e"
    "\<not> ok \<Longrightarrow> b = 0"
    "ok \<Longrightarrow> lruOrder st' s' = (if Policy (config c) = LRU then a # remove1 a (lruOrder (store c) ?s)
        else lruOrder (store c) ?s) \<and> data s' = data ?s" by blast+
qed

lemma countMiss_op:
  assumes "cache_inv c"
  shows "cache_inv (putShard (getShard c k) (store c, countMiss cfg (shards c ! getShard c k)) c)"
    "cview (putShard (getShard c k) (store c, countMiss cfg (shards c ! getShard c k)) c) = cview c"
  by (rule count_op[OF assms]; simp add: countMiss_def)+

lemma cview_Some:
  "mget (data (shards c ! getShard c k)) k = Some a \<Longrightarrow>
   cview c k = Some (val (items (store c) a), expireTime (items (store c) a))"
  by (simp add: cview_def view_def)

text \<open>\<open>get\<close> with no interference in the lock window.\<close>

lemma get_spec:
  assumes c: "cache_inv c" "\<not> closed c" and t: "t 0 \<le> t 1" and g: "cache_get (\<lambda>c. c) t c k = ((a, m, ok), c')"
  shows "cache_inv c'" "same_cache c c'" "closed c' = closed c"
    "cview c' = (case cview c k of Some (v, e) \<Rightarrow> if alive (t 0) e then cview c else (cview c)(k := None) | None \<Rightarrow> cview c)"
    "ok \<longleftrightarrow> (\<exists>v e. cview c k = Some (v, e) \<and> alive (t 0) e)"
    "ok \<Longrightarrow> m = t 0 \<and> (\<exists>e. cview c k = Some (val (items (store c') a), e) \<and> expireTime (items (store c') a) = e)"
proof -
  let ?s = "shards c ! getShard c k"
  have "cache_inv c' \<and> same_cache c c' \<and> closed c' = closed c \<and>
    cview c' = (case cview c k of Some (v, e) \<Rightarrow> if alive (t 0) e then cview c else (cview c)(k := None) | None \<Rightarrow> cview c) \<and>
    (ok \<longleftrightarrow> (\<exists>v e. cview c k = Some (v, e) \<and> alive (t 0) e)) \<and>
    (ok \<longrightarrow> m = t 0 \<and> (\<exists>e. cview c k = Some (val (items (store c') a), e) \<and> expireTime (items (store c') a) = e))"
  proof (cases "mget (data ?s) k")
    case None
    then have n: "cview c k = None" by (simp add: cview_None)
    have e: "c' = putShard (getShard c k) (store c, countMiss (config c) ?s) c" "\<not> ok"
      using g None c(2) by (auto simp: cache_get_def Let_def)
    show ?thesis using countMiss_op[OF c(1), of k "config c"] n e by simp
  next
    case (Some b)
    let ?e = "expireTime (items (store c) b)"
    define now where "now = (if (Policy (config c) = LRU \<or> Policy (config c) = LFU) \<or> \<not> expired (t 0) (items (store c) b) then t 0 else t 1)"
    obtain r st' s' where f: "getFound (config c) now k b (store c) ?s = (r, st', s')" by (metis prod_cases3)
    have e: "r = (a, m, ok)" "c' = putShard (getShard c k) (st', s') c"
      using g Some c(2) f by (auto simp: cache_get_def Let_def now_def split: if_splits)
    note F = getFound_op[OF c(1) Some f[unfolded e(1)], folded e(2)]
    have al: "alive now ?e = alive (t 0) ?e" using t by (auto simp: now_def alive_def expired_def)
    have m: "ok \<Longrightarrow> now = t 0" using F(3) al by (simp add: now_def expired_alive)
    have v: "cview c k = Some (val (items (store c) b), ?e)" by (rule cview_Some[OF Some])
    have sc: "same_cache c c'" "closed c' = closed c" by (simp_all add: e(2))
    show ?thesis
    proof (cases "alive (t 0) ?e")
      case True
      then have "ok" using F(3) al by simp
      then show ?thesis using F(1,2,4) F(5)[OF \<open>ok\<close>] m[OF \<open>ok\<close>] al True sc by (auto simp: v)
    next
      case False
      then have "\<not> ok" using F(3) al by simp
      then show ?thesis using F(1,2) al False sc by (simp add: v)
    qed
  qed
  then show "cache_inv c'" "same_cache c c'" "closed c' = closed c"
    "cview c' = (case cview c k of Some (v, e) \<Rightarrow> if alive (t 0) e then cview c else (cview c)(k := None) | None \<Rightarrow> cview c)"
    "ok \<longleftrightarrow> (\<exists>v e. cview c k = Some (v, e) \<and> alive (t 0) e)"
    "ok \<Longrightarrow> m = t 0 \<and> (\<exists>e. cview c k = Some (val (items (store c') a), e) \<and> expireTime (items (store c') a) = e)" by blast+
qed

lemma get_inv:
  assumes c: "cache_inv c" "cache_inv c2" "same_cache c c2"
  shows "cache_inv (snd (cache_get (\<lambda>_. c2) t c k))" "same_cache c (snd (cache_get (\<lambda>_. c2) t c k))"
proof -
  have found: "cache_inv (putShard (getShard x k) (snd (getFound (config x) now k b (store x) (shards x ! getShard x k))) x)"
    if x: "cache_inv x" "mget (data (shards x ! getShard x k)) k = Some b" for x now b
  proof -
    obtain r st' s' where f: "getFound (config x) now k b (store x) (shards x ! getShard x k) = (r, st', s')"
      by (metis prod_cases3)
    obtain b' m ok where r: "r = (b', m, ok)" by (metis prod_cases3)
    show ?thesis unfolding f snd_conv by (rule getFound_op(1)[OF x f[unfolded r]])
  qed
  have g2: "getShard c2 k = getShard c k" "config c2 = config c" 
    using same_cache_getShard[OF c(3)] c(3) by (simp_all add: same_cache_def)
  show "cache_inv (snd (cache_get (\<lambda>_. c2) t c k))"
  proof (cases "closed c")
    case False
    show ?thesis
    proof (cases "mget (data (shards c ! getShard c k)) k")
      case None
      then show ?thesis using False countMiss_op(1)[OF c(1), of k "config c"] by (simp add: cache_get_def Let_def)
    next
      case (Some b)
      show ?thesis
      proof (cases "(Policy (config c) = LRU \<or> Policy (config c) = LFU) \<or> \<not> expired (t 0) (items (store c) b)")
        case True
        then show ?thesis using False Some found[OF c(1) Some, of "t 0"]
          by (simp add: cache_get_def Let_def case_prod_beta)
      next
        case False': False
        then show ?thesis
          using False Some found[OF c(2), of _ "t 1"] countMiss_op(1)[OF c(2), of k "config c"]
          by (auto simp: cache_get_def Let_def case_prod_beta g2 split: option.splits)
      qed
    qed
  qed (simp add: c(1) cache_get_def)
  show "same_cache c (snd (cache_get (\<lambda>_. c2) t c k))"
    using c(3) by (auto simp: cache_get_def Let_def case_prod_beta split: option.splits)
qed

lemma Set_present:
  assumes "\<not> closed c" "mget (data (shards c ! getShard c k)) k = Some a"
  shows "Set ch t c k v ttl = (None, putShard (getShard c k)
    (updateItem (Policy (config c)) (t 0) v (setExpire (config c) (t 0) ttl) a (store c) (shards c ! getShard c k)) c)"
  using assms by (simp add: Set_def setExpire_def Let_def getShard_def)

lemma Set_absent:
  assumes "\<not> closed c" "mget (data (shards c ! getShard c k)) k = None"
    "makeRoom ch (\<lambda>n. t (n + 1)) (config c) (evictr c) (perShardCap c) (hasher c k) (store c) (shards c ! getShard c k) = (admit, st, s)"
  shows "Set ch t c k v ttl = (None, putShard (getShard c k)
    (if admit then insertItem ch (Policy (config c)) (t 0) k v (setExpire (config c) (t 0) ttl) st s else (st, s)) c)"
  using assms by (simp add: Set_def setExpire_def Let_def getShard_def)

lemma makeRoom_reject:
  assumes m: "makeRoom ch t cfg e cap kh st s = (admit, st', s')" and a: "\<not> admit"
  shows "Policy cfg = AdmissionLFU \<and> cap > 0 \<and> ssize s \<ge> cap"
proof (rule ccontr)
  assume n: "\<not> ?thesis"
  show False
  proof (cases "cap > 0 \<and> ssize s \<ge> cap")
    case False then show False using m a by (simp add: makeRoom_free)
  next
    case True
    then have "Policy cfg \<noteq> AdmissionLFU \<or> admission s = None" using n by blast
    from makeRoom_evict[OF True this, of ch t e kh st] show False using m a by (simp add: Let_def split_def)
  qed
qed

lemma Set_spec:
  assumes c: "cache_inv c" "\<not> closed c" and ch: "choices_ok ch" and s: "Set ch t c k v ttl = (err, c')"
  defines "e \<equiv> setExpire (config c) (t 0) ttl"
  shows "err = None" "cache_inv c'" "same_cache c c'" "closed c' = closed c"
    "cview c' k = Some (v, e) \<or> Policy (config c) = AdmissionLFU \<and> cview c k = None \<and> cview c' = cview c"
    "\<And>j. j \<noteq> k \<Longrightarrow> cview c' j = cview c j \<or> cview c' j = None"
    "\<not> fullFor c k \<or> cview c k \<noteq> None \<Longrightarrow> cview c' = (cview c)(k \<mapsto> (v, e))"
proof -
  let ?i = "getShard c k" let ?s = "shards c ! ?i" and ?p = "Policy (config c)"
  have l: "?i < length (shards c)" using getShard_less[OF c(1)] .
  note I = cache_shard[OF c(1) l]
  have "err = None \<and> cache_inv c' \<and> same_cache c c' \<and> closed c' = closed c \<and>
    (cview c' k = Some (v, e) \<or> ?p = AdmissionLFU \<and> cview c k = None \<and> cview c' = cview c) \<and>
    (\<forall>j. j \<noteq> k \<longrightarrow> cview c' j = cview c j \<or> cview c' j = None) \<and>
    (\<not> fullFor c k \<or> cview c k \<noteq> None \<longrightarrow> cview c' = (cview c)(k \<mapsto> (v, e)))"
  proof (cases "mget (data ?s) k")
    case (Some a)
    obtain st' s' where u: "updateItem ?p (t 0) v e a (store c) ?s = (st', s')" by fastforce
    have r: "err = None" "c' = putShard ?i (st', s') c" using s Set_present[OF c(2) Some, of ch t v ttl] u by (auto simp: e_def)
    note U = updateItem_spec[OF I Some u]
    have d: "fst ` set (data s') \<subseteq> insert k (fst ` set (data ?s))" using U(4) by auto
    have z: "perShardCap c > 0 \<longrightarrow> ssize s' \<le> perShardCap c" using cache_cap[OF c(1) l] U(5) by simp
    note O = cache_op[OF c(1) refl U(1,2) d z, folded r(2)]
    have "cview c' = (cview c)(k \<mapsto> (v, e))" by (rule trans[OF O(2)], rule cview_update[OF c(1) U(3)])
    then show ?thesis using O(1) r by simp
  next
    case None
    have evr: "evictr c = createEvictor ?p" using c(1) by (simp add: cache_inv_def)
    obtain admit st s1 where m: "makeRoom ch (\<lambda>n. t (n + 1)) (config c) (createEvictor ?p) (perShardCap c) (hasher c k) (store c) ?s = (admit, st, s1)"
      by (metis prod_cases3)
    note M = makeRoom_spec[OF I ch m]
    have k1: "mget (data s1) k = None" using None M(4) by (auto simp: map_of_eq_None_iff)
    have n: "cview c k = None" using None by (simp add: cview_None)
    have vle: "view st s1 j = view (store c) ?s j \<or> view st s1 j = None" for j
      using M(3) by (auto simp: map_le_def dom_def)
    show ?thesis
    proof (cases admit)
      case False
      then have r: "err = None" "c' = putShard ?i (st, s1) c"
        using s Set_absent[OF c(2) None m[folded evr], of v ttl] by auto
      have d: "fst ` set (data s1) \<subseteq> insert k (fst ` set (data ?s))" using M(4) by auto
      have z: "perShardCap c > 0 \<longrightarrow> ssize s1 \<le> perShardCap c" using cache_cap[OF c(1) l] M(5) by fastforce
      note O = cache_op[OF c(1) refl M(1,2) d z, folded r(2)]
      have "cview c' = cview c" using M(7)[OF False] by (intro trans[OF O(2)] cview_same) simp
      moreover have "?p = AdmissionLFU \<and> fullFor c k"
        using makeRoom_reject[OF m] False by (simp add: fullFor_def)
      ultimately show ?thesis using O(1) r n by simp
    next
      case True
      obtain st' s' where u: "insertItem ch ?p (t 0) k v e st s1 = (st', s')" by fastforce
      have r: "err = None" "c' = putShard ?i (st', s') c"
        using s Set_absent[OF c(2) None m[folded evr], of v ttl] u True by (auto simp: e_def)
      note U = insertItem_spec[OF M(1) k1 u]
      have d: "fst ` set (data s') \<subseteq> insert k (fst ` set (data ?s))"
        using U(6) M(4) shard_invD(2)[OF M(1)] by (auto simp: set_mput map_ok_def)
      have z: "perShardCap c > 0 \<longrightarrow> ssize s' \<le> perShardCap c"
        using cache_cap[OF c(1) l] M(6)[OF True] U(4) by fastforce
      note O = cache_op[OF c(1) refl U(1) frame_trans[OF M(2) U(2)] d z, folded r(2)]
      have v: "cview c' j = (if j = k then Some (v, e) else if getShard c j = ?i then view st s1 j else cview c j)" for j
        using U(3) by (simp add: O(2))
      have "cview c' = (cview c)(k \<mapsto> (v, e))" if "\<not> fullFor c k"
      proof -
        have "st = store c" "s1 = ?s" using m by (simp_all add: makeRoom_free[OF that[unfolded fullFor_def]])
        then show ?thesis using v by (auto simp: fun_eq_iff cview_def)
      qed
      moreover have "cview c' j = cview c j \<or> cview c' j = None" if "j \<noteq> k" for j
        using that v[of j] vle[of j] by (auto simp: cview_def)
      ultimately show ?thesis using O(1) r n v[of k] by auto
    qed
  qed
  then show "err = None" "cache_inv c'" "same_cache c c'" "closed c' = closed c"
    "cview c' k = Some (v, e) \<or> Policy (config c) = AdmissionLFU \<and> cview c k = None \<and> cview c' = cview c"
    "\<And>j. j \<noteq> k \<Longrightarrow> cview c' j = cview c j \<or> cview c' j = None"
    "\<not> fullFor c k \<or> cview c k \<noteq> None \<Longrightarrow> cview c' = (cview c)(k \<mapsto> (v, e))" by simp_all
qed

lemma Delete_spec:
  assumes c: "cache_inv c" "\<not> closed c" and d: "Delete c k = (r, c')"
  shows "r \<longleftrightarrow> cview c k \<noteq> None" "cache_inv c'" "same_cache c c'" "closed c' = closed c" "cview c' = (cview c)(k := None)"
proof -
  have "(r \<longleftrightarrow> cview c k \<noteq> None) \<and> cache_inv c' \<and> same_cache c c' \<and> closed c' = closed c \<and> cview c' = (cview c)(k := None)"
  proof (cases "mget (data (shards c ! getShard c k)) k")
    case None
    then have "cview c k = None" "(r, c') = (False, c)" using d c(2) None by (simp_all add: cview_None[symmetric] Delete_def Let_def)
    then show ?thesis using c(1) by (simp add: fun_upd_idem)
  next
    case (Some a)
    obtain st' s' where x: "dropItem (Policy (config c)) k a (store c) (shards c ! getShard c k) = (st', s')" by fastforce
    have e: "r" "c' = putShard (getShard c k) (st', s') c" using d c(2) Some x by (auto simp: Delete_def Let_def)
    then show ?thesis using drop_op[OF c(1) Some x] cview_Some[OF Some] by simp
  qed
  then show "r \<longleftrightarrow> cview c k \<noteq> None" "cache_inv c'" "same_cache c c'" "closed c' = closed c" "cview c' = (cview c)(k := None)" by blast+
qed

lemma Exists_spec:
  assumes c: "cache_inv c" "\<not> closed c" and d: "Exists t c k = (r, c')"
  shows "r \<longleftrightarrow> (\<exists>v e. cview c k = Some (v, e) \<and> alive (t 0) e)" "cache_inv c'" "same_cache c c'" "closed c' = closed c"
    "cview c' = (if r then cview c else (cview c)(k := None))"
proof -
  have "(r \<longleftrightarrow> (\<exists>v e. cview c k = Some (v, e) \<and> alive (t 0) e)) \<and> cache_inv c' \<and> same_cache c c' \<and> closed c' = closed c \<and>
    cview c' = (if r then cview c else (cview c)(k := None))"
  proof (cases "mget (data (shards c ! getShard c k)) k")
    case None
    then have "cview c k = None" "(r, c') = (False, c)" using d c(2) None by (simp_all add: cview_None[symmetric] Exists_def Let_def)
    then show ?thesis using c(1) by (simp add: fun_upd_idem)
  next
    case (Some a)
    note v = cview_Some[OF Some]
    show ?thesis
    proof (cases "expired (t 0) (items (store c) a)")
      case True
      obtain st' s' where x: "dropItem (Policy (config c)) k a (store c) (shards c ! getShard c k) = (st', s')" by fastforce
      have e: "\<not> r" "c' = putShard (getShard c k) (st', if StatsEnabled (config c) then s'\<lparr>expirations := expirations s' + 1\<rparr> else s') c"
        using d c(2) Some x True by (auto simp: Exists_def Let_def)
      have "cache_inv c'" "cview c' = (cview c)(k := None)" unfolding e(2) by (rule drop_op[OF c(1) Some x]; simp)+
      then show ?thesis using e True v by (simp add: expired_alive)
    next
      case False
      then have "(r, c') = (True, c)" using d c(2) Some by (simp add: Exists_def Let_def)
      then show ?thesis using False c(1) v by (simp add: expired_alive)
    qed
  qed
  then show "r \<longleftrightarrow> (\<exists>v e. cview c k = Some (v, e) \<and> alive (t 0) e)" "cache_inv c'" "same_cache c c'" "closed c' = closed c"
    "cview c' = (if r then cview c else (cview c)(k := None))" by blast+
qed

lemma eachShard_spec:
  assumes f: "shard_op p g f" and inv: "shards_inv p st (pre @ ss)" and e: "eachShard f st ss = (st', ss')"
  shows "shards_inv p st' (pre @ ss') \<and> length ss' = length ss \<and> (\<forall>x \<in> set pre. view st' x = view st x) \<and>
    (\<forall>i < length ss. (\<forall>k. view st' (ss' ! i) k = g (view st (ss ! i) k)) \<and>
       fst ` set (data (ss' ! i)) \<subseteq> fst ` set (data (ss ! i)) \<and> ssize (ss' ! i) \<le> ssize (ss ! i))"
  using inv e
proof (induction ss arbitrary: pre st ss')
  case (Cons s ss)
  obtain st1 s1 where 1: "f st s = (st1, s1)" by fastforce
  obtain ss1 where 2: "eachShard f st1 ss = (st', ss1)" "ss' = s1 # ss1" using Cons.prems(2) 1 by (auto split: prod.splits)
  have "shard_inv p st s" using Cons.prems(1) by (simp add: shards_inv_def)
  with f 1 have F: "shard_inv p st1 s1" "frame st s st1 s1" "fst ` set (data s1) \<subseteq> fst ` set (data s)" "ssize s1 \<le> ssize s"
    "\<And>k. view st1 s1 k = g (view st s k)" by (simp_all add: shard_op_def)
  note S = shards_step[OF Cons.prems(1) F(1,2)]
  have v: "view st1 x = view st x" if "x \<in> set pre \<union> set ss" for x using S(2)[OF that] by simp
  have "shards_inv p st1 ((pre @ [s1]) @ ss)" using S(1) by simp
  from Cons.IH[OF this 2(1)] have I: "shards_inv p st' (pre @ s1 # ss1)" "length ss1 = length ss"
    "\<And>x. x \<in> insert s1 (set pre) \<Longrightarrow> view st' x = view st1 x"
    "\<And>i. i < length ss \<Longrightarrow> (\<forall>k. view st' (ss1 ! i) k = g (view st1 (ss ! i) k)) \<and>
       fst ` set (data (ss1 ! i)) \<subseteq> fst ` set (data (ss ! i)) \<and> ssize (ss1 ! i) \<le> ssize (ss ! i)" by auto
  have "(\<forall>k. view st' (ss' ! i) k = g (view st ((s # ss) ! i) k)) \<and>
       fst ` set (data (ss' ! i)) \<subseteq> fst ` set (data ((s # ss) ! i)) \<and> ssize (ss' ! i) \<le> ssize ((s # ss) ! i)"
    if "i < length (s # ss)" for i
    using that F(3,4,5) I(3)[of s1] I(4)[of "i - 1"] v[of "ss ! (i - 1)"] 2(2) by (cases i) auto
  then show ?case using I(1,2,3) v 2(2) by auto
qed simp

lemma all_shards_op:
  assumes c: "cache_inv c" and f: "shard_op (Policy (config c)) g f"
    and e: "eachShard f (store c) (shards c) = (st', ss')"
  shows "cache_inv (c\<lparr>store := st', shards := ss'\<rparr>)" "cview (c\<lparr>store := st', shards := ss'\<rparr>) k = g (cview c k)"
proof -
  let ?c = "c\<lparr>store := st', shards := ss'\<rparr>"
  have "shards_inv (Policy (config c)) (store c) ([] @ shards c)" using c by (simp add: cache_inv_def)
  from eachShard_spec[OF f this e] have E: "shards_inv (Policy (config c)) st' ss'" "length ss' = length (shards c)"
    "\<And>i k. i < length (shards c) \<Longrightarrow> view st' (ss' ! i) k = g (view (store c) (shards c ! i) k)"
    "\<And>i. i < length (shards c) \<Longrightarrow> fst ` set (data (ss' ! i)) \<subseteq> fst ` set (data (shards c ! i))"
    "\<And>i. i < length (shards c) \<Longrightarrow> ssize (ss' ! i) \<le> ssize (shards c ! i)" by auto
  have g: "getShard ?c = getShard c" by (simp add: getShard_def shardByHash_def fun_eq_iff)
  have C: "\<exists>n\<le>62. length (shards c) = 2 ^ n \<and> shardMask c = mask n" "evictr c = createEvictor (Policy (config c))"
    "\<And>i k. i < length (shards c) \<Longrightarrow> k \<in> fst ` set (data (shards c ! i)) \<Longrightarrow> getShard c k = i"
    using c by (auto simp: cache_inv_def)
  have z: "ssize s \<le> perShardCap c" if "perShardCap c > 0" "s \<in> set ss'" for s
    using that cache_cap[OF c _ that(1)] E(2,5) by (metis in_set_conv_nth order_trans)
  show "cache_inv ?c" unfolding cache_inv_def g
  proof (intro conjI)
    show "\<exists>n\<le>62. length (shards ?c) = 2 ^ n \<and> shardMask ?c = mask n" using C(1) E(2) by simp
    show "\<forall>i<length (shards ?c). \<forall>k\<in>fst ` set (data (shards ?c ! i)). getShard c k = i" using C(3) E(2,4) by fastforce
  qed (use C(2) E(1) z in simp_all)
  show "cview ?c k = g (cview c k)" using E(3)[OF getShard_less[OF c, of k]] by (simp add: cview_def g)
qed

lemma clearShard_op: "choices_ok ch \<Longrightarrow> shard_op p (\<lambda>_. None) (clearShard ch p)"
  unfolding shard_op_def using clearShard_spec shard_inv_ssize by (metis empty_iff empty_subsetI image_empty list.set(1) of_nat_0_le_iff)

lemma shard_cleanup_op:
  assumes "iter_ok it" shows "shard_op p (dropDead now) (shard_cleanup it now p stats)"
  unfolding shard_op_def
proof (intro allI impI)
  fix st st' :: "('a, 'b) store" and s s' assume i: "shard_inv p st s" "shard_cleanup it now p stats st s = (st', s')"
  note S = shard_cleanup_spec[OF i(1) assms i(2)]
  have "view st' s' k = dropDead now (view st s k)" for k
    unfolding S(4) by (auto simp: dropDead_def alive_def split: option.splits)
  moreover have "fst ` set (data s') \<subseteq> fst ` set (data s)" unfolding S(5) by auto
  ultimately show "shard_inv p st' s' \<and> frame st s st' s' \<and> fst ` set (data s') \<subseteq> fst ` set (data s) \<and> ssize s' \<le> ssize s \<and>
     (\<forall>k. view st' s' k = dropDead now (view st s k))" using S(1,2,3) by blast
qed

lemma Clear_spec:
  assumes c: "cache_inv c" "\<not> closed c" and ch: "choices_ok ch"
  shows "cache_inv (Clear ch c)" "cview (Clear ch c) = Map.empty" "same_cache c (Clear ch c)" "closed (Clear ch c) = closed c"
proof -
  obtain st ss where e: "eachShard (clearShard ch (Policy (config c))) (store c) (shards c) = (st, ss)" by fastforce
  have r: "Clear ch c = c\<lparr>store := st, shards := ss\<rparr>" using c(2) e by (simp add: Clear_def)
  note A = all_shards_op[OF c(1) clearShard_op[OF ch] e, folded r]
  show "cache_inv (Clear ch c)" "cview (Clear ch c) = Map.empty" using A by (auto simp: fun_eq_iff)
  show "same_cache c (Clear ch c)" "closed (Clear ch c) = closed c" using r by (simp_all add: same_cache_def)
qed

lemma cleanup_spec:
  assumes c: "cache_inv c" "\<not> closed c" and ch: "choices_ok ch"
  shows "cache_inv (cleanup ch t c)" "cview (cleanup ch t c) k = dropDead (t 0) (cview c k)"
    "same_cache c (cleanup ch t c)" "closed (cleanup ch t c) = closed c"
proof -
  have it: "iter_ok (mapOrder ch)" using ch by (simp add: choices_ok_def)
  obtain st ss where e: "eachShard (shard_cleanup (mapOrder ch) (t 0) (Policy (config c)) (StatsEnabled (config c))) (store c) (shards c) = (st, ss)"
    by fastforce
  have r: "cleanup ch t c = c\<lparr>store := st, shards := ss\<rparr>" using c(2) e by (simp add: cleanup_def Let_def)
  note A = all_shards_op[OF c(1) shard_cleanup_op[OF it] e, folded r]
  show "cache_inv (cleanup ch t c)" "cview (cleanup ch t c) k = dropDead (t 0) (cview c k)" by (rule A)+
  show "same_cache c (cleanup ch t c)" "closed (cleanup ch t c) = closed c" using r by (simp_all add: same_cache_def)
qed

lemma filter_wf:
  assumes "0 < cap" "cap \<le> 2 ^ 58"
  shows "aaf_wf (newAdaptiveAdmissionFilter t (max (word_of_int (i64 (cap * 10))) 1024) r a b x y)"
proof (rule aaf_wf_new)
  let ?w = "word_of_int (i64 (cap * 10)) :: u64"
  define x where "x = cap * 10"
  have x: "0 \<le> x" "x \<le> 2 ^ 62" "i64 x = x" using assms by (simp_all add: x_def is_i64I)
  then have "sint (word_of_int (i64 x) :: u64) \<le> 2 ^ 62" by (simp add: sint_uint uint_word_of_int_eq take_bit_int_eq_self signed_take_bit_int_eq_self)
  then have "sint ?w \<le> 2 ^ 62" by (simp only: x_def)
  moreover have "sint (1024 :: u64) \<le> 2 ^ 62" by simp
  ultimately show "sint (max ?w 1024) \<le> 2 ^ 62" by (metis max_def)
qed

lemma initShard_spec:
  assumes p: "pool_ok st" and cap: "cap \<le> 2 ^ 58" and i: "initShard t cfg cap st = (st', s)"
  shows "fresh_shard (Policy cfg) st st' s" "itemTop st \<le> itemTop st'" "pool_ok st'"
    "\<And>u. u < itemTop st \<Longrightarrow> items st' u = items st u" "pool st' = pool st"
proof -
  obtain s1 where l: "initLRU st newShard = (st', s1)" using i by (auto simp: initShard_def Let_def split: prod.splits)
  note L = initLRU_spec[OF p l]
  have s: "head s = itemTop st \<and> tail s = itemTop st + 1" "data s = [] \<and> ssize s = 0"
    "lfu s = (if Policy cfg = LFU then Some newLFUList else None)"
    using i[symmetric] l by (simp_all add: initShard_def Let_def L(2) newShard_def)
  have a: "\<forall>f. admission s = Some f \<longrightarrow> aaf_wf f"
    using i[symmetric] l filter_wf[OF _ cap] by (simp add: initShard_def Let_def L(2) newShard_def)
  have h: "head s = itemTop st" "tail s = itemTop st + 1" using s(1) by simp_all
  have fr: "itemTop st \<notin> set (pool st)" "itemTop st + 1 \<notin> set (pool st)" using p by (auto simp: pool_ok_def)
  have "lru_rep st' s []" using L(1) h by (simp add: lru_rep_def L(2))
  then have "shard_inv (Policy cfg) st' s"
    by (rule empty_shard_inv) (use s h fr a L in auto)
  then show "fresh_shard (Policy cfg) st st' s" using h s L(3) by (auto simp: fresh_shard_def footprint_def)
  show "itemTop st \<le> itemTop st'" "pool_ok st'" "\<And>u. u < itemTop st \<Longrightarrow> items st' u = items st u" "pool st' = pool st"
    using L by auto
qed

lemma fresh_shard_later:
  assumes f: "fresh_shard p st st1 s" and p: "pool_ok st'" "pool st' = pool st1"
    and t: "itemTop st1 \<le> itemTop st'" "\<And>u. u < itemTop st1 \<Longrightarrow> items st' u = items st1 u"
  shows "fresh_shard p st st' s"
proof -
  have "shard_inv p st1 s" "\<And>u. u \<in> footprint s \<Longrightarrow> u < itemTop st1" using f by (auto simp: fresh_shard_def)
  moreover have "footprint s \<inter> set (pool st') = {}" using f p(2) shard_invD(6) by (fastforce simp: fresh_shard_def)
  ultimately have "shard_inv p st' s" using shard_inv_frame(1)[of p st1 s st'] t p(1) by blast
  then show ?thesis using f t(1) by (auto simp: fresh_shard_def)
qed

lemma initShards_spec:
  assumes "pool_ok st" "cap \<le> 2 ^ 58" "initShards t cfg cap n st = (st', ss)"
  shows "length ss = n \<and> itemTop st \<le> itemTop st' \<and> pool_ok st' \<and> pool st' = pool st \<and>
    (\<forall>u < itemTop st. items st' u = items st u) \<and> (\<forall>s \<in> set ss. fresh_shard (Policy cfg) st st' s) \<and> sorted_wrt disj_shards ss"
  using assms(1,3)
proof (induction n arbitrary: st ss)
  case (Suc n)
  obtain st1 s where 1: "initShard (t n) cfg cap st = (st1, s)" by fastforce
  obtain ss1 where 2: "initShards t cfg cap n st1 = (st', ss1)" "ss = s # ss1" using Suc.prems(2) 1 by (auto split: prod.splits)
  note S = initShard_spec[OF Suc.prems(1) assms(2) 1]
  from Suc.IH[OF S(3) 2(1)] have I: "length ss1 = n" "itemTop st1 \<le> itemTop st'" "pool_ok st'" "pool st' = pool st1"
    "\<And>u. u < itemTop st1 \<Longrightarrow> items st' u = items st1 u" "\<And>x. x \<in> set ss1 \<Longrightarrow> fresh_shard (Policy cfg) st1 st' x"
    "sorted_wrt disj_shards ss1" by auto
  have "fresh_shard (Policy cfg) st st' s" by (rule fresh_shard_later[OF S(1) I(3,4,2,5)])
  moreover have "fresh_shard (Policy cfg) st st' x" if "x \<in> set ss1" for x
    using I(6)[OF that] S(2) by (auto simp: fresh_shard_def)
  moreover have "disj_shards s x" if "x \<in> set ss1" for x
    using I(6)[OF that] S(1) by (fastforce simp: fresh_shard_def disj_shards_def)
  ultimately show ?case using I S(2,4,5) 2(2) by auto
qed simp

declare maxPow2Loop.simps [simp del]

lemma maxPow2Loop_bounds:
  "0 < m \<Longrightarrow> m \<le> limit \<Longrightarrow> m \<le> maxPow2Loop limit m \<and> maxPow2Loop limit m \<le> limit"
proof (induction limit m rule: maxPow2Loop.induct)
  case (1 limit m)
  show ?case
  proof (cases "m * 2 \<le> limit")
    case True
    then show ?thesis using 1 by (subst (1 2) maxPow2Loop.simps) fastforce
  qed (use 1 in \<open>simp add: maxPow2Loop.simps\<close>)
qed

lemma maxPow2Loop_pow2: "\<exists>j. m = 2 ^ j \<Longrightarrow> \<exists>k. maxPow2Loop limit m = 2 ^ k"
proof (induction limit m rule: maxPow2Loop.induct)
  case (1 limit m)
  show ?case
  proof (cases "0 < m \<and> m * 2 \<le> limit")
    case True
    have "\<exists>j. m * 2 = 2 ^ j" using 1(2) by (metis power_Suc2)
    with 1(1)[OF True] True show ?thesis by (subst maxPow2Loop.simps) simp
  next
    case False
    then have "maxPow2Loop limit m = m" by (subst maxPow2Loop.simps) auto
    then show ?thesis using 1(2) by simp
  qed
qed

lemma NextPowerOf2_le_pow2:
  assumes "n \<le> 2 ^ k" "k \<le> 62" shows "NextPowerOf2 n \<le> 2 ^ k"
proof (cases "n \<le> 1")
  case False
  have "nat (n - 1) < 2 ^ k" using assms(1) False by (simp add: nat_less_iff)
  then have l: "bitsLen (nat (n - 1)) \<le> k" by (rule bitsLen_le)
  then have p: "(2::int) ^ bitsLen (nat (n - 1)) \<le> 2 ^ k" by (intro power_increasing) auto
  also have "\<dots> \<le> 2 ^ 62" using assms(2) by (intro power_increasing) auto
  finally have "is_i64 (2 ^ bitsLen (nat (n - 1)))" by (intro is_i64I) auto
  then show ?thesis using False p by (simp add: NextPowerOf2_def)
qed (simp add: NextPowerOf2_def)

lemma shardCountFor_pow2:
  assumes "config_ok cfg"
  obtains k where "shardCountFor n cfg = 2 ^ k" "k \<le> 62"
proof -
  define m where "m = (let n' = (if ShardCount cfg \<le> 0 then min (n * shardMultiplier) maxShardCount else ShardCount cfg)
    in if MaxSize cfg > 0 then min n' (maxPow2Loop (min (MaxSize cfg) maxShardCount) 1) else n')"
  have "m \<le> 2 ^ 62" using assms by (auto simp: m_def config_ok_def Let_def maxShardCount_def min_def)
  moreover have "shardCountFor n cfg = NextPowerOf2 m" by (simp add: shardCountFor_def m_def Let_def)
  ultimately show thesis using NextPowerOf2_pow2 that by metis
qed

lemma shardCountFor_le:
  assumes "0 < MaxSize cfg"
  shows "shardCountFor n cfg \<le> MaxSize cfg" "shardCountFor n cfg \<le> 256"
proof -
  let ?l = "min (MaxSize cfg) maxShardCount"
  obtain k where k: "maxPow2Loop ?l 1 = 2 ^ k" using maxPow2Loop_pow2[of 1 ?l] by (metis power_0)
  have b: "maxPow2Loop ?l 1 \<le> ?l" using maxPow2Loop_bounds[of 1 ?l] assms by (simp add: maxShardCount_def)
  then have "(2::int) ^ k \<le> 2 ^ 8" unfolding k by (simp add: maxShardCount_def)
  then have "k \<le> 62" using power_le_imp_le_exp[of "2::int" k 8] by simp
  then have "shardCountFor n cfg \<le> 2 ^ k"
    unfolding shardCountFor_def Let_def using assms by (intro NextPowerOf2_le_pow2) (simp_all add: k)
  then show "shardCountFor n cfg \<le> MaxSize cfg" "shardCountFor n cfg \<le> 256"
    using b unfolding k by (simp_all add: maxShardCount_def)
qed

lemma New_inv:
  fixes c :: "('k, 'v::zero) cache"
  assumes "config_ok cfg" and c_def: "c = New t n hf cfg"
  shows "cache_inv c" "cview c = Map.empty" "config c = cfg"
    "hasher c = hf" "\<not> closed c" "\<not> closeOnce c"
    "int (length (shards c)) = shardCountFor n cfg"
    "perShardCap c = (if MaxSize cfg > 0 then MaxSize cfg div shardCountFor n cfg else 0)"
proof -
  let ?n = "shardCountFor n cfg"
  let ?cap = "if MaxSize cfg > 0 then MaxSize cfg div ?n else 0"
  obtain k where k: "?n = 2 ^ k" "k \<le> 62" using shardCountFor_pow2[OF assms(1)] .
  obtain st ss where i: "initShards t cfg ?cap (nat ?n) (emptyStore :: ('k, 'v) store) = (st, ss)" by fastforce
  have e: "c = \<lparr>shards = ss, shardMask = word_of_int (?n - 1), config = cfg, perShardCap = ?cap,
          cleanupCh = False, closeCh = False, closeOnce = False, closed = False,
          store = st, hasher = hf, evictr = createEvictor (Policy cfg)\<rparr>"
    using i by (simp only: c_def New_def Let_def prod.case)
  have po: "pool_ok (emptyStore :: ('k, 'v) store)" by (simp add: pool_ok_def emptyStore_def)
  have "?cap \<le> 2 ^ 58"
    using assms(1) zdiv_mono2[of "MaxSize cfg" 1 ?n] k by (auto simp: config_ok_def)
  from initShards_spec[OF po this i] have S: "length ss = nat ?n" "\<forall>s \<in> set ss. fresh_shard (Policy cfg) emptyStore st s"
    "sorted_wrt disj_shards ss" by auto
  have d: "data (ss ! i) = []" "ssize (ss ! i) = 0" if "i < length ss" for i
    using that S(2) by (auto simp: fresh_shard_def)
  have m: "(word_of_int (?n - 1) :: u64) = mask k" by (simp add: k mask_eq_exp_minus_1)
  have l: "length ss = 2 ^ k" using S(1) k by (simp add: nat_power_eq)
  have g: "getShard c x < length ss" for x
  proof -
    have "shardMask c = mask k" "hasher c = hf" using m by (simp_all add: e)
    then show ?thesis using k(2) by (simp add: getShard_def shardByHash_def l unat_and_mask_less)
  qed
  show "cache_inv c" unfolding cache_inv_def
  proof (intro conjI)
    show "\<exists>n\<le>62. length (shards c) = 2 ^ n \<and> shardMask c = mask n" using k(2) m l by (auto simp: e)
    show "evictr c = createEvictor (Policy (config c))" by (simp add: e)
    show "shards_inv (Policy (config c)) (store c) (shards c)" using S by (auto simp: e shards_inv_def fresh_shard_def)
    show "\<forall>i<length (shards c). \<forall>k\<in>fst ` set (data (shards c ! i)). getShard c k = i" using d by (simp add: e)
    show "0 < perShardCap c \<longrightarrow> (\<forall>s\<in>set (shards c). ssize s \<le> perShardCap c)" using S(2) by (auto simp: e fresh_shard_def)
  qed
  show "cview c = Map.empty"
  proof
    fix x show "cview c x = None" using d(1)[OF g[of x]] cview_None[of c x] by (simp add: e)
  qed
  show "config c = cfg" "hasher c = hf" "\<not> closed c" "\<not> closeOnce c" "perShardCap c = ?cap" by (simp_all add: e)
  show "int (length (shards c)) = ?n" using l k by (simp add: e)
qed

lemma cache_inv_flags [simp]:
  "cache_inv (c\<lparr>closed := b\<rparr>) = cache_inv c" "cache_inv (c\<lparr>closeOnce := b\<rparr>) = cache_inv c"
  "cache_inv (c\<lparr>closeCh := b\<rparr>) = cache_inv c" "cache_inv (c\<lparr>cleanupCh := b\<rparr>) = cache_inv c"
  by (simp_all add: cache_inv_def getShard_def shardByHash_def)

lemma same_cache_flags [simp]:
  "same_cache x (c\<lparr>closed := b\<rparr>) = same_cache x c" "same_cache x (c\<lparr>closeOnce := b\<rparr>) = same_cache x c"
  "same_cache x (c\<lparr>closeCh := b\<rparr>) = same_cache x c" "same_cache x (c\<lparr>cleanupCh := b\<rparr>) = same_cache x c"
  by (simp_all add: same_cache_def)

lemma cview_flags [simp]:
  "cview (c\<lparr>closed := b\<rparr>) = cview c" "cview (c\<lparr>closeOnce := b\<rparr>) = cview c"
  "cview (c\<lparr>closeCh := b\<rparr>) = cview c" "cview (c\<lparr>cleanupCh := b\<rparr>) = cview c"
  by (simp_all add: cview_def fun_eq_iff getShard_def shardByHash_def)

lemma get_id_window: "cache_get (\<lambda>x. x) t c k = cache_get (\<lambda>_. c) t c k"
  by (simp add: cache_get_def Let_def)

lemma good_same: "good c0 c \<Longrightarrow> good c0 c2 \<Longrightarrow> same_cache c c2"
  by (simp add: good_def same_cache_def)

lemma good_get: "good c0 c \<Longrightarrow> good c0 c2 \<Longrightarrow> good c0 (snd (cache_get (\<lambda>_. c2) t c k))"
  using get_inv[of c c2 t k] good_same same_cache_trans unfolding good_def by metis

lemma good_clear: "choices_ok ch \<Longrightarrow> good c0 c \<Longrightarrow> good c0 (Clear ch c)"
  using Clear_spec[of c ch] same_cache_trans by (cases "closed c") (auto simp: good_def Clear_def)

lemma good_cleanup: "choices_ok ch \<Longrightarrow> good c0 c \<Longrightarrow> good c0 (cleanup ch t c)"
  using cleanup_spec[of c ch t] same_cache_trans by (cases "closed c") (auto simp: good_def cleanup_def)

lemma good_set: "choices_ok ch \<Longrightarrow> good c0 c \<Longrightarrow> good c0 (snd (Set ch t c k v ttl))"
proof (cases "closed c")
  case False
  assume "choices_ok ch" "good c0 c"
  then show ?thesis using Set_spec(2,3)[OF _ False, of ch t k v ttl] same_cache_trans unfolding good_def by (metis prod.collapse)
qed (simp add: Set_def)

lemma good_delete: "good c0 c \<Longrightarrow> good c0 (snd (Delete c k))"
proof (cases "closed c")
  case False
  assume "good c0 c"
  then show ?thesis using Delete_spec(2,3)[OF _ False, of k] same_cache_trans unfolding good_def by (metis prod.collapse)
qed (simp add: Delete_def)

lemma good_exists: "good c0 c \<Longrightarrow> good c0 (snd (Exists t c k))"
proof (cases "closed c")
  case False
  assume "good c0 c"
  then show ?thesis using Exists_spec(2,3)[OF _ False, of t k] same_cache_trans unfolding good_def by (metis prod.collapse)
qed (simp add: Exists_def)

lemma good_flags [simp]:
  "good c0 (c\<lparr>closed := b\<rparr>) = good c0 c" "good c0 (c\<lparr>closeOnce := b\<rparr>) = good c0 c"
  "good c0 (c\<lparr>closeCh := b\<rparr>) = good c0 c" "good c0 (c\<lparr>cleanupCh := b\<rparr>) = good c0 c"
  by (simp_all add: good_def)

lemma good_close: "choices_ok ch \<Longrightarrow> good c0 c \<Longrightarrow> good c0 (snd (Close ch c))"
  by (simp add: Close_def good_clear)

lemma good_worker: "choices_ok ch \<Longrightarrow> good c0 c \<Longrightarrow> good c0 (snd (cleanupWorker ch t e c))"
  by (cases e) (simp_all add: cleanupWorker_def good_cleanup)

lemma good_trigger: "choices_ok ch \<Longrightarrow> good c0 c \<Longrightarrow> good c0 (TriggerCleanup ch t c)"
  by (simp add: TriggerCleanup_def good_cleanup)

lemmas good_ops = good_set good_delete good_exists good_clear good_close good_worker good_trigger

lemma reach_good:
  assumes "reach c0 c" "cache_inv c0" shows "good c0 c"
  using assms(1)
proof induction
  case reach_refl
  show ?case using assms(2) by (simp add: good_def)
next
  case (reach_get c window c2 t k)
  then show ?case using good_get by (auto simp: get_id_window)
qed (simp_all add: good_ops)

text \<open>The size counters, summed, count the keys of the abstract map.\<close>

lemma Size_sum: "Size c = (\<Sum>s\<leftarrow>shards c. ssize s)"
proof -
  have "foldl (\<lambda>n s. n + ssize s) a ss = a + (\<Sum>s\<leftarrow>ss. ssize s)" for a and ss :: "'a shard list"
    by (induction ss arbitrary: a) auto
  then show ?thesis by (simp add: Size_def)
qed

lemma shard_keys: "shard_inv p st s \<Longrightarrow> ssize s = int (card (fst ` set (data s))) \<and> dom (view st s) = fst ` set (data s)"
proof -
  assume "shard_inv p st s"
  then have d: "distinct (map fst (data s))" "ssize s = int (length (data s))"
    using shard_invD(2) shard_inv_ssize by (auto simp: map_ok_def)
  have "length (data s) = card (fst ` set (data s))" using distinct_card[OF d(1)] by simp
  moreover have "dom (view st s) = dom (map_of (data s))" by (auto simp: view_def)
  ultimately show ?thesis using d(2) by (simp add: dom_map_of_conv_image_fst)
qed

lemma cache_home:
  "cache_inv c \<Longrightarrow> i < length (shards c) \<Longrightarrow> x \<in> fst ` set (data (shards c ! i)) \<Longrightarrow> getShard c x = i"
  by (auto simp: cache_inv_def)

lemma cview_dom:
  assumes c: "cache_inv c"
  shows "dom (cview c) = (\<Union>i<length (shards c). fst ` set (data (shards c ! i)))"
proof -
  have d: "x \<in> dom (cview c) \<longleftrightarrow> x \<in> fst ` set (data (shards c ! getShard c x))" for x
    using shard_keys[OF cache_shard[OF c getShard_less[OF c, of x]]] cview_def[of c x] domIff by metis
  show ?thesis
  proof (rule set_eqI)
    fix x show "x \<in> dom (cview c) \<longleftrightarrow> x \<in> (\<Union>i<length (shards c). fst ` set (data (shards c ! i)))"
      unfolding d UN_iff using cache_home[OF c, of _ x] getShard_less[OF c, of x] by (metis lessThan_iff)
  qed
qed

lemma Size_card:
  assumes c: "cache_inv c"
  shows "Size c = int (card (dom (cview c)))"
proof -
  have "int (card (dom (cview c))) = int (\<Sum>i<length (shards c). card (fst ` set (data (shards c ! i))))"
    unfolding cview_dom[OF c]
  proof (subst card_UN_disjoint)
    show "\<forall>i\<in>{..<length (shards c)}. \<forall>j\<in>{..<length (shards c)}. i \<noteq> j \<longrightarrow>
        fst ` set (data (shards c ! i)) \<inter> fst ` set (data (shards c ! j)) = {}"
      by (metis (no_types, lifting) cache_home[OF c] disjoint_iff lessThan_iff)
  qed auto
  also have "\<dots> = (\<Sum>i<length (shards c). ssize (shards c ! i))"
    using shard_keys[OF cache_shard[OF c]] by simp
  also have "\<dots> = Size c" unfolding Size_sum by (simp add: sum_list_sum_nth atLeast0LessThan)
  finally show ?thesis by simp
qed

lemma same_cache_length:
  assumes "cache_inv c" "cache_inv c'" "same_cache c c'" shows "length (shards c') = length (shards c)"
proof -
  obtain n m where n: "n \<le> 62" "length (shards c) = 2 ^ n" "shardMask c = mask n"
    and m: "m \<le> 62" "length (shards c') = 2 ^ m" "shardMask c' = mask m" using assms(1,2) by (auto simp: cache_inv_def)
  have "(mask n :: u64) = mask m" using n m assms(3) by (simp add: same_cache_def)
  then have "bit (mask n :: u64) i = bit (mask m :: u64) i" for i by simp
  from this[of n] this[of m] have "n = m" using n(1) m(1) by (simp add: bit_mask_iff)
  then show ?thesis using n m by simp
qed

lemma Size_le_MaxSize:
  assumes k: "config_ok cfg" and n: "0 < MaxSize cfg" and r: "reach (New t n hf cfg) c"
  shows "Size c \<le> MaxSize cfg"
proof -
  let ?c = "New t n hf cfg" and ?n = "shardCountFor n cfg"
  note N = New_inv[OF k refl, of t n hf]
  have g: "cache_inv c" "same_cache ?c c" using reach_good[OF r N(1)] by (simp_all add: good_def)
  obtain j where j: "?n = 2 ^ j" using shardCountFor_pow2[OF k] by metis
  have l: "int (length (shards c)) = ?n" using same_cache_length[OF N(1) g] N(7) by simp
  have p: "perShardCap c = MaxSize cfg div ?n" using g(2) N(8) n by (simp add: same_cache_def)
  have "0 < MaxSize cfg div ?n" using shardCountFor_le(1)[OF n, of n] j by (simp add: pos_imp_zdiv_pos_iff)
  then have "s \<in> set (shards c) \<Longrightarrow> ssize s \<le> MaxSize cfg div ?n" for s using g(1) p by (simp add: cache_inv_def)
  then have "Size c \<le> (\<Sum>s\<leftarrow>shards c. MaxSize cfg div ?n)" unfolding Size_sum by (intro sum_list_mono) simp
  also have "\<dots> = ?n * (MaxSize cfg div ?n)" by (simp add: sum_list_triv flip: l)
  also have "\<dots> \<le> MaxSize cfg" using pos_mod_sign[of "2 ^ j" "MaxSize cfg"] minus_mod_eq_mult_div[of "MaxSize cfg" ?n, unfolded j] unfolding j by (smt (verit) zero_less_power)
  finally show ?thesis .
qed

lemma evict_victim:
  assumes inv: "shard_inv p st s" and ch: "choices_ok ch" and ne: "data s \<noteq> []"
  shows "\<exists>k a st' s'. evict (createEvictor p) ch b st s = (True, st', s') \<and> mget (data s) k = Some a \<and> victim_ok ch p st s a \<and>
    data s' = mdel k (data s) \<and> view st' s' = (view st s)(k := None) \<and> lruOrder st' s' = remove1 a (lruOrder st s)"
proof (cases p)
  case LRU
  then show ?thesis using lru_evict_spec[of p st s b] inv ne unfolding victim_ok_def createEvictor_def
    by (simp only: EvictionPolicy.case evict.simps) blast
next
  case FIFO
  then have "p \<noteq> LFU" by simp
  from lru_evict_spec[OF inv this ne, of b] fifo_evict_eq[OF lfu_None[OF inv this], of b st] FIFO
  show ?thesis unfolding victim_ok_def createEvictor_def by (simp only: EvictionPolicy.case evict.simps) blast
next
  case LFU
  obtain k a st' s' where e: "lfu_evict ch b st s = (True, st', s')" "mget (data s) k = Some a"
    "data s' = mdel k (data s)" "view st' s' = (view st s)(k := None)" "lruOrder st' s' = remove1 a (lruOrder st s)"
    "\<forall>k' b. mget (data s) k' = Some b \<longrightarrow> frequency (items st a) \<le> frequency (items st b)"
    using lfu_evict_spec[of st s ch b] inv ch ne LFU by blast
  have "distinct (map fst (data s))" using shard_invD(2)[OF inv] by (simp add: map_ok_def)
  then have "victim_ok ch p st s a" using e(6) LFU by (auto simp: victim_ok_def map_of_is_SomeI)
  then show ?thesis using e(1-5) LFU by (auto simp: createEvictor_def)
next
  case AdmissionLFU
  then show ?thesis using admission_evict_spec[of p st s ch "defaultAdmissionLFUSampleSize" b] pickVictim_spec(1,2)[OF inv ch ne, of defaultAdmissionLFUSampleSize] inv ch ne
    unfolding victim_ok_def createEvictor_def Let_def by (simp only: EvictionPolicy.case evict.simps EvictionPolicy.distinct not_False_eq_True) blast
next
  case (OtherPolicy i)
  then show ?thesis using admission_evict_spec[of p st s ch "defaultAdmissionLFUSampleSize" b] pickVictim_spec(1,2)[OF inv ch ne, of defaultAdmissionLFUSampleSize] inv ch ne
    unfolding victim_ok_def createEvictor_def Let_def by (simp only: EvictionPolicy.case evict.simps EvictionPolicy.distinct not_False_eq_True) blast
qed

lemma makeRoom_victim:
  assumes inv: "shard_inv (Policy cfg) st s" and ch: "choices_ok ch" and full: "cap > 0 \<and> ssize s \<ge> cap"
    and m: "makeRoom ch t cfg (createEvictor (Policy cfg)) cap kh st s = (True, st', s')"
  obtains k a where "mget (data s) k = Some a" "victim_ok ch (Policy cfg) st s a" "data s' = mdel k (data s)"
    "view st' s' = (view st s)(k := None)" "lruOrder st' s' = remove1 a (lruOrder st s)"
proof -
  have ne: "data s \<noteq> []" using shard_inv_ssize[OF inv] full by auto
  show thesis
  proof (cases "Policy cfg \<noteq> AdmissionLFU \<or> admission s = None")
    case True
    then show thesis using m makeRoom_evict[OF full True, of ch t _ kh st] evict_victim[OF inv ch ne, of "StatsEnabled cfg"] that by fastforce
  next
    case False
    then obtain aaf where a: "Policy cfg = AdmissionLFU" "admission s = Some aaf" by auto
    have e: "evictWithAdmission t defaultAdmissionLFUSampleSize ch (StatsEnabled cfg) aaf kh st s = (True, st', s')"
      using m unfolding makeRoom_admission[OF full a] .
    have nl: "Policy cfg \<noteq> LFU" using a by simp
    show thesis
      using evictWithAdmission_spec(4)[OF inv nl ch ne a(2) e] pickVictim_spec(1,2)[OF inv ch ne, of defaultAdmissionLFUSampleSize]
        that a(1) by (auto simp: victim_ok_def Let_def)
  qed
qed

lemma Set_victim:
  assumes c: "cache_inv c" "\<not> closed c" and ch: "choices_ok ch" and full: "fullFor c k" "cview c k = None"
    and s: "Set ch t c k v ttl = (err, c')" and k: "cview c' k \<noteq> None"
  shows "\<exists>j a. getShard c j = getShard c k \<and> mget (data (shards c ! getShard c k)) j = Some a \<and>
    victim_ok ch (Policy (config c)) (store c) (shards c ! getShard c k) a \<and>
    cview c' = (cview c)(j := None, k \<mapsto> (v, setExpire (config c) (t 0) ttl))"
proof -
  let ?i = "getShard c k" let ?s = "shards c ! ?i" and ?p = "Policy (config c)" and ?e = "setExpire (config c) (t 0) ttl"
  have l: "?i < length (shards c)" using getShard_less[OF c(1)] .
  note I = cache_shard[OF c(1) l]
  have None: "mget (data ?s) k = None" using full(2) by (simp add: cview_None)
  have evr: "evictr c = createEvictor ?p" using c(1) by (simp add: cache_inv_def)
  obtain admit st s1 where m: "makeRoom ch (\<lambda>n. t (n + 1)) (config c) (createEvictor ?p) (perShardCap c) (hasher c k) (store c) ?s = (admit, st, s1)"
    by (metis prod_cases3)
  note M = makeRoom_spec[OF I ch m]
  have k1: "mget (data s1) k = None" using None M(4) by (auto simp: map_of_eq_None_iff)
  have vc: "cview (putShard ?i (st', s') c) j = (if getShard c j = ?i then view st' s' j else cview c j)"
    if "shard_inv ?p st' s'" "frame (store c) ?s st' s'" "fst ` set (data s') \<subseteq> insert k (fst ` set (data ?s))"
      "perShardCap c > 0 \<longrightarrow> ssize s' \<le> perShardCap c" for st' s' j
    using cache_op(2)[OF c(1) refl that] by simp
  have ad: admit
  proof (rule ccontr)
    assume f: "\<not> admit"
    then have r: "c' = putShard ?i (st, s1) c"
      using s Set_absent[OF c(2) None m[folded evr], of v ttl] by auto
    have "cview c' k = view st s1 k" unfolding r
      using vc[OF M(1,2), of k] M(4,5) cache_cap[OF c(1) l] by fastforce
    then show False using k k1 by (simp add: view_def)
  qed
  obtain st' s' where u: "insertItem ch ?p (t 0) k v ?e st s1 = (st', s')" by fastforce
  have r: "c' = putShard ?i (st', s') c"
    using s Set_absent[OF c(2) None m[folded evr], of v ttl] u ad by auto
  note U = insertItem_spec[OF M(1) k1 u]
  have d: "fst ` set (data s') \<subseteq> insert k (fst ` set (data ?s))"
    using U(6) M(4) shard_invD(2)[OF M(1)] by (auto simp: set_mput map_ok_def)
  have z: "perShardCap c > 0 \<longrightarrow> ssize s' \<le> perShardCap c"
    using cache_cap[OF c(1) l] M(6)[OF ad] U(4) by fastforce
  have v: "cview c' x = (if getShard c x = ?i then view st' s' x else cview c x)" for x
    unfolding r by (rule vc[OF U(1) frame_trans[OF M(2) U(2)] d z])
  obtain j a where j: "mget (data ?s) j = Some a" "victim_ok ch ?p (store c) ?s a" "data s1 = mdel j (data ?s)"
    "view st s1 = (view (store c) ?s)(j := None)" "lruOrder st s1 = remove1 a (lruOrder (store c) ?s)"
    by (rule makeRoom_victim[OF I ch full(1)[unfolded fullFor_def] m[unfolded eqTrueI[OF ad]]])
  have h: "getShard c j = ?i" by (rule cache_home[OF c(1) l]) (use imageI[OF map_of_SomeD[OF j(1)], of fst] in simp)
  have "cview c' = (cview c)(j := None, k \<mapsto> (v, ?e))"
    by (rule ext) (simp add: v U(3) j(4) h cview_def[of c])
  then show ?thesis using j(1,2) h by blast
qed

lemma keyIn_mget:
  assumes "distinct (map fst m)" "\<And>k' a'. mget m k' = Some a' \<Longrightarrow> a' = a \<Longrightarrow> k' = k" "mget m k = Some a"
  shows "keyIn m a = k"
proof -
  have "(k, a) \<in> set (filter (\<lambda>e. snd e = a) m)" using map_of_SomeD[OF assms(3)] by simp
  then have "hd (filter (\<lambda>e. snd e = a) m) \<in> set (filter (\<lambda>e. snd e = a) m)" by (metis hd_in_set empty_iff list.set(1))
  then have e: "hd (filter (\<lambda>e. snd e = a) m) \<in> set m" "snd (hd (filter (\<lambda>e. snd e = a) m)) = a" by auto
  then have "mget m (keyIn m a) = Some a" unfolding keyIn_def using assms(1) by (metis map_of_is_SomeI prod.collapse)
  then show ?thesis using assms(2) by blast
qed

lemma keyIn_inv:
  assumes inv: "shard_inv p st s" and k: "mget (data s) k = Some a" shows "keyIn (data s) a = k"
proof (rule keyIn_mget)
  show "distinct (map fst (data s))" using shard_invD(2)[OF inv] by (simp add: map_ok_def)
  show "\<And>k' a'. mget (data s) k' = Some a' \<Longrightarrow> a' = a \<Longrightarrow> k' = k" using shard_inv_inj[OF inv] k by blast
qed (rule k)

lemma lruOrder_mget:
  assumes inv: "shard_inv p st s" and a: "a \<in> set (lruOrder st s)"
  obtains k where "mget (data s) k = Some a"
proof -
  have "wf_map (data s)" "a \<in> snd ` set (data s)" using shard_invD(2)[OF inv] a by (simp_all add: map_ok_def)
  then show thesis using that by (metis imageE map_of_is_SomeI prod.collapse)
qed

lemma lruKeys_data:
  assumes inv: "shard_inv p st s"
  shows "lruKeys st s = map (keyIn (data s)) (lruOrder st s)" unfolding lruKeys_def
proof (intro map_cong refl)
  fix a assume "a \<in> set (lruOrder st s)"
  then obtain k where k: "mget (data s) k = Some a" by (rule lruOrder_mget[OF inv])
  then show "the (key (items st a)) = keyIn (data s) a" using keyIn_inv[OF inv k] shard_inv_mget(2)[OF inv k] by simp
qed

lemma keyIn_same:
  assumes "shard_inv p st s" "shard_inv p st' s'" "a \<in> set (lruOrder st s)"
    and m: "\<And>k. mget (data s) k = Some a \<Longrightarrow> mget (data s') k = Some a"
  shows "keyIn (data s') a = keyIn (data s) a"
  using lruOrder_mget[OF assms(1,3)] keyIn_inv[OF assms(1)] keyIn_inv[OF assms(2)] m by metis

lemma map_remove1_inj: "inj_on f (insert a (set xs)) \<Longrightarrow> map f (remove1 a xs) = remove1 (f a) (map f xs)"
proof (induction xs)
  case (Cons x xs)
  then have "f x = f a \<longleftrightarrow> x = a" by (meson inj_on_eq_iff insertCI list.set_intros(1))
  moreover have "inj_on f (insert a (set xs))" using Cons.prems by (auto intro: inj_on_subset)
  ultimately show ?case using Cons.IH by (cases "x = a") simp_all
qed simp

lemma keyIn_inj: "shard_inv p st s \<Longrightarrow> inj_on (keyIn (data s)) (set (lruOrder st s))"
  by (intro inj_onI) (metis keyIn_inv lruOrder_mget option.inject)

lemma lruKeys_remove:
  assumes inv: "shard_inv p st s" and k: "mget (data s) k = Some a"
  shows "map (keyIn (data s)) (remove1 a (lruOrder st s)) = remove1 k (lruKeys st s)"
proof -
  have "insert a (set (lruOrder st s)) = set (lruOrder st s)" using shard_inv_mget(1)[OF inv k] by blast
  then show ?thesis using map_remove1_inj keyIn_inj[OF inv] keyIn_inv[OF inv k] lruKeys_data[OF inv] by metis
qed

lemma lruKeys_move:
  assumes inv: "shard_inv p st s" "shard_inv p st' s'" and k: "mget (data s) k = Some a"
    and e: "data s' = data s" "lruOrder st' s' = a # remove1 a (lruOrder st s)"
  shows "lruKeys st' s' = k # remove1 k (lruKeys st s)"
  using lruKeys_remove[OF inv(1) k] keyIn_inv[OF inv(1) k] by (simp add: lruKeys_data[OF inv(2)] e)

lemma lruKeys_del:
  assumes inv: "shard_inv p st s" "shard_inv p st' s'" and k: "mget (data s) k = Some a"
    and e: "data s' = mdel k (data s)" "lruOrder st' s' = remove1 a (lruOrder st s)"
  shows "lruKeys st' s' = remove1 k (lruKeys st s)"
proof -
  have d: "distinct (lruOrder st s)" using shard_invD(1)[OF inv(1)] by (simp add: lru_rep_def)
  have "map (keyIn (data s')) (remove1 a (lruOrder st s)) = map (keyIn (data s)) (remove1 a (lruOrder st s))"
  proof (intro map_cong refl keyIn_same[OF inv])
    fix x assume x: "x \<in> set (remove1 a (lruOrder st s))"
    then show "x \<in> set (lruOrder st s)" by (meson notin_set_remove1)
    fix j assume j: "mget (data s) j = Some x"
    have "x \<noteq> a" using x d by auto
    then have "j \<noteq> k" using j k by auto
    then show "mget (data s') j = Some x" using j by (simp add: e(1) map_simps)
  qed
  then show ?thesis using lruKeys_remove[OF inv(1) k] by (simp add: lruKeys_data[OF inv(2)] e(2))
qed

lemma lruKeys_put:
  assumes inv: "shard_inv p st s" "shard_inv p st' s'" and k: "mget (data s) k = None"
    and e: "data s' = mput k a (data s)" "lruOrder st' s' = a # lruOrder st s"
  shows "lruKeys st' s' = k # lruKeys st s"
proof -
  have a: "mget (data s') k = Some a" by (simp add: e(1) map_simps)
  have "map (keyIn (data s')) (lruOrder st s) = map (keyIn (data s)) (lruOrder st s)"
  proof (intro map_cong refl keyIn_same[OF inv])
    fix x j assume j: "mget (data s) j = Some x"
    then have "j \<noteq> k" using k by auto
    then show "mget (data s') j = Some x" using j by (simp add: e(1) map_simps)
  qed
  then show ?thesis using keyIn_inv[OF inv(2) a] by (simp add: lruKeys_data[OF inv(1)] lruKeys_data[OF inv(2)] e(2))
qed

lemma recency_putShard:
  "cache_inv c \<Longrightarrow> recency (putShard (getShard c k) (st, s) c) k = lruKeys st s"
  using getShard_less[of c k] by (simp add: recency_def)

lemma recency_last:
  assumes inv: "shard_inv p st s" and k: "mget (data s) k = Some (last (lruOrder st s))"
  shows "remove1 k (lruKeys st s) = butlast (lruKeys st s)"
proof -
  have d: "distinct (lruOrder st s)" using shard_invD(1)[OF inv] by (simp add: lru_rep_def)
  obtain xs y where e: "lruOrder st s = xs @ [y]" using shard_inv_mget(1)[OF inv k] by (cases "lruOrder st s" rule: rev_cases) auto
  have "remove1 (last (lruOrder st s)) (lruOrder st s) = butlast (lruOrder st s)"
    using d by (simp add: e remove1_append)
  then show ?thesis using lruKeys_remove[OF inv k] by (simp add: lruKeys_data[OF inv] map_butlast)
qed

lemma Set_recency:
  assumes c: "cache_inv c" "\<not> closed c" and p: "Policy (config c) = LRU" and ch: "choices_ok ch"
    and s: "Set ch t c k v ttl = (err, c')"
  shows "recency c' k = k # (if cview c k \<noteq> None then remove1 k (recency c k)
    else if fullFor c k then butlast (recency c k) else recency c k)"
proof -
  let ?i = "getShard c k" let ?s = "shards c ! ?i" and ?e = "setExpire (config c) (t 0) ttl"
  note I = cache_shard[OF c(1) getShard_less[OF c(1), of k]]
  show ?thesis
  proof (cases "mget (data ?s) k")
    case (Some a)
    obtain st' s' where u: "updateItem LRU (t 0) v ?e a (store c) ?s = (st', s')" by fastforce
    have r: "c' = putShard ?i (st', s') c" using s Set_present[OF c(2) Some, of ch t v ttl] u p by auto
    note U = updateItem_spec[OF I[unfolded p] Some u]
    have "recency c' k = k # remove1 k (recency c k)"
      unfolding r recency_putShard[OF c(1)] using lruKeys_move[OF I[unfolded p] U(1) Some U(4)] U(6) by (simp add: recency_def)
    then show ?thesis using cview_Some[OF Some] by simp
  next
    case None
    have n: "cview c k = None" using None by (simp add: cview_None)
    have evr: "evictr c = createEvictor LRU" using c(1) p by (simp add: cache_inv_def)
    obtain admit st s1 where m: "makeRoom ch (\<lambda>n. t (n + 1)) (config c) (createEvictor (Policy (config c))) (perShardCap c) (hasher c k) (store c) ?s = (admit, st, s1)"
      by (metis prod_cases3)
    have ad: admit using makeRoom_reject[OF m] p by auto
    note M = makeRoom_spec[OF I ch m]
    have k1: "mget (data s1) k = None" using None M(4) by (auto simp: map_of_eq_None_iff)
    obtain st' s' where u: "insertItem ch LRU (t 0) k v ?e st s1 = (st', s')" by fastforce
    have r: "c' = putShard ?i (st', s') c"
      using s Set_absent[OF c(2) None m[unfolded p, folded evr], of v ttl] u ad p by auto
    note U = insertItem_spec[OF M(1)[unfolded p] k1 u]
    have "recency c' k = k # lruKeys st s1"
      unfolding r recency_putShard[OF c(1)] by (rule lruKeys_put[OF M(1)[unfolded p] U(1) k1 U(6,5)])
    moreover have "lruKeys st s1 = (if fullFor c k then butlast (recency c k) else recency c k)"
    proof (cases "fullFor c k")
      case True
      obtain j a where j: "mget (data ?s) j = Some a" "victim_ok ch (Policy (config c)) (store c) ?s a" "data s1 = mdel j (data ?s)"
        "view st s1 = (view (store c) ?s)(j := None)" "lruOrder st s1 = remove1 a (lruOrder (store c) ?s)"
        by (rule makeRoom_victim[OF I ch True[unfolded fullFor_def] m[unfolded eqTrueI[OF ad]]])
      have "a = last (lruOrder (store c) ?s)" using j(2) p by (simp add: victim_ok_def)
      then show ?thesis using lruKeys_del[OF I M(1) j(1,3,5)] recency_last[OF I] j(1) True by (simp add: recency_def)
    next
      case False
      then have "st = store c" "s1 = ?s" using m by (simp_all add: makeRoom_free[OF False[unfolded fullFor_def]])
      then show ?thesis using False by (simp add: recency_def)
    qed
    ultimately show ?thesis using n by simp
  qed
qed

lemma Get_recency:
  assumes c: "cache_inv c" "\<not> closed c" and p: "Policy (config c) = LRU"
    and g: "cache_get window t c k = ((a, m, ok), c')"
  shows "recency c' k = (case cview c k of None \<Rightarrow> recency c k
    | Some (v, e) \<Rightarrow> if alive (t 0) e then k # remove1 k (recency c k) else remove1 k (recency c k))"
proof -
  let ?i = "getShard c k" let ?s = "shards c ! ?i"
  note I = cache_shard[OF c(1) getShard_less[OF c(1), of k]]
  show ?thesis
  proof (cases "mget (data ?s) k")
    case None
    then have "c' = putShard ?i (store c, countMiss (config c) ?s) c" using g c(2) by (simp add: cache_get_def Let_def)
    moreover have "lruKeys (store c) (countMiss (config c) ?s) = lruKeys (store c) ?s" by (simp add: countMiss_def lruKeys_def)
    moreover have "cview c k = None" using None by (simp add: cview_None)
    ultimately show ?thesis using recency_putShard[OF c(1), of k] by (simp add: recency_def[of c])
  next
    case (Some b)
    obtain r st' s' where f: "getFound (config c) (t 0) k b (store c) ?s = (r, st', s')" by (metis prod_cases3)
    have e: "c' = putShard ?i (st', s') c" using g c(2) Some f p by (simp add: cache_get_def Let_def)
    have v: "cview c k = Some (val (items (store c) b), expireTime (items (store c) b))" by (rule cview_Some[OF Some])
    show ?thesis
    proof (cases "expired (t 0) (items (store c) b)")
      case True
      obtain s1 where d: "dropItem (Policy (config c)) k b (store c) ?s = (st', s1)" "lruKeys st' s' = lruKeys st' s1"
        using f True by (auto simp: getFound_def lruKeys_def split: prod.splits)
      note D = dropItem_spec[OF I Some d(1)]
      have "lruKeys st' s1 = remove1 k (lruKeys (store c) ?s)" by (rule lruKeys_del[OF I D(1) Some]) (use D in simp_all)
      then show ?thesis using recency_putShard[OF c(1), of k] True by (simp add: e v d(2) expired_alive recency_def[of c])
    next
      case False
      obtain s1 where d: "touch (Policy (config c)) (t 0) b (store c) ?s = (st', s1)" "lruKeys st' s' = lruKeys st' s1"
        using f False by (auto simp: getFound_def lruKeys_def split: prod.splits)
      note D = touch_spec[OF I Some d(1)]
      have "lruKeys st' s1 = k # remove1 k (lruKeys (store c) ?s)" by (rule lruKeys_move[OF I D(1) Some]) (use D p in simp_all)
      then show ?thesis using recency_putShard[OF c(1), of k] False by (simp add: e v d(2) expired_alive recency_def[of c])
    qed
  qed
qed

lemma Delete_recency:
  assumes c: "cache_inv c" "\<not> closed c" and d: "Delete c k = (r, c')"
  shows "recency c' k = remove1 k (recency c k)"
proof -
  let ?i = "getShard c k" let ?s = "shards c ! ?i"
  note I = cache_shard[OF c(1) getShard_less[OF c(1), of k]]
  show ?thesis
  proof (cases "mget (data ?s) k")
    case None
    have "k \<notin> set (lruKeys (store c) ?s)"
    proof
      assume "k \<in> set (lruKeys (store c) ?s)"
      then obtain a where "a \<in> set (lruOrder (store c) ?s)" "keyIn (data ?s) a = k" by (auto simp: lruKeys_data[OF I])
      then show False using None keyIn_inv[OF I] by (metis lruOrder_mget[OF I] option.distinct(1))
    qed
    then show ?thesis using None d c(2) by (simp add: Delete_def Let_def recency_def remove1_idem)
  next
    case (Some a)
    obtain st' s' where x: "dropItem (Policy (config c)) k a (store c) ?s = (st', s')" by fastforce
    have e: "c' = putShard ?i (st', s') c" using d c(2) Some x by (auto simp: Delete_def Let_def)
    note D = dropItem_spec[OF I Some x]
    have "lruKeys st' s' = remove1 k (lruKeys (store c) ?s)" by (rule lruKeys_del[OF I D(1) Some]) (use D in simp_all)
    then show ?thesis unfolding e recency_putShard[OF c(1)] by (simp add: recency_def)
  qed
qed

lemma dropDead_simps [simp]:
  "dropDead now None = None" "dropDead now (Some (v, e)) = (if alive now e then Some (v, e) else None)"
  by (simp_all add: dropDead_def)

lemma Get_spec:
  assumes c: "cache_inv c" "\<not> closed c" and t: "t 0 \<le> t 1" and g: "Get (\<lambda>x. x) (\<lambda>x. x) t c k = ((v, ok), c')"
  shows "cache_inv c'" "same_cache c c'" "closed c' = closed c"
    "case dropDead (t 0) (cview c k) of Some (w, e) \<Rightarrow> v = w \<and> ok \<and> cview c' = cview c
      | None \<Rightarrow> v = 0 \<and> \<not> ok \<and> cview c' = (cview c)(k := None)"
proof -
  obtain a m ok1 c1 where g1: "cache_get (\<lambda>x. x) t c k = ((a, m, ok1), c1)" by (metis prod.collapse)
  note G = get_spec[OF c t g1]
  have r: "ok = ok1" "c' = c1" "v = (if ok1 then val (items (store c1) a) else 0)"
    using g g1 by (auto simp: Get_def split: if_splits)
  show "cache_inv c'" "same_cache c c'" "closed c' = closed c" using G(1-3) r by simp_all
  show "case dropDead (t 0) (cview c k) of Some (w, e) \<Rightarrow> v = w \<and> ok \<and> cview c' = cview c
      | None \<Rightarrow> v = 0 \<and> \<not> ok \<and> cview c' = (cview c)(k := None)"
  proof (cases "cview c k")
    case None
    then show ?thesis using G(4,5) r by (simp add: fun_upd_idem)
  next
    case (Some x)
    then show ?thesis using G(4,5,6) r by (cases x) auto
  qed
qed

lemma set_outcome:
  assumes c: "cache_inv c" "\<not> closed c" and ch: "choices_ok ch" and s: "Set ch t c k v ttl = (err, c')"
  shows "opSpec (config c) (OpSet ch t k v ttl) (cview c) (RError err) (cview c')"
proof -
  note S = Set_spec[OF c ch s]
  show ?thesis
  proof (cases "\<not> fullFor c k \<or> cview c k \<noteq> None")
    case True
    then show ?thesis using S(1,7) by simp
  next
    case False
    then have n: "fullFor c k" "cview c k = None" by blast+
    show ?thesis
    proof (cases "cview c' k")
      case None
      then show ?thesis using S(1,5) n by simp
    next
      case (Some x)
      then have "cview c' k \<noteq> None" by simp
      from Set_victim[OF c ch n s this] obtain j a where j: "getShard c j = getShard c k"
        "mget (data (shards c ! getShard c k)) j = Some a" "cview c' = (cview c)(j := None, k \<mapsto> (v, setExpire (config c) (t 0) ttl))"
        by blast
      have "cview c j \<noteq> None" using cview_Some[of c j a] j(1,2) by simp
      then show ?thesis using S(1) n j(3) by auto
    qed
  qed
qed

end
