(* ===== verification/Cache_Properties.thy ===== *)
theory Cache_Properties
  imports Cache_Correct
begin

text \<open>
  The properties of the cache: the reachable-state invariant, the size limit, refinement of a map
  with expiries, the victims of each policy, the life cycle, and the two places where the code does
  less than it means to (the read after unlock, the expiry that overflows). The definitions are the
  small caches the concrete instances run on.
\<close>

text \<open>A small cache for the concrete instances below: one shard for two keys, hashed to themselves.\<close>

definition demoConfig :: "EvictionPolicy \<Rightarrow> int \<Rightarrow> Config" where
  "demoConfig p maxSize = DefaultConfig\<lparr>MaxSize := maxSize, ShardCount := 1, Policy := p\<rparr>"

definition demo :: "EvictionPolicy \<Rightarrow> (nat, nat) cache" where
  "demo p = New (\<lambda>_ _. 0) 1 of_nat (demoConfig p 2)"

definition demoFull :: "EvictionPolicy \<Rightarrow> (nat, nat) cache" where
  "demoFull p = snd (Set someChoices (\<lambda>_. 2) (snd (Set someChoices (\<lambda>_. 1) (demo p) 1 11 0)) 2 12 0)"

section \<open>Lemmas\<close>

lemma demo_config [simp]: "config_ok (demoConfig p 2)" "MaxSize (demoConfig p 2) = 2" "Policy (demoConfig p n) = p"
  "DefaultTTL (demoConfig p n) = 30 * minute"
  by (simp_all add: config_ok_def demoConfig_def DefaultConfig_def)

lemmas demo_new = New_inv[OF demo_config(1) demo_def]

lemma full_single:
  assumes c: "cache_inv c" "length (shards c) = 1"
  shows "fullFor c k \<longleftrightarrow> 0 < perShardCap c \<and> perShardCap c \<le> int (card (dom (cview c)))"
proof -
  obtain s where s: "shards c = [s]" using c(2) by (auto simp: length_Suc_conv)
  have "getShard c k = 0" using getShard_less[OF c(1), of k] c(2) by simp
  then show ?thesis using Size_card[OF c(1)] by (simp add: fullFor_def Size_sum s)
qed

lemma demo_shape: "length (shards (demo p)) = 1" "perShardCap (demo p) = 2"
proof -
  have m: "shardCountFor 1 (demoConfig p 2) = 1"
    by (simp add: shardCountFor_def demoConfig_def DefaultConfig_def Let_def maxPow2Loop.simps maxShardCount_def NextPowerOf2_def)
  show "length (shards (demo p)) = 1" "perShardCap (demo p) = 2" using demo_new(7,8)[of p] m by simp_all
qed

lemma demo_reach: "reach (demo p) c \<Longrightarrow> reach (New (\<lambda>_ _. 0) 1 of_nat (demoConfig p 2)) c"
  by (simp add: demo_def)

lemma someChoices_ok [simp]: "choices_ok someChoices"
  by (simp add: choices_ok_def someChoices_def iter_ok_def)

lemma demoFull_reach: "reach (demo p) (demoFull p)"
  unfolding demoFull_def by (intro reach.intros) simp_all

lemma demoFull_good: "cache_inv (demoFull p)" "same_cache (demo p) (demoFull p)" "length (shards (demoFull p)) = 1"
proof -
  show g: "cache_inv (demoFull p)" "same_cache (demo p) (demoFull p)"
    using reach_good[OF demoFull_reach demo_new(1)] by (simp_all add: good_def)
  show "length (shards (demoFull p)) = 1" using same_cache_length[OF demo_new(1) g] demo_shape(1) by simp
qed

lemma demo_two:
  fixes p defines "e \<equiv> \<lambda>t. setExpire (demoConfig p 2) t 0"
  shows "cview (demoFull p) = [1 \<mapsto> (11, e 1), 2 \<mapsto> (12, e 2)]" "\<not> closed (demoFull p)"
    "p = LRU \<Longrightarrow> recency (demoFull p) 3 = [2, 1]"
proof -
  obtain e1 c1 where s1: "Set someChoices (\<lambda>_. 1) (demo p) 1 11 0 = (e1, c1)" by fastforce
  obtain e2 c2 where s2: "Set someChoices (\<lambda>_. 2) c1 2 12 0 = (e2, c2)" by fastforce
  have f: "demoFull p = c2" by (simp only: demoFull_def s1 s2 snd_conv)
  have n0: "\<not> fullFor (demo p) 1" using full_single[OF demo_new(1) demo_shape(1)] demo_new(2) demo_shape(2) by simp
  note S1 = Set_spec[OF demo_new(1,5) someChoices_ok s1]
  have v1: "cview c1 = [1 \<mapsto> (11, e 1)]" using S1(7) n0 demo_new(2,3) by (simp add: e_def)
  have o1: "\<not> closed c1" using S1(4) demo_new(5) by simp
  have l1: "length (shards c1) = 1" using same_cache_length[OF demo_new(1) S1(2,3)] demo_shape(1) by simp
  have p1: "perShardCap c1 = 2" "config c1 = demoConfig p 2" using S1(3) demo_shape(2) demo_new(3) by (simp_all add: same_cache_def)
  have n1: "\<not> fullFor c1 2" using full_single[OF S1(2) l1] v1 p1(1) by simp
  note S2 = Set_spec[OF S1(2) o1 someChoices_ok s2]
  show "cview (demoFull p) = [1 \<mapsto> (11, e 1), 2 \<mapsto> (12, e 2)]" using S2(7) n1 v1 p1(2) by (simp add: f e_def)
  show "\<not> closed (demoFull p)" using S2(4) o1 by (simp add: f)
  show "recency (demoFull p) 3 = [2, 1]" if "p = LRU"
  proof -
    have g: "getShard (demo p) x = 0" "getShard c1 x = 0" "getShard c2 x = 0" for x
      using getShard_less[OF demo_new(1), of p x] demo_shape(1) same_cache_getShard[OF S1(3)] same_cache_getShard[OF S2(3)] by simp_all
    have one: "recency (demo p) k = recency (demo p) k'" "recency c1 k = recency c1 k'" "recency c2 k = recency c2 k'" for k k'
      using g by (simp_all add: recency_def)
    have k0: "recency (demo p) 1 = []"
    proof (rule ccontr)
      assume "recency (demo p) 1 \<noteq> []"
      then have "lruOrder (store (demo p)) (shards (demo p) ! 0) \<noteq> []" using g(1) by (simp add: recency_def lruKeys_def)
      then obtain a where a: "a \<in> set (lruOrder (store (demo p)) (shards (demo p) ! 0))" by (meson hd_in_set)
      have "shard_inv p (store (demo p)) (shards (demo p) ! 0)" using cache_shard[OF demo_new(1), of 0 p] demo_shape(1) demo_new(3) by simp
      from lruOrder_mget[OF this a] obtain k where "mget (data (shards (demo p) ! 0)) k = Some a" .
      then show False using cview_None[of "demo p" k] g(1)[of k] demo_new(2)[of p] by simp
    qed
    have "recency c1 1 = [1]"
      using Set_recency[OF demo_new(1,5) _ someChoices_ok s1] n0 demo_new(2,3) k0 that by simp
    then have "recency c2 2 = [2, 1]"
      using Set_recency[OF S1(2) o1 _ someChoices_ok s2] n1 v1 p1(2) one(2)[of 2 1] that by simp
    then show ?thesis using one(3)[of 3 2] by (simp add: f)
  qed
qed

text \<open>C2. Whatever sequence of calls, worker turns and lock-window interleavings a new cache goes
  through, its shards stay well formed: map, recency list, frequency index and size counter of every
  shard agree, shards share no item, every key is in the shard its hash selects, and no shard is
  above its capacity.\<close>

theorem reachable_invariant:
  assumes "config_ok cfg" "reach (New t n hf cfg) c"
  shows "cache_inv c"
  using reach_good[OF assms(2) New_inv(1)[OF assms(1) refl]] by (simp add: good_def)

theorem reachable_invariant_witness:
  "cache_inv (snd (Delete (snd (Set someChoices (\<lambda>_. 0) (demo LFU) 1 7 0)) 1))"
  by (rule reachable_invariant[OF demo_config(1) demo_reach[where p = LFU]]) (intro reach.intros, simp)

lemma size_within_limit_parts:
  assumes "config_ok cfg" "0 < MaxSize cfg" "reach (New t n hf cfg) c"
  shows "Size c \<le> MaxSize cfg" "Size c = int (card (dom (cview c)))"
proof -
  have "cache_inv c" using reach_good[OF assms(3) New_inv(1)[OF assms(1) refl]] by (simp add: good_def)
  then show "Size c \<le> MaxSize cfg" "Size c = int (card (dom (cview c)))"
    using Size_le_MaxSize[OF assms] Size_card by blast+
qed

text \<open>C3. A cache with a size limit never holds more entries than \<open>MaxSize\<close>, and \<open>Size\<close> reports
  exactly the number of keys it holds.\<close>

theorem size_within_limit:
  assumes "config_ok cfg" "0 < MaxSize cfg" "reach (New t n hf cfg) c"
  shows "Size c \<le> MaxSize cfg \<and>
    Size c = int (card (dom (cview c)))"
  using size_within_limit_parts[OF assms] by blast

theorem size_within_limit_witness:
  "Size (snd (Set someChoices (\<lambda>_. 0) (demo LRU) 1 7 0)) \<le> 2"
  using size_within_limit[OF demo_config(1) _ demo_reach, OF _ reach_set[OF reach_refl someChoices_ok], of LRU "\<lambda>_. 0" 1 7 0]
  by simp



text \<open>C6. What was stored is read back: after a successful write that found room (or any write
  under a policy other than AdmissionLFU), a read before the entry's expiry returns that value.\<close>

theorem set_get_round_trip:
  assumes "cache_inv c" "\<not> closed c" "choices_ok ch"
    "Policy (config c) \<noteq> AdmissionLFU \<or> \<not> fullFor c k \<or> cview c k \<noteq> None"
    "alive (t' 0) (setExpire (config c) (t 0) ttl)" "t' 0 \<le> t' 1"
  shows "fst (Get (\<lambda>x. x) (\<lambda>x. x) t' (snd (Set ch t c k v ttl)) k) = (v, True)"
proof -
  obtain err c1 where s: "Set ch t c k v ttl = (err, c1)" by fastforce
  note S = Set_spec[OF assms(1-3) s]
  have k: "cview c1 k = Some (v, setExpire (config c) (t 0) ttl)" using S(5,7) assms(4) by (metis fun_upd_same)
  obtain w ok c2 where g: "Get (\<lambda>x. x) (\<lambda>x. x) t' c1 k = ((w, ok), c2)" by (metis prod.collapse)
  have "\<not> closed c1" using S(4) assms(2) by simp
  from Get_spec(4)[OF S(2) this assms(6) g] show ?thesis using k assms(5) s g by simp
qed

theorem set_get_round_trip_witness:
  "fst (Get (\<lambda>x. x) (\<lambda>x. x) (\<lambda>_. 5) (snd (Set someChoices (\<lambda>_. 0) (demo LFU) 1 7 9)) 1) = (7, True)"
  by (rule set_get_round_trip[OF demo_new(1,5) someChoices_ok])
     (simp_all add: demo_new(3) alive_def setExpire_def i64_def)

text \<open>C4. A write of a new key to a full shard that is not turned away removes exactly one entry,
  of the same shard, and the one its policy calls for: the least recently used (LRU), the oldest
  (FIFO), one of the least frequently used (LFU), or the least used and then least recently
  accessed of the sampled entries (AdmissionLFU).\<close>

theorem set_evicts_policy_victim:
  assumes "cache_inv c" "\<not> closed c" "choices_ok ch" "fullFor c k" "cview c k = None"
    "cview (snd (Set ch t c k v ttl)) k \<noteq> None"
  shows "\<exists>j a. getShard c j = getShard c k \<and> mget (data (shards c ! getShard c k)) j = Some a \<and>
    victim_ok ch (Policy (config c)) (store c) (shards c ! getShard c k) a \<and>
    cview (snd (Set ch t c k v ttl)) = (cview c)(j := None, k \<mapsto> (v, setExpire (config c) (t 0) ttl))"
  using Set_victim[OF assms(1-5) surjective_pairing assms(6)] .

theorem set_evicts_policy_victim_witness:
  "\<exists>j. cview (snd (Set someChoices (\<lambda>_. 3) (demoFull LRU) 3 13 0)) =
    (cview (demoFull LRU))(j := None, 3 \<mapsto> (13, setExpire (config (demoFull LRU)) 3 0))"
proof -
  let ?c = "demoFull LRU"
  have p: "perShardCap ?c = 2" "Policy (config ?c) = LRU" using demoFull_good(2)[of LRU] demo_shape(2) demo_new(3) by (simp_all add: same_cache_def)
  have h: "fullFor ?c 3" "cview ?c 3 = None" using full_single[OF demoFull_good(1,3)] p demo_two(1)[of LRU] by simp_all
  have "cview (snd (Set someChoices (\<lambda>_. 3) ?c 3 13 0)) 3 \<noteq> None"
    using Set_spec(5)[OF demoFull_good(1) demo_two(2) someChoices_ok surjective_pairing, of "\<lambda>_. 3" LRU 3 13 0] p by auto
  from set_evicts_policy_victim[OF demoFull_good(1) demo_two(2) someChoices_ok h this] show ?thesis by blast
qed

lemma lru_refines_recency_list_parts:
  assumes "cache_inv c" "\<not> closed c" "Policy (config c) = LRU" "choices_ok ch"
  shows "recency (snd (Set ch t c k v ttl)) k = k # (if cview c k \<noteq> None then remove1 k (recency c k)
      else if fullFor c k then butlast (recency c k) else recency c k)"
    "recency (snd (cache_get window t c k)) k = (case cview c k of None \<Rightarrow> recency c k
      | Some (w, e) \<Rightarrow> if alive (t 0) e then k # remove1 k (recency c k) else remove1 k (recency c k))"
    "recency (snd (Delete c k)) k = remove1 k (recency c k)"
proof -
  show "recency (snd (Set ch t c k v ttl)) k = k # (if cview c k \<noteq> None then remove1 k (recency c k)
      else if fullFor c k then butlast (recency c k) else recency c k)"
    by (rule Set_recency[OF assms surjective_pairing])
  obtain a m ok c' where g: "cache_get window t c k = ((a, m, ok), c')" by (metis prod.collapse)
  show "recency (snd (cache_get window t c k)) k = (case cview c k of None \<Rightarrow> recency c k
      | Some (w, e) \<Rightarrow> if alive (t 0) e then k # remove1 k (recency c k) else remove1 k (recency c k))"
    using Get_recency[OF assms(1-3) g] by (simp add: g)
  show "recency (snd (Delete c k)) k = remove1 k (recency c k)" by (rule Delete_recency[OF assms(1,2) surjective_pairing])
qed

text \<open>C5. Under LRU the list of every shard is the textbook recency list: a write or a live read
  moves its key to the front, a write of a new key to a full shard drops the last key, and a read
  of an expired entry or a \<open>Delete\<close> drops the key.\<close>

theorem lru_refines_recency_list:
  assumes "cache_inv c" "\<not> closed c" "Policy (config c) = LRU" "choices_ok ch"
  shows "(recency (snd (Set ch t c k v ttl)) k = k #
       (if cview c k \<noteq> None then remove1 k (recency c k) else if fullFor c k then butlast (recency c k) else recency c k)) \<and>
    (recency (snd (cache_get window t c k)) k = (case cview c k of None \<Rightarrow> recency c k
       | Some (w, e) \<Rightarrow> if alive (t 0) e then k # remove1 k (recency c k) else remove1 k (recency c k))) \<and>
    recency (snd (Delete c k)) k = remove1 k (recency c k)"
  using lru_refines_recency_list_parts[OF assms] by blast

theorem lru_refines_recency_list_witness:
  "recency (snd (Set someChoices (\<lambda>_. 3) (demoFull LRU) 3 13 0)) 3 = [3, 2]"
proof -
  let ?c = "demoFull LRU"
  have p: "perShardCap ?c = 2" "Policy (config ?c) = LRU" using demoFull_good(2)[of LRU] demo_shape(2) demo_new(3) by (simp_all add: same_cache_def)
  have h: "fullFor ?c 3" "cview ?c 3 = None" using full_single[OF demoFull_good(1,3)] p demo_two(1)[of LRU] by simp_all
  show ?thesis using lru_refines_recency_list[OF demoFull_good(1) demo_two(2) p(2) someChoices_ok, of "\<lambda>_. 3" 3 13 0] h
    by (simp add: demo_two(3))
qed





lemma new_shape_parts:
  assumes "config_ok cfg" "c = New t n hf cfg"
  shows "\<exists>j\<le>62. length (shards c) = 2 ^ j" "shardByHash c h < length (shards c)"
    "0 < MaxSize cfg \<Longrightarrow> 1 \<le> perShardCap c \<and> length (shards c) \<le> 256 \<and> int (length (shards c)) * perShardCap c \<le> MaxSize cfg"
proof -
  note N = New_inv[OF assms]
  obtain k where k: "k \<le> 62" "length (shards c) = 2 ^ k" "shardMask c = mask k" using N(1) by (auto simp: cache_inv_def)
  then show "\<exists>j\<le>62. length (shards c) = 2 ^ j" by blast
  show "shardByHash c h < length (shards c)" using k by (simp add: shardByHash_def unat_and_mask_less)
  assume m: "0 < MaxSize cfg"
  have n: "shardCountFor n cfg = 2 ^ k" using N(7) k(2) by simp
  then have p: "perShardCap c = MaxSize cfg div 2 ^ k" using N(8) m by simp
  have "1 \<le> perShardCap c" using shardCountFor_le(1)[OF m, of n] unfolding p n by (simp add: pos_imp_zdiv_pos_iff int_one_le_iff_zero_less)
  moreover have "length (shards c) \<le> 256" using shardCountFor_le(2)[OF m, of n] N(7) by linarith
  moreover have "(2::int) ^ k * (MaxSize cfg div 2 ^ k) \<le> MaxSize cfg"
    using pos_mod_sign[of "2 ^ k" "MaxSize cfg"] minus_mod_eq_mult_div[of "MaxSize cfg" "2 ^ k"] by (smt (verit) zero_less_power)
  ultimately show "1 \<le> perShardCap c \<and> length (shards c) \<le> 256 \<and> int (length (shards c)) * perShardCap c \<le> MaxSize cfg"
    using k(2) p by simp
qed

text \<open>C24. \<open>New\<close> always builds a usable shape: the number of shards is a power of two, every hash
  selects an existing shard, and with a size limit there are at most 256 shards, each with room for
  at least one entry.\<close>

theorem new_shape:
  assumes "config_ok cfg" "c = New t n hf cfg"
  shows "(\<exists>j\<le>62. length (shards c) = 2 ^ j) \<and>
    shardByHash c h < length (shards c) \<and>
    (0 < MaxSize cfg \<longrightarrow>
       1 \<le> perShardCap c \<and> length (shards c) \<le> 256 \<and> int (length (shards c)) * perShardCap c \<le> MaxSize cfg)"
  using new_shape_parts[OF assms] by blast

theorem new_shape_witness:
  "1 \<le> perShardCap (demo LRU) \<and> length (shards (demo LRU)) \<le> 256"
  using new_shape[OF demo_config(1) demo_def, of LRU] by simp

lemma Keys_alive:
  assumes c: "cache_inv c" "\<not> closed c" and ch: "choices_ok ch"
  shows "distinct (Keys ch t c)" "set (Keys ch t c) = {k. dropDead (t 0) (cview c k) \<noteq> None}"
proof -
  let ?ks = "\<lambda>s :: 'a shard. map fst (filter (\<lambda>e. \<not> expired (t 0) (items (store c) (snd e))) (mapOrder ch (data s)))"
  have io: "mset (mapOrder ch (data s)) = mset (data s)" for s :: "'a shard" using ch by (simp add: choices_ok_def iter_ok_mset)
  have wf: "wf_map (data s)" if "s \<in> set (shards c)" for s
    using that c(1) shard_invD(2) by (fastforce simp: cache_inv_def shards_inv_def map_ok_def)
  have ds: "distinct (?ks s)" if "s \<in> set (shards c)" for s
  proof (rule distinct_map_filter)
    have "mset (map fst (mapOrder ch (data s))) = mset (map fst (data s))" using io[of s] by simp
    then show "distinct (map fst (mapOrder ch (data s)))" using wf[OF that] by (metis mset_eq_imp_distinct_iff)
  qed
  have sub: "set (?ks s) \<subseteq> fst ` set (data s)" for s :: "'a shard" using mset_eq_setD[OF io[of s]] by auto
  have "sorted_wrt (\<lambda>s s'. set (?ks s) \<inter> set (?ks s') = {}) (shards c)"
    unfolding sorted_wrt_iff_nth_less
  proof (intro allI impI equals0I)
    fix i j k assume ij: "i < j" "j < length (shards c)" and k: "k \<in> set (?ks (shards c ! i)) \<inter> set (?ks (shards c ! j))"
    have "k \<in> fst ` set (data (shards c ! i))" "k \<in> fst ` set (data (shards c ! j))" using sub k by blast+
    then show False using cache_home[OF c(1), of i k] cache_home[OF c(1), of j k] ij by simp
  qed
  then have "distinct (concat (map ?ks (shards c)))" using ds by (intro distinct_concat_pairwise) blast+
  then show "distinct (Keys ch t c)" using c(2) by (simp add: Keys_def)
  show "set (Keys ch t c) = {k. dropDead (t 0) (cview c k) \<noteq> None}"
  proof (rule set_eqI)
    fix k
    have "k \<in> set (Keys ch t c) \<longleftrightarrow> (\<exists>s \<in> set (shards c). \<exists>a. (k, a) \<in> set (data s) \<and> \<not> expired (t 0) (items (store c) a))"
      using c(2) mset_eq_setD[OF io] by (force simp: Keys_def)
    also have "\<dots> \<longleftrightarrow> (\<exists>a. mget (data (shards c ! getShard c k)) k = Some a \<and> \<not> expired (t 0) (items (store c) a))"
    proof
      assume "\<exists>s \<in> set (shards c). \<exists>a. (k, a) \<in> set (data s) \<and> \<not> expired (t 0) (items (store c) a)"
      then obtain s a where s: "s \<in> set (shards c)" "(k, a) \<in> set (data s)" "\<not> expired (t 0) (items (store c) a)" by blast
      obtain i where i: "i < length (shards c)" "s = shards c ! i" using s(1) by (metis in_set_conv_nth)
      have "getShard c k = i" using cache_home[OF c(1) i(1), of k] s(2) i(2) by force
      then show "\<exists>a. mget (data (shards c ! getShard c k)) k = Some a \<and> \<not> expired (t 0) (items (store c) a)"
        using s(2,3) wf[OF s(1)] i(2) by auto
    next
      assume "\<exists>a. mget (data (shards c ! getShard c k)) k = Some a \<and> \<not> expired (t 0) (items (store c) a)"
      then show "\<exists>s \<in> set (shards c). \<exists>a. (k, a) \<in> set (data s) \<and> \<not> expired (t 0) (items (store c) a)"
        using getShard_less[OF c(1), of k] map_of_SomeD by (metis nth_mem)
    qed
    also have "\<dots> \<longleftrightarrow> k \<in> {k. dropDead (t 0) (cview c k) \<noteq> None}"
      by (cases "mget (data (shards c ! getShard c k)) k") (simp_all add: cview_def view_def expired_alive)
    finally show "k \<in> set (Keys ch t c) \<longleftrightarrow> k \<in> {k. dropDead (t 0) (cview c k) \<noteq> None}" .
  qed
qed

text \<open>\<open>Keys\<close> lists exactly the keys that have not expired, each once, in whatever order the maps
  are iterated.\<close>

theorem keys_lists_alive:
  assumes "cache_inv c" "\<not> closed c" "choices_ok ch"
  shows "distinct (Keys ch t c) \<and> set (Keys ch t c) = {k. \<exists>v e. cview c k = Some (v, e) \<and> alive (t 0) e}"
proof -
  have "dropDead (t 0) x \<noteq> None \<longleftrightarrow> (\<exists>v e. x = Some (v, e) \<and> alive (t 0) e)" for x :: "('b \<times> int) option"
    by (auto simp: dropDead_def split: option.splits)
  then show ?thesis using Keys_alive[OF assms] by simp
qed

theorem keys_lists_alive_witness:
  "set (Keys someChoices (\<lambda>_. 5) (demoFull LRU)) = {1, 2}"
  using keys_lists_alive[OF demoFull_good(1) demo_two(2) someChoices_ok, of "\<lambda>_. 5" LRU]
  by (auto simp: demo_two(1) alive_def setExpire_def minute_def i64_def)

lemma trigger_cleans_parts:
  assumes "cache_inv c" "\<not> closed c" "choices_ok ch"
  shows "0 < CleanupInterval (config c) \<Longrightarrow> cleanupCh (TriggerCleanup ch t c) \<and>
      cview (snd (cleanupWorker ch t' Triggered (TriggerCleanup ch t c))) = (\<lambda>k. dropDead (t' 0) (cview c k)) \<and>
      \<not> cleanupCh (snd (cleanupWorker ch t' Triggered (TriggerCleanup ch t c)))"
    "CleanupInterval (config c) \<le> 0 \<Longrightarrow> cview (TriggerCleanup ch t c) = (\<lambda>k. dropDead (t 0) (cview c k))"
proof -
  have f: "cleanupCh (cleanup ch t' (c\<lparr>cleanupCh := False\<rparr>)) = False" for t'
    by (simp add: cleanup_def Let_def split_def)
  show "cleanupCh (TriggerCleanup ch t c) \<and>
      cview (snd (cleanupWorker ch t' Triggered (TriggerCleanup ch t c))) = (\<lambda>k. dropDead (t' 0) (cview c k)) \<and>
      \<not> cleanupCh (snd (cleanupWorker ch t' Triggered (TriggerCleanup ch t c)))" if "0 < CleanupInterval (config c)"
    using that assms cleanup_spec(2)[of "c\<lparr>cleanupCh := False\<rparr>" ch t'] f[of t']
    by (simp add: TriggerCleanup_def cleanupWorker_def fun_eq_iff)
  show "cview (TriggerCleanup ch t c) = (\<lambda>k. dropDead (t 0) (cview c k))" if "CleanupInterval (config c) \<le> 0"
    using that assms cleanup_spec(2)[OF assms, of t] by (simp add: TriggerCleanup_def fun_eq_iff)
qed

text \<open>C23. A manual cleanup request is served: with a worker it is left pending, and the worker's
  turn that takes it (or, without a worker, the call itself) leaves exactly the entries that have not
  expired.\<close>

theorem trigger_cleans:
  assumes "cache_inv c" "\<not> closed c" "choices_ok ch"
  shows "(0 < CleanupInterval (config c) \<longrightarrow> cleanupCh (TriggerCleanup ch t c) \<and> cview (snd (cleanupWorker ch t' Triggered (TriggerCleanup ch t c))) = (\<lambda>k. dropDead (t' 0) (cview c k)) \<and> \<not> cleanupCh (snd (cleanupWorker ch t' Triggered (TriggerCleanup ch t c)))) \<and>
    (CleanupInterval (config c) \<le> 0 \<longrightarrow> cview (TriggerCleanup ch t c) = (\<lambda>k. dropDead (t 0) (cview c k)))"
  using trigger_cleans_parts[OF assms] by blast

theorem trigger_cleans_witness:
  "cview (snd (cleanupWorker someChoices (\<lambda>_. 10 ^ 15) Triggered (TriggerCleanup someChoices (\<lambda>_. 0) (demoFull LRU)))) = Map.empty"
proof -
  have i: "0 < CleanupInterval (config (demoFull LRU))"
    using demoFull_good(2)[of LRU] demo_new(3)[of LRU] by (simp add: same_cache_def demoConfig_def DefaultConfig_def minute_def)
  show ?thesis using i trigger_cleans[OF demoFull_good(1)[of LRU] demo_two(2) someChoices_ok, where t = "\<lambda>_. 0" and t' = "\<lambda>_. 10 ^ 15"]
    by (auto simp: demo_two(1) alive_def setExpire_def minute_def i64_def fun_eq_iff)
qed

text \<open>C26. An entry with a lifetime expires exactly when its lifetime is over, as long as the sum of
  clock and lifetime fits an \<open>int64\<close>. When it does not fit, the stored expiry wraps to a negative
  number and the entry never expires.\<close>

theorem expiry_exact:
  assumes "0 \<le> now" "now < 2 ^ 63" "0 < ttl" "ttl < 2 ^ 63"
  shows "alive later (setExpire cfg now ttl) \<longleftrightarrow> later \<le> now + ttl \<or> 2 ^ 63 \<le> now + ttl"
proof (cases "now + ttl < 2 ^ 63")
  case True
  then have "i64 (now + ttl) = now + ttl" using assms by (intro i64_id is_i64I) auto
  then show ?thesis using assms True by (auto simp: setExpire_def alive_def)
next
  case False
  then have "(now + ttl + 2 ^ 63) mod 2 ^ 64 = now + ttl + 2 ^ 63 - 2 ^ 64"
    using assms by (intro int_mod_pos_eq[where q = 1, symmetric, THEN sym]) auto
  then have "i64 (now + ttl) = now + ttl - 2 ^ 64" by (simp add: i64_def)
  then show ?thesis using assms False by (auto simp: setExpire_def alive_def)
qed

theorem expiry_exact_witness: "\<not> alive 16 (setExpire DefaultConfig 5 10)"
  using expiry_exact[of 5 10 16 DefaultConfig] by simp

lemma get_item:
  assumes c: "cache_inv c" "\<not> closed c" and e: "cview c k = Some (v, e)" "alive (t 0) e"
    and g: "cache_get window t c k = ((a, m, ok), c')"
  shows "ok" "mget (data (shards c' ! getShard c' k)) k = Some a"
proof -
  let ?i = "getShard c k" let ?s = "shards c ! ?i"
  note l = getShard_less[OF c(1), of k]
  obtain b where b: "mget (data ?s) k = Some b" using e(1) cview_None[of c k] by fastforce
  have x: "\<not> expired (t 0) (items (store c) b)" using cview_Some[OF b] e by (simp add: expired_alive)
  obtain st' s' where f: "touch (Policy (config c)) (t 0) b (store c) ?s = (st', s')" by fastforce
  note T = touch_spec[OF cache_shard[OF c(1) l] b f]
  have "ok \<and> a = b \<and> c' = putShard ?i (st', if StatsEnabled (config c) then s'\<lparr>hits := hits s' + 1\<rparr> else s') c"
    using g c(2) b x f by (auto simp: cache_get_def getFound_def Let_def)
  then show "ok" "mget (data (shards c' ! getShard c' k)) k = Some a" using T(4) b l by auto
qed

lemma insert_reuses:
  assumes c: "cache_inv c" "\<not> closed c" and k: "cview c k = None" and cap: "perShardCap c \<le> 0" and p: "pool (store c) = a # ps"
  shows "val (items (store (snd (Set someChoices t c k v ttl))) a) = v"
proof -
  let ?i = "getShard c k" let ?s = "shards c ! ?i" and ?e = "setExpire (config c) (t 0) ttl"
  note I = cache_shard[OF c(1) getShard_less[OF c(1), of k]]
  have n: "mget (data ?s) k = None" using k by (simp add: cview_None)
  have m: "makeRoom someChoices (\<lambda>n. t (n + 1)) (config c) (evictr c) (perShardCap c) (hasher c k) (store c) ?s = (True, store c, ?s)"
    using cap by (intro makeRoom_free) simp
  obtain st' s' where u: "insertItem someChoices (Policy (config c)) (t 0) k v ?e (store c) ?s = (st', s')" by fastforce
  note U = insertItem_spec[OF I n u]
  have pg: "fst (poolGet (poolPick someChoices) (store c)) = a" by (simp add: poolGet_def someChoices_def p)
  have "mget (data s') k = Some a" using U(6) pg by (simp add: map_simps)
  then have "val (items st' a) = v" using fun_cong[OF U(3), of k] by (simp add: view_def)
  then show ?thesis using Set_absent[OF c(2) n m, of v ttl] u by simp
qed

text \<open>C25. \<open>Get\<close> reads the value of the item it found after it has released the shard's lock. When the
  key is deleted and another key written in between, the recycled item holds the other key's value,
  and \<open>Get\<close> returns that value as a hit.\<close>

theorem get_may_return_other_value:
  assumes "cache_inv c" "\<not> closed c" "cview c k = Some (v, e)" "alive (t 0) e" "t 0 \<le> t 1" "perShardCap c \<le> 0"
    "cview c j = None"
  shows "fst (Get window (\<lambda>c. snd (Set someChoices t' (snd (Delete c k)) j w ttl)) t c k) = (w, True)"
proof -
  obtain a m ok c1 where g: "cache_get (\<lambda>x. x) t c k = ((a, m, ok), c1)" by (metis prod.collapse)
  have gw: "cache_get window t c k = ((a, m, ok), c1)"
  proof -
    obtain b where b: "mget (data (shards c ! getShard c k)) k = Some b" using assms(3) cview_None[of c k] by fastforce
    have "\<not> expired (t 0) (items (store c) b)" using cview_Some[OF b] assms(3,4) by (simp add: expired_alive)
    then have "cache_get window t c k = cache_get (\<lambda>x. x) t c k" using b assms(2) by (simp add: cache_get_def Let_def)
    then show ?thesis using g by simp
  qed
  note G = get_spec[OF assms(1,2,5) g]
  note J = get_item[OF assms(1-4) g]
  have v1: "cview c1 = cview c" using G(4) assms(3,4) by simp
  have o1: "\<not> closed c1" using G(3) assms(2) by simp
  obtain r c2 where d: "Delete c1 k = (r, c2)" by fastforce
  note D = Delete_spec[OF G(1) o1 d]
  obtain st' s' where x: "dropItem (Policy (config c1)) k a (store c1) (shards c1 ! getShard c1 k) = (st', s')" by fastforce
  have c2: "c2 = putShard (getShard c1 k) (st', s') c1" using d o1 J(2) x by (auto simp: Delete_def Let_def)
  have "pool (store c2) = a # pool (store c1)"
    using dropItem_spec(9)[OF cache_shard[OF G(1) getShard_less[OF G(1)]] J(2) x] by (simp add: c2)
  moreover have "\<not> closed c2" "cview c2 j = None" "perShardCap c2 \<le> 0"
    using D(3,4,5) G(2) o1 v1 assms(6,7) by (auto simp: same_cache_def)
  ultimately have "val (items (store (snd (Set someChoices t' c2 j w ttl))) a) = w" using D(2) by (intro insert_reuses)
  then show ?thesis using J(1) d by (simp add: Get_def gw)
qed

lemma demo_unbounded:
  fixes c defines "c \<equiv> snd (Set someChoices (\<lambda>_. 0) (New (\<lambda>_ _. 0) 1 of_nat (demoConfig LRU 0) :: (nat, nat) cache) 5 7 0)"
  shows "cache_inv c" "\<not> closed c" "cview c = [5 \<mapsto> (7, 30 * minute)]" "perShardCap c \<le> 0"
proof -
  have k: "config_ok (demoConfig LRU 0)" "MaxSize (demoConfig LRU 0) = 0"
    by (simp_all add: config_ok_def demoConfig_def DefaultConfig_def)
  define c0 :: "(nat, nat) cache" where c0: "c0 = New (\<lambda>_ _. 0) 1 of_nat (demoConfig LRU 0)"
  note N = New_inv[OF k(1) c0]
  have p: "perShardCap c0 = 0" using N(8) k(2) by simp
  have "Set someChoices (\<lambda>_. 0) c0 5 7 0 = (fst (Set someChoices (\<lambda>_. 0) c0 5 7 0), c)" by (simp add: c_def c0)
  note S = Set_spec[OF N(1,5) someChoices_ok this]
  show "cache_inv c" "\<not> closed c" "perShardCap c \<le> 0" using S(2-4) N(5) p by (simp_all add: same_cache_def)
  show "cview c = [5 \<mapsto> (7, 30 * minute)]" using S(7) N(2,3) p by (simp add: fullFor_def setExpire_def minute_def i64_def)
qed

theorem get_may_return_other_value_witness:
  "fst (Get (\<lambda>x. x) (\<lambda>c. snd (Set someChoices (\<lambda>_. 2) (snd (Delete c 5)) 6 8 0)) (\<lambda>_. 1)
     (snd (Set someChoices (\<lambda>_. 0) (New (\<lambda>_ _. 0) 1 of_nat (demoConfig LRU 0) :: (nat, nat) cache) 5 7 0)) 5) = (8, True)"
  by (rule get_may_return_other_value[OF demo_unbounded(1,2), where v = 7 and e = "30 * minute"]) (simp_all add: demo_unbounded alive_def minute_def)

end
