(* ===== verification/Snapshot.thy ===== *)
theory Snapshot
  imports Cache_Properties
begin

text \<open>
  \<open>snapshot.go\<close>: dumping the entries of a cache with their absolute expiry, and loading them. Loading
  bypasses the admission filter but keeps to the capacity of the shard: it evicts until there is
  room. Neither method looks at the closed flag.

  The slice that \<open>Export\<close> allocates has \<open>max\<close> as its capacity, so that a negative \<open>max\<close> panics; the
  result is \<open>None\<close> then.
\<close>

record ('k, 'v) Item =
  ItemKey :: 'k
  ItemVal :: 'v
  ExpireAbs :: int
  ItemVersion :: u64

section \<open>Export\<close>

text \<open>The loop over the map of one shard; the flag is True when it breaks out of all shards.\<close>

fun exportEntries ::
  "int \<Rightarrow> ('k \<Rightarrow> bool) \<Rightarrow> int \<Rightarrow> ('k, 'v::zero) store \<Rightarrow> ('k \<times> addr) list \<Rightarrow> ('k, 'v) Item list \<Rightarrow>
   ('k, 'v) Item list \<times> bool" where
  "exportEntries now selectFn mx st [] out = (out, False)"
| "exportEntries now selectFn mx st ((k, a) # es) out =
     (if mx > 0 \<and> int (length out) \<ge> mx then (out, True)
      else if expired now (items st a) then exportEntries now selectFn mx st es out
      else if \<not> selectFn k then exportEntries now selectFn mx st es out
      else exportEntries now selectFn mx st es
             (out @ [\<lparr>ItemKey = k, ItemVal = val (items st a), ExpireAbs = expireTime (items st a),
                      ItemVersion = word_of_int (frequency (items st a))\<rparr>]))"

fun exportShards ::
  "'k choices \<Rightarrow> (nat \<Rightarrow> int) \<Rightarrow> ('k \<Rightarrow> bool) \<Rightarrow> int \<Rightarrow> ('k, 'v::zero) store \<Rightarrow> 'k shard list \<Rightarrow>
   ('k, 'v) Item list \<Rightarrow> ('k, 'v) Item list" where
  "exportShards ch t selectFn mx st [] out = out"
| "exportShards ch t selectFn mx st (s # ss) out =
     (let (out, stop) = exportEntries (t 0) selectFn mx st (mapOrder ch (data s)) out
      in if stop then out else exportShards ch (\<lambda>n. t (n + 1)) selectFn mx st ss out)"

definition Export ::
  "'k choices \<Rightarrow> (nat \<Rightarrow> int) \<Rightarrow> ('k, 'v::zero) cache \<Rightarrow> ('k \<Rightarrow> bool) \<Rightarrow> int \<Rightarrow> ('k, 'v) Item list option" where
  "Export ch t c selectFn mx =
     (if mx < 0 then None else Some (exportShards ch t selectFn mx (store c) (shards c) []))"

section \<open>Import\<close>

text \<open>The loop that makes room: it ends because every turn that goes on lowers the size.\<close>

function importEvict ::
  "evictorKind \<Rightarrow> 'k choices \<Rightarrow> bool \<Rightarrow> int \<Rightarrow> ('k, 'v::zero) store \<Rightarrow> 'k shard \<Rightarrow> ('k, 'v) store \<times> 'k shard" where
  "importEvict e ch stats cap st s =
     (if ssize s \<ge> cap then
        let (ok, st', s') = evict e ch stats st s in
        if ok then importEvict e ch stats cap st' s' else (st', s')
      else (st, s))"
  by pat_completeness auto
termination
  by (relation "measure (\<lambda>(e, ch, stats, cap, st, s). nat (ssize s - cap + 1))") (auto dest!: evict_ssize[OF sym])

declare importEvict.simps [simp del]

text \<open>The writes common to new and existing keys, and the policy switch.\<close>

definition importWrite ::
  "EvictionPolicy \<Rightarrow> int \<Rightarrow> ('k, 'v) Item \<Rightarrow> addr \<Rightarrow> ('k, 'v::zero) store \<Rightarrow> 'k shard \<Rightarrow> ('k, 'v) store \<times> 'k shard" where
  "importWrite policy now it ex st s =
     (let st = setItem ex (key_update (\<lambda>_. Some (ItemKey it))) st;
          st = setItem ex (val_update (\<lambda>_. ItemVal it)) st;
          st = setItem ex (lastAccess_update (\<lambda>_. now)) st;
          st = setItem ex (expireTime_update (\<lambda>_. ExpireAbs it)) st
      in (case policy of
            LRU \<Rightarrow> (moveToLRUHead st s ex, s)
          | LFU \<Rightarrow>
              let st = setItem ex (frequency_update (\<lambda>_. 1)) st
              in (case lfu s of
                    None \<Rightarrow> (st, s)
                  | Some l \<Rightarrow> let (st, l) = lfu_add st l ex in (st, s\<lparr>lfu := Some l\<rparr>))
          | AdmissionLFU \<Rightarrow> (setItem ex (frequency_update (\<lambda>_. 1)) st, s)
          | _ \<Rightarrow> (st, s)))"

definition importNew ::
  "'k choices \<Rightarrow> 'k \<Rightarrow> ('k, 'v::zero) store \<Rightarrow> 'k shard \<Rightarrow> addr \<times> ('k, 'v) store \<times> 'k shard" where
  "importNew ch k st s =
     (let (ex, st) = poolGet (poolPick ch) st;
          s = s\<lparr>data := mput k ex (data s)\<rparr>;
          st = addToLRUHead st s ex
      in (ex, st, s\<lparr>ssize := ssize s + 1\<rparr>))"

definition importItem ::
  "'k choices \<Rightarrow> int \<Rightarrow> ('k, 'v::zero) cache \<Rightarrow> ('k, 'v) Item \<Rightarrow> ('k, 'v) cache" where
  "importItem ch now c it =
     (let k = ItemKey it; i = getShard c k; s = shards c ! i; st = store c; cfg = config c in
      (case mget (data s) k of
         None \<Rightarrow>
           let (st, s) = (if perShardCap c > 0
                          then importEvict (evictr c) ch (StatsEnabled cfg) (perShardCap c) st s else (st, s));
               (ex, st, s) = importNew ch k st s
           in putShard i (importWrite (Policy cfg) now it ex st s) c
       | Some ex \<Rightarrow>
           let s = (if Policy cfg = LFU then s\<lparr>lfu := map_option (\<lambda>l. lfu_remove l ex) (lfu s)\<rparr> else s)
           in putShard i (importWrite (Policy cfg) now it ex st s) c))"

definition Import ::
  "'k choices \<Rightarrow> (nat \<Rightarrow> int) \<Rightarrow> ('k, 'v::zero) cache \<Rightarrow> ('k, 'v) Item list \<Rightarrow> ('k, 'v) cache" where
  "Import ch t c its = foldl (importItem ch (t 0)) c its"

definition itemMap :: "('k, 'v) Item list \<Rightarrow> ('k \<rightharpoonup> 'v \<times> int)" where
  "itemMap its = map_of (map (\<lambda>it. (ItemKey it, ItemVal it, ExpireAbs it)) its)"

definition itemOf :: "('k, 'v::zero) store \<Rightarrow> 'k \<times> addr \<Rightarrow> ('k, 'v) Item" where
  "itemOf st e = \<lparr>ItemKey = fst e, ItemVal = val (items st (snd e)), ExpireAbs = expireTime (items st (snd e)),
                  ItemVersion = word_of_int (frequency (items st (snd e)))\<rparr>"

definition shardItems :: "int \<Rightarrow> ('k \<Rightarrow> bool) \<Rightarrow> ('k, 'v::zero) store \<Rightarrow> ('k \<times> addr) list \<Rightarrow> ('k, 'v) Item list" where
  "shardItems now sel st es = map (itemOf st) (filter (\<lambda>e. \<not> expired now (items st (snd e)) \<and> sel (fst e)) es)"

section \<open>Lemmas\<close>

lemma importEvict_spec:
  assumes "shard_inv p st s" "choices_ok ch" "0 < cap" "importEvict (createEvictor p) ch b cap st s = (st', s')"
  shows "shard_inv p st' s' \<and> frame st s st' s' \<and> view st' s' \<subseteq>\<^sub>m view st s \<and> set (data s') \<subseteq> set (data s) \<and>
    ssize s' < cap \<and> ssize s' \<le> ssize s \<and> (ssize s < cap \<longrightarrow> st' = st \<and> s' = s)"
  using assms
proof (induction "createEvictor p" ch b cap st s rule: importEvict.induct)
  case (1 ch b cap st s)
  show ?case
  proof (cases "ssize s \<ge> cap")
    case False
    then have "st' = st" "s' = s" using "1.prems"(4) by (auto simp: importEvict.simps)
    then show ?thesis using False "1.prems" by simp
  next
    case True
    obtain ok st1 s1 where e: "evict (createEvictor p) ch b st s = (ok, st1, s1)" by (metis prod_cases3)
    note E = ev.ev_size[OF "1.prems"(1,2) e]
    have ok: "ok" using E(3) True "1.prems"(3) by simp
    have r: "importEvict (createEvictor p) ch b cap st1 s1 = (st', s')"
      using "1.prems"(4) True e ok by (simp add: importEvict.simps[of _ _ _ _ st s])
    have i: "shard_inv p st' s' \<and> frame st1 s1 st' s' \<and> view st' s' \<subseteq>\<^sub>m view st1 s1 \<and> set (data s') \<subseteq> set (data s1) \<and>
      ssize s' < cap \<and> ssize s' \<le> ssize s1 \<and> (ssize s1 < cap \<longrightarrow> st' = st1 \<and> s' = s1)"
      by (rule "1.hyps"[OF True e[symmetric] refl refl ok E(1) "1.prems"(2,3) r])
    then show ?thesis using E(4,6) True ok frame_trans[OF E(2)] map_le_trans[OF _ E(5)] by auto
  qed
qed

lemma setItem_same:
  assumes "f (items st a) = items st a" "key (items st a) \<noteq> None"
  shows "setItem a f st = st"
proof -
  have "mget (itemHeap st) a = Some (items st a)"
    using assms(2) by (cases "mget (itemHeap st) a") (auto simp: items_def hget_def zeroItem_def)
  then show ?thesis using assms(1) by (simp add: setItem_def update_triv)
qed

lemma importWrite_update:
  assumes "shard_inv p st s" "mget (data s) (ItemKey it) = Some ex"
  shows "importWrite p now it ex st (if p = LFU then s\<lparr>lfu := map_option (\<lambda>l. lfu_remove l ex) (lfu s)\<rparr> else s) =
    updateItem p now (ItemVal it) (ExpireAbs it) ex st s"
proof -
  have k: "key (items st ex) = Some (ItemKey it)" using shard_inv_mget(2)[OF assms] .
  have "setItem ex (key_update (\<lambda>_. Some (ItemKey it))) st = st" by (rule setItem_same) (simp_all add: k)
  then show ?thesis
    using lfu_of_inv[of st s] assms(1)
    by (cases p; cases "lfu s") (auto simp: importWrite_def updateItem_def Let_def split: prod.splits)
qed

lemma addToLRUHead_links:
  assumes "\<And>u. next (items st' u) = next (items st u)" "\<And>u. prev (items st' u) = prev (items st u)"
  shows "next (items (addToLRUHead st' s a) u) = next (items (addToLRUHead st s a) u)"
    "prev (items (addToLRUHead st' s a) u) = prev (items (addToLRUHead st s a) u)"
  using assms by (simp_all add: addToLRUHead_def Let_def)

lemma addToLRUHead_shard [simp]: "addToLRUHead st (s\<lparr>data := m\<rparr>) a = addToLRUHead st s a"
  by (simp add: addToLRUHead_def)

lemma filled_links [simp]:
  "next (items (filled now k v e a st) u) = next (items st u)" "prev (items (filled now k v e a st) u) = prev (items st u)"
  by (simp_all add: filled_def)

lemma importInsert_spec:
  assumes inv: "shard_inv p st s" and k: "mget (data s) (ItemKey it) = None"
    and n: "importNew ch (ItemKey it) st s = (a, st1, s1)" and w: "importWrite p now it a st1 s1 = (st', s')"
  shows "shard_inv p st' s'" "frame st s st' s'" "view st' s' = (view st s)(ItemKey it \<mapsto> (ItemVal it, ExpireAbs it))"
    "ssize s' = ssize s + 1" "data s' = mput (ItemKey it) a (data s)"
proof -
  let ?k = "ItemKey it" and ?v = "ItemVal it" and ?e = "ExpireAbs it"
  obtain st0 where g: "poolGet (poolPick ch) st = (a, st0)" using n by (auto simp: importNew_def Let_def split: prod.splits)
  have s1: "st1 = addToLRUHead st0 s a" "s1 = s\<lparr>data := mput ?k a (data s), ssize := ssize s + 1\<rparr>"
    using n g by (auto simp: importNew_def Let_def)
  note G = poolGet_fresh[OF inv g]
  have ha: "head s \<noteq> a" using G(1) by (auto simp: footprint_def)
  let ?w = "setItem a (expireTime_update (\<lambda>_. ?e)) (setItem a (lastAccess_update (\<lambda>_. now))
    (setItem a (val_update (\<lambda>_. ?v)) (setItem a (key_update (\<lambda>_. Some ?k)) st1)))"
  let ?st2 = "addToLRUHead (filled now ?k ?v ?e a st0) s a"
  have L: "next (items ?st2 u) = next (items st1 u)" "prev (items ?st2 u) = prev (items st1 u)" for u
    unfolding s1(1) by (rule addToLRUHead_links; simp)+
  have ot: "items st1 u = items ?st2 u" if "u \<noteq> a" for u
    using that L[of u] by (intro cacheItem.equality) (simp_all add: s1(1))
  have W: "val (items ?w u) = val (items ?st2 u)" "expireTime (items ?w u) = expireTime (items ?st2 u)"
    "next (items ?w u) = next (items ?st2 u)" "prev (items ?w u) = prev (items ?st2 u)" "key (items ?w u) = key (items ?st2 u)"
    "u \<noteq> a \<Longrightarrow> items ?w u = items ?st2 u" "itemTop ?w = itemTop ?st2" "pool ?w = pool ?st2" for u
    using L[of u] ot[of u] by (cases "u = a"; simp add: s1(1))+
  have mv: "moveToLRUHead ?w s1 a = ?w"
    using ha by (simp add: moveToLRUHead_def s1 addToLRUHead_def Let_def)
  have nl: "lfu s = None" if "p \<noteq> LFU" using lfu_None[OF inv that] .
  have im: "snd ` set (mput ?k a (data s)) = insert a (snd ` set (data s))"
    using shard_invD(2)[OF inv] k by (auto simp: map_ok_def set_mput map_of_eq_None_iff image_iff) force+
  have "\<exists>l'. s' = s\<lparr>data := mput ?k a (data s), lfu := l', ssize := ssize s + 1\<rparr> \<and> policy_ok p st' s' \<and>
    (st' = ?w \<or> st' = setItem a (frequency_update (\<lambda>_. 1)) ?w \<or>
     st' = setItem a (frequency_update (\<lambda>_. 1)) (setItem a (frequency_update (\<lambda>_. 1)) ?w))"
  proof (cases "p = LFU")
    case True
    from inv have i: "shard_inv LFU st s" by (simp add: True)
    obtain l where l: "lfu s = Some l" "lfu_inv l"
      "lfu_freq l = (\<lambda>a. if a \<in> snd ` set (data s) then Some (frequency (items st a)) else None)"
      using lfu_of_inv[OF i] .
    have "a \<notin> snd ` set (data s)" using G(1) by (simp add: footprint_def)
    then have "lfu_freq l a = None" using l(3) by simp
    then obtain l' where li: "lfu_add (setItem a (frequency_update (\<lambda>_. 1)) ?w) l a =
        (setItem a (frequency_update (\<lambda>_. 1)) (setItem a (frequency_update (\<lambda>_. 1)) ?w), l')"
      "lfu_inv l'" "lfu_freq l' = (lfu_freq l)(a \<mapsto> 1)" by (rule lfu_add_correct[OF l(2)])
    have e: "st' = setItem a (frequency_update (\<lambda>_. 1)) (setItem a (frequency_update (\<lambda>_. 1)) ?w)"
      "s' = s\<lparr>data := mput ?k a (data s), lfu := Some l', ssize := ssize s + 1\<rparr>"
      using w True l(1) li(1) by (auto simp: importWrite_def s1(2) Let_def)
    have "policy_ok p st' s'"
      using shard_invD(3)[OF i] l(3) li(2,3) im G(8) by (auto simp: True policy_ok_def e l(1) s1(1) fun_eq_iff)
    then show ?thesis using e by blast
  next
    case False
    have e: "s' = s\<lparr>data := mput ?k a (data s), lfu := lfu s, ssize := ssize s + 1\<rparr>"
      "st' = ?w \<or> st' = setItem a (frequency_update (\<lambda>_. 1)) ?w"
      using w False mv by (auto simp: importWrite_def s1(2) Let_def split: EvictionPolicy.splits)
    have "policy_ok p st' s'" using shard_invD(3)[OF inv] False nl[OF False] by (simp add: policy_ok_def e(1))
    then show ?thesis using e by blast
  qed
  then obtain l' where s': "s' = s\<lparr>data := mput ?k a (data s), lfu := l', ssize := ssize s + 1\<rparr>" and pol: "policy_ok p st' s'"
    and c: "st' = ?w \<or> st' = setItem a (frequency_update (\<lambda>_. 1)) ?w \<or>
     st' = setItem a (frequency_update (\<lambda>_. 1)) (setItem a (frequency_update (\<lambda>_. 1)) ?w)" by blast
  have F: "val (items st' u) = val (items ?w u)" "expireTime (items st' u) = expireTime (items ?w u)"
    "next (items st' u) = next (items ?w u)" "prev (items st' u) = prev (items ?w u)" "key (items st' u) = key (items ?w u)"
    "u \<noteq> a \<Longrightarrow> items st' u = items ?w u" "itemTop st' = itemTop ?w" "pool st' = pool ?w" for u
    using c by (elim disjE; simp)+
  have X: "val (items st' u) = val (items ?st2 u)" "expireTime (items st' u) = expireTime (items ?st2 u)"
    "next (items st' u) = next (items ?st2 u)" "prev (items st' u) = prev (items ?st2 u)" "key (items st' u) = key (items ?st2 u)"
    "u \<noteq> a \<Longrightarrow> items st' u = items ?st2 u" "itemTop st' = itemTop ?st2" "pool st' = pool ?st2" for u
    by (rule trans[OF F(1) W(1)] trans[OF F(2) W(2)] trans[OF F(3) W(3)] trans[OF F(4) W(4)] trans[OF F(5) W(5)]
      trans[OF F(6) W(6)] trans[OF F(7) W(7)] trans[OF F(8) W(8)]; assumption?)+
  note N = link_new[OF inv g k X pol[unfolded s']]
  show "shard_inv p st' s'" "frame st s st' s'" "view st' s' = (view st s)(?k \<mapsto> (?v, ?e))"
    "ssize s' = ssize s + 1" "data s' = mput ?k a (data s)" using N by (simp_all add: s')
qed

lemma importItem_spec:
  fixes it :: "('k, 'v::zero) Item" and now :: int
  assumes c: "cache_inv c" and ch: "choices_ok ch"
  defines "c' \<equiv> importItem ch now c it" and "k \<equiv> ItemKey it" and "x \<equiv> (ItemVal it, ExpireAbs it)"
  shows "cache_inv c'" "same_cache c c'" "closed c' = closed c" "cview c' k = Some x"
    "\<And>j. j \<noteq> k \<Longrightarrow> cview c' j = cview c j \<or> cview c' j = None"
    "\<not> fullFor c k \<or> cview c k \<noteq> None \<Longrightarrow> cview c' = (cview c)(k \<mapsto> x)"
proof -
  let ?i = "getShard c k" let ?s = "shards c ! ?i" and ?p = "Policy (config c)"
  have l: "?i < length (shards c)" using getShard_less[OF c] .
  note I = cache_shard[OF c l]
  have "cache_inv c' \<and> same_cache c c' \<and> closed c' = closed c \<and> cview c' k = Some x \<and>
    (\<forall>j. j \<noteq> k \<longrightarrow> cview c' j = cview c j \<or> cview c' j = None) \<and>
    (\<not> fullFor c k \<or> cview c k \<noteq> None \<longrightarrow> cview c' = (cview c)(k \<mapsto> x))"
  proof (cases "mget (data ?s) k")
    case (Some a)
    obtain st' s' where u: "updateItem ?p now (ItemVal it) (ExpireAbs it) a (store c) ?s = (st', s')" by fastforce
    have Some': "mget (data ?s) (ItemKey it) = Some a" using Some by (simp add: k_def)
    have r: "c' = putShard ?i (st', s') c"
      using Some u importWrite_update[OF I Some', of now] by (simp add: c'_def importItem_def Let_def split del: if_split flip: k_def)
    note U = updateItem_spec[OF I Some u]
    have d: "fst ` set (data s') \<subseteq> insert k (fst ` set (data ?s))" using U(4) by auto
    have z: "perShardCap c > 0 \<longrightarrow> ssize s' \<le> perShardCap c" using cache_cap[OF c l] U(5) by simp
    note O = cache_op[OF c refl U(1,2) d z, folded r]
    have "cview c' = (cview c)(k \<mapsto> x)" unfolding x_def by (rule trans[OF O(2)], rule cview_update[OF c U(3)])
    then show ?thesis using O(1) r by simp
  next
    case None
    have evr: "evictr c = createEvictor ?p" using c by (simp add: cache_inv_def)
    have n: "cview c k = None" using None by (simp add: cview_None)
    obtain st s1 where m: "(if perShardCap c > 0 then importEvict (evictr c) ch (StatsEnabled (config c)) (perShardCap c) (store c) ?s
      else (store c, ?s)) = (st, s1)" by fastforce
    have M: "shard_inv ?p st s1" "frame (store c) ?s st s1" "view st s1 \<subseteq>\<^sub>m view (store c) ?s" "set (data s1) \<subseteq> set (data ?s)"
      "perShardCap c > 0 \<longrightarrow> ssize s1 < perShardCap c" "\<not> fullFor c k \<longrightarrow> st = store c \<and> s1 = ?s"
      using m importEvict_spec[OF I ch, of "perShardCap c" "StatsEnabled (config c)" st s1] I
      by (auto simp: evr fullFor_def split: if_splits)
    have k1: "mget (data s1) k = None" using None M(4) by (auto simp: map_of_eq_None_iff)
    obtain a st2 s2 where nw: "importNew ch k st s1 = (a, st2, s2)" by (metis prod_cases3)
    obtain st' s' where w: "importWrite ?p now it a st2 s2 = (st', s')" by fastforce
    have r: "c' = putShard ?i (st', s') c"
      using None m nw w by (simp add: c'_def importItem_def Let_def flip: k_def)
    have k1': "mget (data s1) (ItemKey it) = None" "importNew ch (ItemKey it) st s1 = (a, st2, s2)" using k1 nw by (simp_all add: k_def)
    note U = importInsert_spec[OF M(1) k1' w, folded k_def x_def]
    have d: "fst ` set (data s') \<subseteq> insert k (fst ` set (data ?s))"
      using U(5) M(4) shard_invD(2)[OF M(1)] by (auto simp: set_mput map_ok_def)
    have z: "perShardCap c > 0 \<longrightarrow> ssize s' \<le> perShardCap c" using M(5) U(4) by fastforce
    note O = cache_op[OF c refl U(1) frame_trans[OF M(2) U(2)] d z, folded r]
    have v: "cview c' j = (if j = k then Some x else if getShard c j = ?i then view st s1 j else cview c j)" for j
      using U(3) by (simp add: O(2))
    have vle: "view st s1 j = view (store c) ?s j \<or> view st s1 j = None" for j
      using M(3) by (auto simp: map_le_def dom_def)
    have "cview c' j = cview c j \<or> cview c' j = None" if "j \<noteq> k" for j
      using that v[of j] vle[of j] by (auto simp: cview_def)
    moreover have "cview c' = (cview c)(k \<mapsto> x)" if "\<not> fullFor c k"
      using that M(6) v by (auto simp: fun_eq_iff cview_def)
    ultimately show ?thesis using O(1) r n v[of k] by auto
  qed
  then show "cache_inv c'" "same_cache c c'" "closed c' = closed c" "cview c' k = Some x"
    "\<And>j. j \<noteq> k \<Longrightarrow> cview c' j = cview c j \<or> cview c' j = None"
    "\<not> fullFor c k \<or> cview c k \<noteq> None \<Longrightarrow> cview c' = (cview c)(k \<mapsto> x)" by simp_all
qed

lemma Import_inv:
  assumes "cache_inv c" "choices_ok ch"
  shows "cache_inv (Import ch t c its) \<and> same_cache c (Import ch t c its) \<and> closed (Import ch t c its) = closed c"
  using assms(1)
proof (induction its arbitrary: c)
  case (Cons it its)
  note S = importItem_spec[OF Cons.prems assms(2), where now = "t 0" and it = it]
  have "Import ch t c (it # its) = Import ch t (importItem ch (t 0) c it) its" by (simp add: Import_def)
  then show ?case using Cons.IH[OF S(1)] S(2,3) same_cache_trans by metis
qed (simp add: Import_def)

lemma Import_unlimited:
  assumes "cache_inv c" "choices_ok ch" "perShardCap c \<le> 0" "distinct (map ItemKey its)"
  shows "cview (Import ch t c its) = cview c ++ itemMap its"
  using assms(1,3,4)
proof (induction its arbitrary: c)
  case (Cons it its)
  let ?c = "importItem ch (t 0) c it"
  note S = importItem_spec[OF Cons.prems(1) assms(2), where now = "t 0" and it = it]
  have v: "cview ?c = (cview c)(ItemKey it \<mapsto> (ItemVal it, ExpireAbs it))" using S(6) Cons.prems(2) by (simp add: fullFor_def)
  have p: "perShardCap ?c \<le> 0" using S(2) Cons.prems(2) by (simp add: same_cache_def)
  have e: "Import ch t c (it # its) = Import ch t ?c its" by (simp add: Import_def)
  have n: "itemMap its (ItemKey it) = None" using Cons.prems(3) by (auto simp: itemMap_def map_of_eq_None_iff)
  have "cview (Import ch t ?c its) = cview ?c ++ itemMap its" using Cons.IH[OF S(1) p] Cons.prems(3) by simp
  also have "\<dots> = cview c ++ itemMap (it # its)"
    using n unfolding v by (auto simp: fun_eq_iff map_add_def itemMap_def split: option.splits)
  finally show ?case unfolding e .
qed (simp add: Import_def itemMap_def)

lemma exportEntries_all: "mx \<le> 0 \<Longrightarrow> exportEntries now sel mx st es out = (out @ shardItems now sel st es, False)"
  by (induction now sel mx st es out rule: exportEntries.induct) (auto simp: shardItems_def itemOf_def)

lemma exportShards_all:
  "mx \<le> 0 \<Longrightarrow> exportShards ch t sel mx st ss out =
     out @ concat (map (\<lambda>i. shardItems (t i) sel st (mapOrder ch (data (ss ! i)))) [0..<length ss])"
proof (induction ss arbitrary: t out)
  case (Cons s ss)
  have "[0..<length (s # ss)] = 0 # map Suc [0..<length ss]" by (simp add: upt_conv_Cons map_Suc_upt del: upt_Suc)
  then show ?case using Cons by (simp add: exportEntries_all comp_def)
qed simp

lemma exportEntries_le:
  "mx > 0 \<Longrightarrow> int (length out) \<le> mx \<Longrightarrow> exportEntries now sel mx st es out = (out', b) \<Longrightarrow>
     int (length out') \<le> mx \<and> set out' \<subseteq> set out \<union> set (shardItems now sel st es)"
proof (induction now sel mx st es out arbitrary: out' rule: exportEntries.induct)
  case (2 now sel mx st k a es out)
  show ?case
  proof (cases "int (length out) \<ge> mx")
    case True
    then show ?thesis using "2.prems" by auto
  next
    case False
    then show ?thesis using "2.prems" "2.IH" by (auto simp: shardItems_def itemOf_def split: if_splits)
  qed
qed auto

lemma exportShards_le:
  "mx > 0 \<Longrightarrow> int (length out) \<le> mx \<Longrightarrow> int (length (exportShards ch t sel mx st ss out)) \<le> mx"
proof (induction ss arbitrary: t out)
  case (Cons s ss)
  obtain out1 b where e: "exportEntries (t 0) sel mx st (mapOrder ch (data s)) out = (out1, b)" by fastforce
  have "int (length out1) \<le> mx" using exportEntries_le[OF Cons.prems e] by simp
  then show ?case using Cons e by simp
qed simp

lemma map_of_absent: "\<forall>v e. (k, v, e) \<notin> set m \<Longrightarrow> map_of m k = None"
  by (cases "map_of m k") (auto dest: map_of_SomeD)

lemma Export_all:
  fixes t :: "nat \<Rightarrow> int"
  assumes c: "cache_inv c" and ch: "choices_ok ch"
  defines "out \<equiv> exportShards ch t (\<lambda>_. True) 0 (store c) (shards c) []"
  shows "distinct (map ItemKey out)" "itemMap out k = dropDead (t (getShard c k)) (cview c k)"
proof -
  let ?f = "\<lambda>i. shardItems (t i) (\<lambda>_. True) (store c) (mapOrder ch (data (shards c ! i)))"
  let ?n = "length (shards c)"
  have o: "out = concat (map ?f [0..<?n])" by (simp add: out_def exportShards_all)
  have io: "mset (mapOrder ch (data s)) = mset (data s)" for s :: "'a shard" using ch by (simp add: choices_ok_def iter_ok_mset)
  have so: "set (mapOrder ch (data s)) = set (data s)" for s :: "'a shard" using io by (rule mset_eq_setD)
  have wf: "wf_map (data (shards c ! i))" if "i < ?n" for i
    using shard_invD(2)[OF cache_shard[OF c that]] by (simp add: map_ok_def)
  have sub: "ItemKey ` set (?f i) \<subseteq> fst ` set (data (shards c ! i))" for i by (force simp: shardItems_def itemOf_def so)
  have "distinct (concat (map (\<lambda>i. map ItemKey (?f i)) [0..<?n]))"
  proof (rule distinct_concat_pairwise)
    show "\<forall>i \<in> set [0..<?n]. distinct (map ItemKey (?f i))"
    proof
      fix i assume "i \<in> set [0..<?n]"
      then have "distinct (map fst (data (shards c ! i)))" using wf by simp
      then have "distinct (map fst (mapOrder ch (data (shards c ! i))))"
        using io[of "shards c ! i"] by (metis mset_eq_imp_distinct_iff mset_map)
      then show "distinct (map ItemKey (?f i))" by (simp add: shardItems_def itemOf_def comp_def distinct_map_filter)
    qed
    show "sorted_wrt (\<lambda>i j. set (map ItemKey (?f i)) \<inter> set (map ItemKey (?f j)) = {}) [0..<?n]"
      unfolding sorted_wrt_iff_nth_less
    proof (intro allI impI equals0I)
      fix i j x assume ij: "i < j" "j < length [0..<?n]"
        and x: "x \<in> set (map ItemKey (?f ([0..<?n] ! i))) \<inter> set (map ItemKey (?f ([0..<?n] ! j)))"
      then have "x \<in> fst ` set (data (shards c ! i))" "x \<in> fst ` set (data (shards c ! j))" using sub[of i] sub[of j] by auto
      then show False using cache_home[OF c, of i x] cache_home[OF c, of j x] ij by simp
    qed
  qed
  then show d: "distinct (map ItemKey out)" by (simp add: o map_concat comp_def)
  let ?m = "map (\<lambda>it. (ItemKey it, ItemVal it, ExpireAbs it)) out"
  have dm: "distinct (map fst ?m)" using d by (simp add: comp_def)
  have mem: "(k, v, e) \<in> set ?m \<longleftrightarrow> (\<exists>a. mget (data (shards c ! getShard c k)) k = Some a \<and>
      \<not> expired (t (getShard c k)) (items (store c) a) \<and> v = val (items (store c) a) \<and> e = expireTime (items (store c) a))" for v e
  proof -
    have "(k, v, e) \<in> set ?m \<longleftrightarrow> (\<exists>i < ?n. \<exists>a. (k, a) \<in> set (data (shards c ! i)) \<and>
      \<not> expired (t i) (items (store c) a) \<and> v = val (items (store c) a) \<and> e = expireTime (items (store c) a))"
      by (force simp: o shardItems_def itemOf_def so)
    also have "\<dots> \<longleftrightarrow> (\<exists>a. (k, a) \<in> set (data (shards c ! getShard c k)) \<and> \<not> expired (t (getShard c k)) (items (store c) a) \<and>
      v = val (items (store c) a) \<and> e = expireTime (items (store c) a))"
      using cache_home[OF c, of _ k] getShard_less[OF c, of k] by (metis fst_conv imageI)
    finally show ?thesis using wf[OF getShard_less[OF c, of k]] by simp
  qed
  show "itemMap out k = dropDead (t (getShard c k)) (cview c k)"
  proof (cases "mget (data (shards c ! getShard c k)) k")
    case None
    then have "\<forall>v e. (k, v, e) \<notin> set ?m" using mem by simp
    then have "map_of ?m k = None" by (rule map_of_absent)
    then show ?thesis using None by (simp add: itemMap_def cview_None)
  next
    case (Some a)
    note v = cview_Some[OF Some]
    show ?thesis
    proof (cases "expired (t (getShard c k)) (items (store c) a)")
      case True
      then have "\<forall>v e. (k, v, e) \<notin> set ?m" using mem Some by simp
      then have "map_of ?m k = None" by (rule map_of_absent)
      then show ?thesis using True by (simp add: itemMap_def v expired_alive)
    next
      case False
      then have "(k, val (items (store c) a), expireTime (items (store c) a)) \<in> set ?m" using mem Some by simp
      then have "map_of ?m k = Some (val (items (store c) a), expireTime (items (store c) a))" using dm by (simp add: map_of_is_SomeI)
      then show ?thesis using False by (simp add: itemMap_def v expired_alive)
    qed
  qed
qed

lemma fresh_unlimited:
  fixes d :: "('k, 'v::zero) cache"
  assumes "config_ok cfg" "MaxSize cfg \<le> 0" "d = New t n hf cfg"
  shows "cache_inv d" "cview d = Map.empty" "perShardCap d \<le> 0"
  using New_inv(1,2,8)[OF assms(1,3)] assms(2) by simp_all

lemma demo_alive: "alive 5 (setExpire (demoConfig p n) 2 0)"
  by (simp add: setExpire_def alive_def minute_def i64_def)

section \<open>Properties\<close>

text \<open>C7. Loading a dump restores the dumped cache: an unbounded export imported into a new cache
  without a size limit gives a cache that maps every key to the same value and the same absolute
  expiry, except for the keys that had expired when their shard was dumped.\<close>

theorem export_import_round_trip:
  assumes "cache_inv c" "choices_ok ch" "choices_ok ch'" "config_ok cfg" "MaxSize cfg \<le> 0"
  shows "\<exists>out. Export ch t c (\<lambda>_. True) 0 = Some out \<and>
    cview (Import ch' t' (New t0 n hf cfg) out) = (\<lambda>k. dropDead (t (getShard c k)) (cview c k))"
proof -
  let ?out = "exportShards ch t (\<lambda>_. True) 0 (store c) (shards c) []"
  define d :: "('a, 'b) cache" where "d = New t0 n hf cfg"
  note F = fresh_unlimited[OF assms(4,5) d_def]
  note E = Export_all[OF assms(1,2), of t]
  have "cview (Import ch' t' d ?out) = itemMap ?out"
    using Import_unlimited[OF F(1) assms(3) F(3) E(1), of t'] F(2) by simp
  also have "\<dots> = (\<lambda>k. dropDead (t (getShard c k)) (cview c k))" by (rule ext) (rule E(2))
  finally show ?thesis by (simp add: Export_def d_def)
qed

theorem export_import_round_trip_witness:
  "\<exists>out. Export someChoices (\<lambda>_. 5) (demoFull LRU) (\<lambda>_. True) 0 = Some out \<and>
    cview (Import someChoices (\<lambda>_. 6) (New (\<lambda>_ _. 0) 1 of_nat (demoConfig LFU 0)) out) 2 = Some (12, setExpire (demoConfig LRU 2) 2 0)"
proof -
  have k: "config_ok (demoConfig LFU 0)" "MaxSize (demoConfig LFU 0) \<le> 0"
    by (simp_all add: config_ok_def demoConfig_def DefaultConfig_def)
  obtain out where o: "Export someChoices (\<lambda>_. 5) (demoFull LRU) (\<lambda>_. True) 0 = Some out"
    and v: "cview (Import someChoices (\<lambda>_. 6) (New (\<lambda>_ _. 0) 1 of_nat (demoConfig LFU 0)) out) =
      (\<lambda>k. dropDead 5 (cview (demoFull LRU) k))"
    using export_import_round_trip[OF demoFull_good(1) someChoices_ok someChoices_ok k] by blast
  have "dropDead 5 (cview (demoFull LRU) 2) = Some (12, setExpire (demoConfig LRU 2) 2 0)"
    using demo_two(1)[of LRU] by (simp add: demo_alive)
  then show ?thesis using o v by (intro exI[of _ out]) simp
qed

text \<open>C20. An import keeps the cache well formed and within its capacity, stores the
  item it was given last, and changes no other entry except by evicting it.\<close>

theorem import_stores:
  assumes "cache_inv c" "choices_ok ch"
  shows "cache_inv (Import ch t c (its @ [it])) \<and>
    cview (Import ch t c (its @ [it])) (ItemKey it) = Some (ItemVal it, ExpireAbs it) \<and>
    (\<forall>j. j \<noteq> ItemKey it \<longrightarrow> cview (Import ch t c (its @ [it])) j = cview (Import ch t c its) j \<or>
       cview (Import ch t c (its @ [it])) j = None)"
proof -
  have e: "Import ch t c (its @ [it]) = importItem ch (t 0) (Import ch t c its) it" by (simp add: Import_def)
  have "cache_inv (Import ch t c its)" using Import_inv[OF assms] by blast
  from importItem_spec[OF this assms(2), where now = "t 0" and it = it] show ?thesis unfolding e by blast
qed

theorem import_stores_witness:
  "cview (Import someChoices (\<lambda>_. 0) (demoFull LRU) [\<lparr>ItemKey = 9, ItemVal = 4, ExpireAbs = 0, ItemVersion = 1\<rparr>]) 9 = Some (4, 0)"
  using import_stores[OF demoFull_good(1)[of LRU] someChoices_ok, of "\<lambda>_. 0" "[]" "\<lparr>ItemKey = 9, ItemVal = 4, ExpireAbs = 0, ItemVersion = 1\<rparr>"]
  by simp

text \<open>C22. The loop that makes room before an import always ends, with the shard below its capacity:
  the evictor never fails on a shard that still holds an entry.\<close>

theorem importEvict_makes_room:
  assumes "shard_inv p st s" "choices_ok ch" "0 < cap"
  shows "ssize (snd (importEvict (createEvictor p) ch b cap st s)) < cap"
  using importEvict_spec[OF assms, of b] by (metis prod.collapse)

theorem importEvict_makes_room_witness:
  "ssize (snd (importEvict (createEvictor LRU) someChoices True 1 (store (demoFull LRU)) (shards (demoFull LRU) ! 0))) < 1"
proof (rule importEvict_makes_room[OF _ someChoices_ok])
  show "shard_inv LRU (store (demoFull LRU)) (shards (demoFull LRU) ! 0)"
    using cache_shard[OF demoFull_good(1), of 0 LRU] demoFull_good(2,3)[of LRU] demo_new(3)[of LRU] by (simp add: same_cache_def)
qed simp

end
