(* ===== verification/Manager.thy ===== *)
theory Manager
  imports Snapshot
begin

text \<open>
  \<open>manager.go\<close> and \<open>errors.go\<close>: named caches. The registry maps names to cache instances, which callers
  share: \<open>GetCache\<close> returns a pointer. Instances are therefore kept in a heap of their own, and an
  instance stays there after it was removed from the registry.

  \<open>GetCache\<close> is generic in the key and value types; the type assertion on a registered instance is
  the case distinction between \<open>Mine\<close> (an instance of the requested types) and \<open>Other\<close>. The global
  functions at the end of the file apply the methods to one manager and are not repeated here.
\<close>

record CacheError =
  Op :: string
  Name :: string
  Cause :: goError

definition newCacheError :: "string \<Rightarrow> string \<Rightarrow> goError \<Rightarrow> CacheError" where
  "newCacheError op name cause = \<lparr>Op = op, Name = name, Cause = cause\<rparr>"

definition wrapError :: "string \<Rightarrow> goError \<Rightarrow> CacheError" where
  "wrapError op err = \<lparr>Op = op, Name = [], Cause = err\<rparr>"

fun errorText :: "goError \<Rightarrow> string" where
  "errorText ErrCacheExists = ''cache already exists''"
| "errorText ErrCacheNotFound = ''cache not found''"
| "errorText ErrTypeMismatch = ''cache type mismatch''"
| "errorText ErrInvalidConfig = ''invalid cache configuration''"
| "errorText ErrCacheClosed = ''cache is closed''"

definition Error :: "CacheError \<Rightarrow> string" where
  "Error e =
     (if Name e \<noteq> [] then ''cache '' @ Op e @ '' '' @ Name e @ '': '' @ errorText (Cause e)
      else ''cache '' @ Op e @ '': '' @ errorText (Cause e))"

definition Unwrap :: "CacheError \<Rightarrow> goError" where
  "Unwrap e = Cause e"

section \<open>State\<close>

datatype ('k, 'v, 'a, 'b) managed = Mine "('k, 'v) cache" | Other "('a, 'b) cache"

record ('k, 'v, 'a, 'b) Manager =
  caches :: "(string, addr) gomap"
  configs :: "(string, Config) gomap"
  instances :: "(addr, ('k, 'v, 'a, 'b) managed) gomap"
  instanceTop :: addr

definition NewManager :: "('k, 'v, 'a, 'b) Manager" where
  "NewManager = \<lparr>caches = [], configs = [], instances = [], instanceTop = 1\<rparr>"

section \<open>Operations\<close>

definition RegisterCache ::
  "('k, 'v, 'a, 'b) Manager \<Rightarrow> string \<Rightarrow> Config \<Rightarrow> CacheError option \<times> ('k, 'v, 'a, 'b) Manager" where
  "RegisterCache m name cfg =
     (case mget (configs m) name of
        Some _ \<Rightarrow> (Some (newCacheError ''register'' name ErrCacheExists), m)
      | None \<Rightarrow> (None, m\<lparr>configs := mput name cfg (configs m)\<rparr>))"


fun closeInstance ::
  "'k choices \<Rightarrow> 'a choices \<Rightarrow> ('k, 'v::zero, 'a, 'b::zero) managed \<Rightarrow> goError option \<times> ('k, 'v, 'a, 'b) managed" where
  "closeInstance ch ch' (Mine c) = (let (err, c) = Close ch c in (err, Mine c))"
| "closeInstance ch ch' (Other c) = (let (err, c) = Close ch' c in (err, Other c))"

fun instanceStats :: "('k, 'v, 'a, 'b) managed \<Rightarrow> Stats" where
  "instanceStats (Mine c) = cacheStats c"
| "instanceStats (Other c) = cacheStats c"

fun instanceClosed :: "('k, 'v, 'a, 'b) managed \<Rightarrow> bool" where
  "instanceClosed (Mine c) = closed c"
| "instanceClosed (Other c) = closed c"

definition closeAt ::
  "'k choices \<Rightarrow> 'a choices \<Rightarrow> addr \<Rightarrow> ('k, 'v::zero, 'a, 'b::zero) Manager \<Rightarrow> goError option \<times> ('k, 'v, 'a, 'b) Manager" where
  "closeAt ch ch' a m =
     (case mget (instances m) a of
        None \<Rightarrow> (None, m)
      | Some i \<Rightarrow> let (err, i) = closeInstance ch ch' i in (err, m\<lparr>instances := mput a i (instances m)\<rparr>))"


definition GetCacheStats :: "('k, 'v, 'a, 'b) Manager \<Rightarrow> (string, Stats) gomap" where
  "GetCacheStats m =
     concat (map (\<lambda>(name, a). case mget (instances m) a of None \<Rightarrow> [] | Some i \<Rightarrow> [(name, instanceStats i)]) (caches m))"

fun closeLoop ::
  "'k choices \<Rightarrow> 'a choices \<Rightarrow> (string \<times> addr) list \<Rightarrow> ('k, 'v::zero, 'a, 'b::zero) Manager \<Rightarrow>
   CacheError list \<Rightarrow> CacheError list \<times> ('k, 'v, 'a, 'b) Manager" where
  "closeLoop ch ch' [] m errs = (errs, m)"
| "closeLoop ch ch' ((name, a) # es) m errs =
     (let (err, m) = closeAt ch ch' a m
      in closeLoop ch ch' es m (case err of None \<Rightarrow> errs | Some e \<Rightarrow> errs @ [newCacheError ''close'' name e]))"

text \<open>\<open>order\<close> is the order in which \<open>sync.Map.Range\<close> visits the registry.\<close>

definition CloseAll ::
  "'k choices \<Rightarrow> 'a choices \<Rightarrow> (string \<times> addr) iter \<Rightarrow> ('k, 'v::zero, 'a, 'b::zero) Manager \<Rightarrow>
   CacheError list \<times> ('k, 'v, 'a, 'b) Manager" where
  "CloseAll ch ch' order m =
     (let (errs, m) = closeLoop ch ch' (order (caches m)) m []
      in (errs, m\<lparr>caches := []\<rparr>))"

definition RemoveCache ::
  "'k choices \<Rightarrow> 'a choices \<Rightarrow> ('k, 'v::zero, 'a, 'b::zero) Manager \<Rightarrow> string \<Rightarrow> goError option \<times> ('k, 'v, 'a, 'b) Manager" where
  "RemoveCache ch ch' m name =
     (case mget (caches m) name of
        Some a \<Rightarrow> closeAt ch ch' a (m\<lparr>caches := mdel name (caches m)\<rparr>)
      | None \<Rightarrow> (None, m\<lparr>configs := mdel name (configs m)\<rparr>))"

text \<open>Registered pointers lead to allocated instances, and an instance whose \<open>Close\<close> has run is closed.\<close>

fun closeDone :: "('k, 'v, 'a, 'b) managed \<Rightarrow> bool" where
  "closeDone (Mine c) \<longleftrightarrow> (closeOnce c \<longrightarrow> closed c)"
| "closeDone (Other c) \<longleftrightarrow> (closeOnce c \<longrightarrow> closed c)"

definition mgr_ok :: "('k, 'v, 'a, 'b) Manager \<Rightarrow> bool" where
  "mgr_ok m \<longleftrightarrow> wf_map (caches m) \<and>
     (\<forall>name a. mget (caches m) name = Some a \<longrightarrow> mget (instances m) a \<noteq> None) \<and>
     (\<forall>a i. mget (instances m) a = Some i \<longrightarrow> a < instanceTop m \<and> closeDone i)"

section \<open>Lemmas\<close>

lemma Close_result: "fst (Close ch c) = None" "closeOnce (snd (Close ch c))" "(closeOnce c \<longrightarrow> closed c) \<Longrightarrow> closed (snd (Close ch c))"
  by (auto simp: Close_def Clear_def Let_def split_def)

lemma closeInstance_result:
  "fst (closeInstance ch ch' i) = None"
  "closeDone i \<Longrightarrow> instanceClosed (snd (closeInstance ch ch' i)) \<and> closeDone (snd (closeInstance ch ch' i))"
  by (cases i; simp add: split_def Let_def Close_result(1); fail)
    (cases i; simp add: split_def Let_def Close_result(3))

lemma closeAt_result:
  assumes "closeAt ch ch' a m = (err, m')"
  shows "err = None" "caches m' = caches m" "configs m' = configs m" "instanceTop m' = instanceTop m"
    "mget (instances m') b = (if b = a then map_option (\<lambda>i. snd (closeInstance ch ch' i)) (mget (instances m) a) else mget (instances m) b)"
proof -
  have "err = None \<and> caches m' = caches m \<and> configs m' = configs m \<and> instanceTop m' = instanceTop m \<and>
    mget (instances m') b = (if b = a then map_option (\<lambda>i. snd (closeInstance ch ch' i)) (mget (instances m) a) else mget (instances m) b)"
  proof (cases "mget (instances m) a")
    case (Some i)
    obtain e j where c: "closeInstance ch ch' i = (e, j)" by fastforce
    then have "e = None" using closeInstance_result(1)[of ch ch' i] by simp
    then show ?thesis using assms Some c by (auto simp: closeAt_def map_simps)
  qed (use assms in \<open>auto simp: closeAt_def\<close>)
  then show "err = None" "caches m' = caches m" "configs m' = configs m" "instanceTop m' = instanceTop m"
    "mget (instances m') b = (if b = a then map_option (\<lambda>i. snd (closeInstance ch ch' i)) (mget (instances m) a) else mget (instances m) b)" by blast+
qed

lemma closeAt_ok:
  assumes "mgr_ok m" "closeAt ch ch' a m = (err, m')" shows "mgr_ok m'"
proof -
  note R = closeAt_result[OF assms(2)]
  have "a' < instanceTop m' \<and> closeDone i" if i: "mget (instances m') a' = Some i" for a' i
  proof (cases "a' = a")
    case True
    then obtain j where "mget (instances m) a = Some j" "i = snd (closeInstance ch ch' j)" using i R(5)[of a'] by (cases "mget (instances m) a") auto
    then show ?thesis using assms(1) closeInstance_result(2)[of j ch ch'] True unfolding mgr_ok_def R(4) by blast
  next
    case False
    then show ?thesis using i R(5)[of a'] assms(1) unfolding mgr_ok_def R(4) by simp
  qed
  moreover have "mget (instances m') b \<noteq> None" if "mget (caches m') name = Some b" for name b
    using that assms(1) R(5)[of b] unfolding mgr_ok_def R(2) by fastforce
  ultimately show ?thesis using assms(1) by (simp add: mgr_ok_def R(2))
qed

lemma closeLoop_result:
  assumes "mgr_ok m" "closeLoop ch ch' es m errs = (errs', m')"
  shows "errs' = errs \<and> mgr_ok m' \<and> caches m' = caches m \<and> configs m' = configs m \<and>
    (\<forall>a i. mget (instances m) a = Some i \<longrightarrow> (\<exists>i'. mget (instances m') a = Some i' \<and>
       (instanceClosed i \<or> a \<in> snd ` set es \<longrightarrow> instanceClosed i')))"
  using assms
proof (induction ch ch' es m errs rule: closeLoop.induct)
  case (2 ch ch' name a es m errs)
  obtain err m1 where c: "closeAt ch ch' a m = (err, m1)" by fastforce
  note R = closeAt_result[OF c] and ok = closeAt_ok[OF "2.prems"(1) c]
  have l: "closeLoop ch ch' es m1 errs = (errs', m')" using "2.prems"(2) c R(1) by simp
  note IH = "2.IH"[OF c[symmetric] refl ok] 
  have ih: "errs' = errs \<and> mgr_ok m' \<and> caches m' = caches m1 \<and> configs m' = configs m1 \<and>
    (\<forall>a i. mget (instances m1) a = Some i \<longrightarrow> (\<exists>i'. mget (instances m') a = Some i' \<and>
       (instanceClosed i \<or> a \<in> snd ` set es \<longrightarrow> instanceClosed i')))"
    using IH l R(1) by simp
  have "\<exists>i'. mget (instances m') b = Some i' \<and> (instanceClosed i \<or> b \<in> snd ` set ((name, a) # es) \<longrightarrow> instanceClosed i')"
    if b: "mget (instances m) b = Some i" for b i
  proof (cases "b = a")
    case True
    have "closeDone i" using b "2.prems"(1) by (auto simp: mgr_ok_def)
    then have "mget (instances m1) b = Some (snd (closeInstance ch ch' i))" "instanceClosed (snd (closeInstance ch ch' i))"
      using b True R(5)[of b] closeInstance_result(2) by auto
    then show ?thesis using ih by blast
  next
    case False
    then have "mget (instances m1) b = Some i" using b R(5)[of b] by simp
    then show ?thesis using ih False by auto
  qed
  then show ?case using ih R(2,3) by auto
qed auto

section \<open>Properties\<close>

text \<open>\<open>CloseAll\<close> never fails, empties the registry, and leaves every cache that was registered
  closed, in whatever order the registry is visited.\<close>

theorem closeAll_closes:
  assumes "mgr_ok m" "iter_ok order" "CloseAll ch ch' order m = (errs, m')" "mget (caches m) name = Some a"
  shows "errs = [] \<and> caches m' = [] \<and> (\<exists>i. mget (instances m') a = Some i \<and> instanceClosed i)"
proof -
  obtain e m1 where l: "closeLoop ch ch' (order (caches m)) m [] = (e, m1)" by fastforce
  note L = closeLoop_result[OF assms(1) l]
  have "(name, a) \<in> set (order (caches m))" using assms(2,4) by (simp add: map_of_SomeD)
  then have "a \<in> snd ` set (order (caches m))" by force
  moreover obtain i where "mget (instances m) a = Some i" using assms(1,4) unfolding mgr_ok_def by blast
  ultimately have "\<exists>i'. mget (instances m1) a = Some i' \<and> instanceClosed i'" using L by blast
  then show ?thesis using L assms(3) l by (auto simp: CloseAll_def)
qed

definition demoManager :: "(nat, nat, nat, nat) Manager" where
  "demoManager = \<lparr>caches = [(''users'', 1)], configs = [(''users'', demoConfig LRU 2)], instances = [(1, Mine (demo LRU))], instanceTop = 2\<rparr>"

lemma demoManager_ok: "mgr_ok demoManager"
  using demo_new(6)[of LRU] by (auto simp: mgr_ok_def demoManager_def split: if_splits)

theorem closeAll_closes_witness:
  "fst (CloseAll someChoices someChoices (\<lambda>xs. xs) demoManager) = [] \<and>
   caches (snd (CloseAll someChoices someChoices (\<lambda>xs. xs) demoManager)) = []"
  using closeAll_closes[OF demoManager_ok _ surjective_pairing, where order = "\<lambda>xs. xs" and name = "''users''" and a = 1]
  by (simp add: iter_ok_def demoManager_def)



text \<open>C28. \<open>RemoveCache\<close> of a live cache closes it and takes it out of the registry, but keeps its
  configuration: the name cannot be registered again until \<open>RemoveCache\<close> is called a second time.\<close>

theorem removeCache_keeps_config:
  assumes "mgr_ok m" "mget (caches m) name = Some a" "mget (configs m) name = Some cfg" "RemoveCache ch ch' m name = (err, m')"
  shows "err = None \<and> mget (caches m') name = None \<and> (\<exists>i. mget (instances m') a = Some i \<and> instanceClosed i) \<and>
    RegisterCache m' name cfg' = (Some (newCacheError ''register'' name ErrCacheExists), m') \<and>
    fst (RegisterCache (snd (RemoveCache ch ch' m' name)) name cfg') = None"
proof -
  have c: "closeAt ch ch' a (m\<lparr>caches := mdel name (caches m)\<rparr>) = (err, m')" using assms(2,4) by (simp add: RemoveCache_def)
  note R = closeAt_result[OF c]
  obtain i where i: "mget (instances m) a = Some i" "closeDone i" using assms(1,2) unfolding mgr_ok_def by blast
  have n: "mget (caches m') name = None" using R(2) by (simp add: map_simps)
  moreover have "\<exists>i. mget (instances m') a = Some i \<and> instanceClosed i"
    using R(5)[of a] i closeInstance_result(2)[OF i(2)] by simp
  moreover have "mget (configs m') name = Some cfg" using R(3) assms(3) by simp
  ultimately show ?thesis using R(1) by (simp add: RegisterCache_def RemoveCache_def map_simps)
qed

theorem removeCache_keeps_config_witness:
  "fst (RegisterCache (snd (RemoveCache someChoices someChoices demoManager ''users'')) ''users'' DefaultConfig) =
    Some (newCacheError ''register'' ''users'' ErrCacheExists)"
  using removeCache_keeps_config[OF demoManager_ok _ _ surjective_pairing, of "''users''" 1 "demoConfig LRU 2" someChoices someChoices DefaultConfig]
  by (simp add: demoManager_def)

end
