(* ===== verification/Pattern_Index.thy ===== *)
theory Pattern_Index
  imports Kioshun_Prelude
begin

text \<open>
  \<open>internal/httpcache/index.go\<close>: the tree that maps URL paths to cache keys. A node owns its children,
  so the tree of pointers is a datatype; a map of booleans that only ever holds \<open>true\<close> is a set of
  keys, kept as a map. The read-write lock makes every operation atomic.
\<close>

datatype PatternNode = PatternNode (children: "(string \<times> PatternNode) list") (nodeKeys: "(string, bool) gomap")

definition newPatternNode :: PatternNode where
  "newPatternNode = PatternNode [] []"

definition NewPatternIndex :: PatternNode where
  "NewPatternIndex = newPatternNode"

definition DefaultPathExtractor :: "string \<Rightarrow> string" where
  "DefaultPathExtractor key = []"

section \<open>Paths\<close>

text \<open>\<open>strings.Trim\<close> with a one-character set, \<open>strings.Split\<close> and \<open>strings.HasSuffix\<close> for a
  one-character separator or suffix.\<close>

definition trimChar :: "char \<Rightarrow> string \<Rightarrow> string" where
  "trimChar c s = rev (dropWhile (\<lambda>x. x = c) (rev (dropWhile (\<lambda>x. x = c) s)))"

fun splitOn :: "char \<Rightarrow> string \<Rightarrow> string list" where
  "splitOn c [] = [[]]"
| "splitOn c (x # xs) =
     (if x = c then [] # splitOn c xs
      else (case splitOn c xs of [] \<Rightarrow> [[x]] | w # ws \<Rightarrow> (x # w) # ws))"

definition hasSuffixChar :: "char \<Rightarrow> string \<Rightarrow> bool" where
  "hasSuffixChar c s \<longleftrightarrow> s \<noteq> [] \<and> last s = c"

definition normalizePath :: "string \<Rightarrow> string list" where
  "normalizePath path =
     (let path = (if path = [] then ''/'' else path);
          trimmed = trimChar (CHR ''/'') path
      in if trimmed = [] then []
         else filter (\<lambda>seg. seg \<noteq> []) (splitOn (CHR ''/'') trimmed))"

section \<open>Operations\<close>

fun addAt :: "string list \<Rightarrow> string \<Rightarrow> PatternNode \<Rightarrow> PatternNode" where
  "addAt [] key node = PatternNode (children node) (mput key True (nodeKeys node))"
| "addAt (s # ss) key node =
     (let child = (case mget (children node) s of None \<Rightarrow> newPatternNode | Some n \<Rightarrow> n)
      in PatternNode (mput s (addAt ss key child) (children node)) (nodeKeys node))"

definition AddKey :: "PatternNode \<Rightarrow> string \<Rightarrow> string \<Rightarrow> PatternNode" where
  "AddKey root path key = addAt (normalizePath path) key root"

fun findNode :: "PatternNode \<Rightarrow> string list \<Rightarrow> PatternNode option" where
  "findNode node [] = Some node"
| "findNode node (s # ss) = (case mget (children node) s of None \<Rightarrow> None | Some n \<Rightarrow> findNode n ss)"

text \<open>The deletion from the key set of the node that \<open>findNode\<close> returns, seen from the root.\<close>

fun removeAt :: "string list \<Rightarrow> string \<Rightarrow> PatternNode \<Rightarrow> PatternNode" where
  "removeAt [] key node = PatternNode (children node) (mdel key (nodeKeys node))"
| "removeAt (s # ss) key node =
     (case mget (children node) s of
        None \<Rightarrow> node
      | Some n \<Rightarrow> PatternNode (mput s (removeAt ss key n) (children node)) (nodeKeys node))"

definition RemoveKey :: "PatternNode \<Rightarrow> string \<Rightarrow> string \<Rightarrow> PatternNode" where
  "RemoveKey root path key =
     (case findNode root (normalizePath path) of
        None \<Rightarrow> root
      | Some _ \<Rightarrow> removeAt (normalizePath path) key root)"

text \<open>\<open>ks\<close> and \<open>cs\<close> are the orders in which the key map and the children of a node are iterated.\<close>

definition collectDirectKeys :: "string iter \<Rightarrow> PatternNode \<Rightarrow> string list" where
  "collectDirectKeys ks node = ks (map fst (nodeKeys node))"

fun collectAllKeys :: "string iter \<Rightarrow> string list iter \<Rightarrow> PatternNode \<Rightarrow> string list" where
  "collectAllKeys ks cs (PatternNode ch keys) =
     ks (map fst keys) @ concat (cs (map (\<lambda>(_, c). collectAllKeys ks cs c) ch))"

definition GetMatchingKeys :: "string iter \<Rightarrow> string list iter \<Rightarrow> PatternNode \<Rightarrow> string \<Rightarrow> string list" where
  "GetMatchingKeys ks cs root pattern =
     (let pattern = (if pattern = [] then ''/'' else pattern);
          isWildcard = hasSuffixChar (CHR ''*'') pattern;
          pattern = (if isWildcard then butlast pattern else pattern)
      in (case findNode root (normalizePath pattern) of
            None \<Rightarrow> []
          | Some node \<Rightarrow> if isWildcard then collectAllKeys ks cs node else collectDirectKeys ks node))"

definition pi_Clear :: "PatternNode \<Rightarrow> PatternNode" where
  "pi_Clear root = newPatternNode"

text \<open>The index as a map from normalized paths to sets of keys, and the invariant of its nodes.\<close>

definition keysAt :: "PatternNode \<Rightarrow> string list \<Rightarrow> string set" where
  "keysAt node p = (case findNode node p of None \<Rightarrow> {} | Some n \<Rightarrow> fst ` set (nodeKeys n))"

fun node_ok :: "PatternNode \<Rightarrow> bool" where
  "node_ok (PatternNode ch keys) \<longleftrightarrow> wf_map ch \<and> (\<forall>(_, c) \<in> set ch. node_ok c)"

section \<open>Lemmas\<close>

lemma keysAt_new [simp]: "keysAt newPatternNode p = {}"
  by (cases p) (simp_all add: keysAt_def newPatternNode_def)

lemma keysAt_Nil [simp]: "keysAt n [] = fst ` set (nodeKeys n)"
  by (simp add: keysAt_def)

lemma keysAt_Cons [simp]: "keysAt n (s # ss) = (case mget (children n) s of None \<Rightarrow> {} | Some c \<Rightarrow> keysAt c ss)"
  by (simp add: keysAt_def split: option.splits)

lemma fst_mput [simp]: "fst ` set (mput k v m) = insert k (fst ` set m)"
proof -
  have "dom (mget (mput k v m)) = insert k (dom (mget m))" by (auto simp: map_simps split: if_splits)
  then show ?thesis by (simp only: dom_map_of_conv_image_fst)
qed

lemma fst_mdel [simp]: "fst ` set (mdel k m) = fst ` set m - {k}"
proof -
  have "dom (mget (mdel k m)) = dom (mget m) - {k}" by (auto simp: map_simps split: if_splits)
  then show ?thesis by (simp only: dom_map_of_conv_image_fst)
qed

lemma keysAt_addAt: "keysAt (addAt ss k n) p = (if p = ss then insert k (keysAt n p) else keysAt n p)"
proof (induction ss k n arbitrary: p rule: addAt.induct)
  case (1 k n)
  then show ?case by (cases p) auto
next
  case (2 s ss k n)
  show ?case
  proof (cases p)
    case (Cons q qs)
    then show ?thesis using "2.IH"[OF refl, of qs] by (cases "mget (children n) s"; cases "q = s") (simp_all add: Let_def mget_mput)
  qed (simp add: Let_def)
qed

lemma keysAt_removeAt: "keysAt (removeAt ss k n) p = (if p = ss then keysAt n p - {k} else keysAt n p)"
proof (induction ss k n arbitrary: p rule: removeAt.induct)
  case (1 k n)
  then show ?case by (cases p) auto
next
  case (2 s ss k n)
  show ?case
  proof (cases p)
    case (Cons q qs)
    then show ?thesis using "2.IH"[of _ qs] by (cases "mget (children n) s"; cases "q = s") (simp_all add: mget_mput)
  qed (auto split: option.splits)
qed

lemma node_ok_child: "node_ok n \<Longrightarrow> mget (children n) s = Some c \<Longrightarrow> node_ok c"
  by (cases n) (auto dest: map_of_SomeD)

lemma node_ok_put: "node_ok n \<Longrightarrow> node_ok c \<Longrightarrow> node_ok (PatternNode (mput s c (children n)) ks)"
  by (cases n) (auto simp: set_mput wf_mput)

lemma node_ok_addAt: "node_ok n \<Longrightarrow> node_ok (addAt ss k n)"
proof (induction ss k n rule: addAt.induct)
  case (1 k n)
  then show ?case by (cases n) simp
next
  case (2 s ss k n)
  have "node_ok (case mget (children n) s of None \<Rightarrow> newPatternNode | Some n \<Rightarrow> n)"
    using node_ok_child[OF "2.prems"] by (auto simp: newPatternNode_def split: option.splits)
  then show ?case using "2.IH"[OF refl] node_ok_put[OF "2.prems"] by (simp add: Let_def)
qed

lemma node_ok_removeAt: "node_ok n \<Longrightarrow> node_ok (removeAt ss k n)"
proof (induction ss k n rule: removeAt.induct)
  case (1 k n)
  then show ?case by (cases n) simp
next
  case (2 s ss k n)
  show ?case
  proof (cases "mget (children n) s")
    case (Some c)
    then show ?thesis using node_ok_put[OF "2.prems" "2.IH"[OF Some node_ok_child[OF "2.prems" Some]]] by simp
  qed (simp add: "2.prems")
qed

lemma findNode_ok: "node_ok n \<Longrightarrow> findNode n ss = Some m \<Longrightarrow> node_ok m"
  by (induction n ss rule: findNode.induct) (auto split: option.splits dest: node_ok_child)

lemma findNode_append: "findNode n (p @ q) = (case findNode n p of None \<Rightarrow> None | Some m \<Rightarrow> findNode m q)"
  by (induction n p rule: findNode.induct) (auto split: option.splits)

lemma collectAllKeys_set:
  assumes "iter_ok ks" "iter_ok cs" "node_ok n"
  shows "set (collectAllKeys ks cs n) = (\<Union>p. keysAt n p)"
  using assms(3)
proof (induction n)
  case (PatternNode ch keys)
  let ?n = "PatternNode ch keys"
  have ih: "set (collectAllKeys ks cs c) = (\<Union>p. keysAt c p)" if "(s, c) \<in> set ch" for s c
    using PatternNode.IH[OF that, of c] PatternNode.prems that by auto
  have "set (collectAllKeys ks cs ?n) = fst ` set keys \<union> (\<Union>(s, c) \<in> set ch. set (collectAllKeys ks cs c))"
    using assms(1,2) by (auto simp: iter_ok_def)
  also have "\<dots> = fst ` set keys \<union> (\<Union>(s, c) \<in> set ch. \<Union>p. keysAt c p)"
    by (intro arg_cong2[where f = "(\<union>)"] refl SUP_cong) (auto simp: ih split: prod.splits)
  also have "\<dots> = (\<Union>p. keysAt ?n p)"
  proof -
    have "x \<in> (\<Union>p. keysAt ?n p) \<longleftrightarrow> x \<in> keysAt ?n [] \<or> (\<exists>s p. x \<in> keysAt ?n (s # p))" for x by (metis UN_iff UNIV_I neq_Nil_conv)
    moreover have "x \<in> keysAt ?n (s # p) \<longleftrightarrow> (\<exists>c. (s, c) \<in> set ch \<and> x \<in> keysAt c p)" for x s p
    proof -
      have "(s, c) \<in> set ch \<longleftrightarrow> mget ch s = Some c" for c using PatternNode.prems by simp
      then show ?thesis by (cases "mget ch s") (auto simp del: map_of_eq_Some_iff)
    qed
    ultimately have "x \<in> (\<Union>p. keysAt ?n p) \<longleftrightarrow> x \<in> fst ` set keys \<or> (\<exists>s p c. (s, c) \<in> set ch \<and> x \<in> keysAt c p)" for x
      by (simp only: keysAt_Nil PatternNode.sel)
    moreover have "x \<in> fst ` set keys \<union> (\<Union>(s, c) \<in> set ch. \<Union>p. keysAt c p) \<longleftrightarrow>
      x \<in> fst ` set keys \<or> (\<exists>s p c. (s, c) \<in> set ch \<and> x \<in> keysAt c p)" for x by (simp only: Un_iff UN_iff) blast
    ultimately show ?thesis by (intro set_eqI) (simp only:)
  qed
  finally show ?case .
qed

section \<open>Properties\<close>

text \<open>C29. The tree implements a map from normalized paths to sets of keys: adding and removing a key
  change the set of their own path and of no other, and both keep the tree well formed.\<close>

theorem index_refines_map:
  assumes "node_ok root"
  shows "keysAt (AddKey root path k) = (keysAt root)(normalizePath path := insert k (keysAt root (normalizePath path))) \<and>
    keysAt (RemoveKey root path k) = (keysAt root)(normalizePath path := keysAt root (normalizePath path) - {k}) \<and>
    node_ok (AddKey root path k) \<and> node_ok (RemoveKey root path k)"
proof (intro conjI ext)
  fix p
  show "keysAt (AddKey root path k) p = ((keysAt root)(normalizePath path := insert k (keysAt root (normalizePath path)))) p"
    by (simp add: AddKey_def keysAt_addAt)
  show "keysAt (RemoveKey root path k) p = ((keysAt root)(normalizePath path := keysAt root (normalizePath path) - {k})) p"
  proof (cases "findNode root (normalizePath path)")
    case None
    then have "keysAt root (normalizePath path) = {}" by (simp add: keysAt_def)
    then show ?thesis using None by (simp add: RemoveKey_def)
  qed (simp add: RemoveKey_def keysAt_removeAt)
qed (use assms in \<open>auto simp: AddKey_def RemoveKey_def node_ok_addAt node_ok_removeAt split: option.splits\<close>)

theorem index_refines_map_witness:
  "keysAt (AddKey NewPatternIndex ''/api/v1/'' ''k'') [''api'', ''v1''] = {''k''}"
proof -
  have n: "normalizePath ''/api/v1/'' = [''api'', ''v1'']" by code_simp
  have "node_ok NewPatternIndex" by (simp add: NewPatternIndex_def newPatternNode_def)
  from index_refines_map[OF this, of "''/api/v1/''" "''k''"] show ?thesis
    unfolding n by (simp add: NewPatternIndex_def del: keysAt_Cons)
qed

text \<open>C30. A pattern selects what it says: without a trailing star the keys of exactly that path,
  with one the keys of that path and of everything below it.\<close>

theorem matching_keys:
  assumes "iter_ok ks" "iter_ok cs" "node_ok root" "pattern \<noteq> []" "last pattern \<noteq> CHR ''*''"
  shows "set (GetMatchingKeys ks cs root pattern) = keysAt root (normalizePath pattern) \<and>
    set (GetMatchingKeys ks cs root (pattern @ ''*'')) = (\<Union>p. keysAt root (normalizePath pattern @ p))"
proof
  show "set (GetMatchingKeys ks cs root pattern) = keysAt root (normalizePath pattern)"
    using assms(1,4,5)
    by (auto simp: GetMatchingKeys_def hasSuffixChar_def collectDirectKeys_def keysAt_def iter_ok_def split: option.splits)
  have "set (GetMatchingKeys ks cs root (pattern @ ''*'')) =
      (case findNode root (normalizePath pattern) of None \<Rightarrow> {} | Some n \<Rightarrow> \<Union>p. keysAt n p)"
    using collectAllKeys_set[OF assms(1,2) findNode_ok[OF assms(3)]]
    by (auto simp: GetMatchingKeys_def hasSuffixChar_def Let_def split: option.splits)
  also have "\<dots> = (\<Union>p. keysAt root (normalizePath pattern @ p))"
    by (auto simp: keysAt_def findNode_append split: option.splits)
  finally show "set (GetMatchingKeys ks cs root (pattern @ ''*'')) = (\<Union>p. keysAt root (normalizePath pattern @ p))" .
qed

theorem matching_keys_witness:
  "set (GetMatchingKeys (\<lambda>xs. xs) (\<lambda>xs. xs) (AddKey NewPatternIndex ''/api/v1'' ''k'') ''/api/*'') \<supseteq> {''k''}"
proof -
  let ?r = "AddKey NewPatternIndex ''/api/v1'' ''k''"
  have ok: "node_ok ?r" unfolding AddKey_def by (rule node_ok_addAt) (simp add: NewPatternIndex_def newPatternNode_def)
  have n: "normalizePath ''/api/v1'' = [''api'', ''v1'']" "normalizePath ''/api/'' = [''api'']" by code_simp+
  have "''k'' \<in> keysAt ?r ([''api''] @ [''v1''])" unfolding AddKey_def keysAt_addAt n(1) by simp
  then show ?thesis
    using matching_keys[of "\<lambda>xs. xs" "\<lambda>xs. xs" ?r "''/api/''"] ok unfolding n by (auto simp: iter_ok_def simp del: keysAt_Cons)
qed

end
