(* ===== verification/Md5.thy ===== *)
theory Md5
  imports Kioshun_Prelude
begin

text \<open>
  The MD5 digest of the standard library's \<open>crypto/md5\<close> (RFC 1321), which the key generators of
  \<open>middleware.go\<close> apply, and its hexadecimal rendering by \<open>fmt.Sprintf("%x")\<close>. Strings are lists of
  bytes.
\<close>

unbundle bit_operations_syntax

definition md5_shift :: "nat list" where
  "md5_shift =
   [7, 12, 17, 22, 7, 12, 17, 22, 7, 12, 17, 22, 7, 12, 17, 22,
   5, 9, 14, 20, 5, 9, 14, 20, 5, 9, 14, 20, 5, 9, 14, 20,
   4, 11, 16, 23, 4, 11, 16, 23, 4, 11, 16, 23, 4, 11, 16, 23,
   6, 10, 15, 21, 6, 10, 15, 21, 6, 10, 15, 21, 6, 10, 15, 21]"

definition md5_table :: "32 word list" where
  "md5_table =
   [3614090360, 3905402710, 606105819, 3250441966, 4118548399, 1200080426, 2821735955, 4249261313,
   1770035416, 2336552879, 4294925233, 2304563134, 1804603682, 4254626195, 2792965006, 1236535329,
   4129170786, 3225465664, 643717713, 3921069994, 3593408605, 38016083, 3634488961, 3889429448,
   568446438, 3275163606, 4107603335, 1163531501, 2850285829, 4243563512, 1735328473, 2368359562,
   4294588738, 2272392833, 1839030562, 4259657740, 2763975236, 1272893353, 4139469664, 3200236656,
   681279174, 3936430074, 3572445317, 76029189, 3654602809, 3873151461, 530742520, 3299628645,
   4096336452, 1126891415, 2878612391, 4237533241, 1700485571, 2399980690, 4293915773, 2240044497,
   1873313359, 4264355552, 2734768916, 1309151649, 4149444226, 3174756917, 718787259, 3951481745]"

definition rotl32 :: "nat \<Rightarrow> 32 word \<Rightarrow> 32 word" where
  "rotl32 s x = push_bit s x OR drop_bit (32 - s) x"

definition le32 :: "nat list \<Rightarrow> 32 word" where
  "le32 bs = word_of_nat (bs ! 0 + 256 * (bs ! 1 + 256 * (bs ! 2 + 256 * (bs ! 3))))"

fun le_bytes :: "nat \<Rightarrow> nat \<Rightarrow> nat list" where
  "le_bytes 0 x = []"
| "le_bytes (Suc n) x = x mod 256 # le_bytes n (x div 256)"

definition md5_pad :: "nat list \<Rightarrow> nat list" where
  "md5_pad bs = bs @ [128] @ replicate ((119 - length bs mod 64) mod 64) 0 @ le_bytes 8 (8 * length bs)"

definition md5_step ::
  "(nat \<Rightarrow> 32 word) \<Rightarrow> nat \<Rightarrow> 32 word \<times> 32 word \<times> 32 word \<times> 32 word \<Rightarrow> 32 word \<times> 32 word \<times> 32 word \<times> 32 word" where
  "md5_step m i = (\<lambda>(a, b, c, d).
     let (f, g) =
       (if i < 16 then ((b AND c) OR (NOT b AND d), i)
        else if i < 32 then ((d AND b) OR (NOT d AND c), (5 * i + 1) mod 16)
        else if i < 48 then (b XOR c XOR d, (3 * i + 5) mod 16)
        else (c XOR (b OR NOT d), (7 * i) mod 16))
     in (d, b + rotl32 (md5_shift ! i) (a + f + md5_table ! i + m g), b, c))"

definition md5_block ::
  "nat list \<Rightarrow> 32 word \<times> 32 word \<times> 32 word \<times> 32 word \<Rightarrow> 32 word \<times> 32 word \<times> 32 word \<times> 32 word" where
  "md5_block bs = (\<lambda>(a0, b0, c0, d0).
     let m = (\<lambda>j. le32 (drop (4 * j) bs));
         (a, b, c, d) = fold (md5_step m) [0..<64] (a0, b0, c0, d0)
     in (a0 + a, b0 + b, c0 + c, d0 + d))"

fun md5_blocks ::
  "nat \<Rightarrow> nat list \<Rightarrow> 32 word \<times> 32 word \<times> 32 word \<times> 32 word \<Rightarrow> 32 word \<times> 32 word \<times> 32 word \<times> 32 word" where
  "md5_blocks 0 bs h = h"
| "md5_blocks (Suc n) bs h = md5_blocks n (drop 64 bs) (md5_block (take 64 bs) h)"

definition md5 :: "string \<Rightarrow> nat list" where
  "md5 s =
     (let bs = md5_pad (map of_char s);
          (a, b, c, d) = md5_blocks (length bs div 64) bs (0x67452301, 0xefcdab89, 0x98badcfe, 0x10325476)
      in concat (map (\<lambda>w. le_bytes 4 (unat w)) [a, b, c, d]))"

definition hexDigit :: "nat \<Rightarrow> char" where
  "hexDigit n = (if n < 10 then char_of (48 + n) else char_of (87 + n))"

definition hexString :: "nat list \<Rightarrow> string" where
  "hexString bs = concat (map (\<lambda>b. [hexDigit (b div 16), hexDigit (b mod 16)]) bs)"

section \<open>Lemmas\<close>

lemma le_bytes_length [simp]: "length (le_bytes n x) = n"
  by (induction n arbitrary: x) simp_all

lemma hexString_length: "length (hexString bs) = 2 * length bs"
  by (induction bs) (simp_all add: hexString_def)

text \<open>A key rendered from a digest always has 32 characters.\<close>

lemma md5_length: "length (md5 s) = 16"
  by (simp add: md5_def Let_def split: prod.splits)

end
