(* ===== verification/Http_Middleware.thy ===== *)
theory Http_Middleware
  imports Cache_Properties Pattern_Index Md5
begin

text \<open>
  \<open>middleware.go\<close>: the HTTP response cache. A request is answered from the cache, or the wrapped
  handler runs against a response writer that records status, headers and body. Of \<open>net/http\<close> the
  model has canonical header keys, \<open>Header.Get\<close> and \<open>Header.Set\<close>, and the response writer's rule that the
  first \<open>WriteHeader\<close> or \<open>Write\<close> sends a copy of the headers. The calendar functions of \<open>time\<close>, which
  depend on the zone of the machine, are the parameters \<open>timeLib\<close>. A stored \<open>*CachedResponse\<close> is never
  written again, so it is a value; \<open>nil\<close> is \<open>None\<close>. User callbacks are recorded as events.
\<close>

section \<open>Strings\<close>

fun hasPrefix :: "string \<Rightarrow> string \<Rightarrow> bool" where
  "hasPrefix s [] \<longleftrightarrow> True"
| "hasPrefix [] (p # ps) \<longleftrightarrow> False"
| "hasPrefix (c # cs) (p # ps) \<longleftrightarrow> c = p \<and> hasPrefix cs ps"

fun strContains :: "string \<Rightarrow> string \<Rightarrow> bool" where
  "strContains [] sub \<longleftrightarrow> sub = []"
| "strContains (c # cs) sub \<longleftrightarrow> hasPrefix (c # cs) sub \<or> strContains cs sub"

definition isSpace :: "char \<Rightarrow> bool" where
  "isSpace c \<longleftrightarrow> (of_char c :: nat) \<in> {9, 10, 11, 12, 13, 32}"

definition trimSpace :: "string \<Rightarrow> string" where
  "trimSpace s = rev (dropWhile isSpace (rev (dropWhile isSpace s)))"

text \<open>\<open>strconv.Atoi\<close>: an optional sign and at least one decimal digit, within the range of \<open>int\<close>.\<close>

definition digit :: "char \<Rightarrow> int option" where
  "digit c = (let n = of_char c :: int in if 48 \<le> n \<and> n \<le> 57 then Some (n - 48) else None)"

fun digitsVal :: "int \<Rightarrow> string \<Rightarrow> int option" where
  "digitsVal acc [] = Some acc"
| "digitsVal acc (c # cs) = (case digit c of None \<Rightarrow> None | Some d \<Rightarrow> digitsVal (10 * acc + d) cs)"

definition atoi :: "string \<Rightarrow> int option" where
  "atoi s =
     (let neg = hasPrefix s ''-'';
          ds = (if neg \<or> hasPrefix s ''+'' then tl s else s)
      in if ds = [] then None
         else (case digitsVal 0 ds of
                 None \<Rightarrow> None
               | Some n \<Rightarrow>
                   let v = (if neg then - n else n)
                   in if - (2 ^ 63) \<le> v \<and> v < 2 ^ 63 then Some v else None))"

section \<open>Headers, requests and response writers\<close>

type_synonym Header = "(string, string list) gomap"

definition isUpper :: "char \<Rightarrow> bool" where
  "isUpper c \<longleftrightarrow> 65 \<le> (of_char c :: nat) \<and> (of_char c :: nat) \<le> 90"

definition isLower :: "char \<Rightarrow> bool" where
  "isLower c \<longleftrightarrow> 97 \<le> (of_char c :: nat) \<and> (of_char c :: nat) \<le> 122"

definition validHeaderFieldByte :: "char \<Rightarrow> bool" where
  "validHeaderFieldByte c \<longleftrightarrow>
     isUpper c \<or> isLower c \<or> digit c \<noteq> None \<or>
     (of_char c :: nat) \<in> {33, 35, 36, 37, 38, 39, 42, 43, 45, 46, 94, 95, 96, 124, 126}"

fun canonFrom :: "bool \<Rightarrow> string \<Rightarrow> string" where
  "canonFrom upper [] = []"
| "canonFrom upper (c # cs) =
     (if upper \<and> isLower c then char_of ((of_char c :: nat) - 32)
      else if \<not> upper \<and> isUpper c then char_of ((of_char c :: nat) + 32)
      else c) # canonFrom (c = CHR ''-'') cs"

definition canonicalHeaderKey :: "string \<Rightarrow> string" where
  "canonicalHeaderKey s = (if list_all validHeaderFieldByte s then canonFrom True s else s)"

definition headerGet :: "Header \<Rightarrow> string \<Rightarrow> string" where
  "headerGet h k = (case mget h (canonicalHeaderKey k) of Some (v # _) \<Rightarrow> v | _ \<Rightarrow> [])"

definition headerSet :: "string \<Rightarrow> string \<Rightarrow> Header \<Rightarrow> Header" where
  "headerSet k v h = mput (canonicalHeaderKey k) [v] h"

record Request =
  Method :: string
  URLString :: string
  URLPath :: string
  reqHeader :: Header

text \<open>The server's writer: \<open>sent\<close> is the status line and the copy of the headers that went out.\<close>

record ResponseWriter =
  whdr :: Header
  sent :: "(int \<times> Header) option"
  wbody :: string

definition serverWriteHeader :: "int \<Rightarrow> ResponseWriter \<Rightarrow> ResponseWriter" where
  "serverWriteHeader code w =
     (if 100 \<le> code \<and> code \<le> 199 \<and> code \<noteq> 101 then w
      else (case sent w of None \<Rightarrow> w\<lparr>sent := Some (code, whdr w)\<rparr> | Some _ \<Rightarrow> w))"

definition serverWrite :: "string \<Rightarrow> ResponseWriter \<Rightarrow> ResponseWriter" where
  "serverWrite bytes w =
     (let w = (if sent w = None then serverWriteHeader 200 w else w)
      in w\<lparr>wbody := wbody w @ bytes\<rparr>)"

text \<open>\<open>for k, v := range src { dst[k] = v }\<close>\<close>

definition copyHeaders :: "Header \<Rightarrow> Header \<Rightarrow> Header" where
  "copyHeaders src dst = fold (\<lambda>(k, v). mput k v) src dst"

record responseWriter =
  under :: ResponseWriter
  statusCode :: int
  buf :: string
  headers :: Header

definition newResponseWriter :: "ResponseWriter \<Rightarrow> responseWriter" where
  "newResponseWriter w = \<lparr>under = w, statusCode = 200, buf = [], headers = []\<rparr>"

definition rw_WriteHeader :: "int \<Rightarrow> responseWriter \<Rightarrow> responseWriter" where
  "rw_WriteHeader code rw =
     rw\<lparr>statusCode := code, headers := copyHeaders (whdr (under rw)) (headers rw),
        under := serverWriteHeader code (under rw)\<rparr>"

definition rw_Write :: "string \<Rightarrow> responseWriter \<Rightarrow> responseWriter" where
  "rw_Write bytes rw = rw\<lparr>buf := buf rw @ bytes, under := serverWrite bytes (under rw)\<rparr>"

text \<open>A handler is the sequence of calls it makes on its writer for a request.\<close>

datatype action = OnHeader "Header \<Rightarrow> Header" | WriteHeader int | Write string

fun rw_action :: "action \<Rightarrow> responseWriter \<Rightarrow> responseWriter" where
  "rw_action (OnHeader f) rw = rw\<lparr>under := (under rw)\<lparr>whdr := f (whdr (under rw))\<rparr>\<rparr>"
| "rw_action (WriteHeader code) rw = rw_WriteHeader code rw"
| "rw_action (Write bytes) rw = rw_Write bytes rw"

definition serveHTTP :: "(Request \<Rightarrow> action list) \<Rightarrow> Request \<Rightarrow> responseWriter \<Rightarrow> responseWriter" where
  "serveHTTP handler r rw = fold rw_action (handler r) rw"

section \<open>Keys\<close>

definition varyText :: "string list \<Rightarrow> Request \<Rightarrow> string" where
  "varyText vary r =
     concat (map (\<lambda>h. let v = headerGet (reqHeader r) h in if v \<noteq> [] then h @ '':'' @ v else []) vary)"

definition DefaultKeyGenerator :: "Request \<Rightarrow> string" where
  "DefaultKeyGenerator r =
     hexString (md5 (Method r @ URLString r @
       varyText [''Accept'', ''Accept-Encoding'', ''Authorization'', ''Accept-Language''] r))"

definition PathBasedKeyGenerator :: "Request \<Rightarrow> string" where
  "PathBasedKeyGenerator r = Method r @ '':'' @ URLPath r"

definition KeyWithVaryHeaders :: "string list \<Rightarrow> Request \<Rightarrow> string" where
  "KeyWithVaryHeaders varyHeaders r = hexString (md5 (Method r @ URLString r @ varyText varyHeaders r))"

definition KeyWithoutQuery :: "Request \<Rightarrow> string" where
  "KeyWithoutQuery r = Method r @ '':'' @ URLPath r"

definition KeyWithoutQueryHashed :: "Request \<Rightarrow> string" where
  "KeyWithoutQueryHashed r =
     hexString (md5 (Method r @ URLPath r @ varyText [''Accept'', ''Accept-Encoding'', ''Authorization''] r))"

definition KeyWithUserID :: "string \<Rightarrow> Request \<Rightarrow> string" where
  "KeyWithUserID userIDHeader r =
     (let userID = headerGet (reqHeader r) userIDHeader
      in hexString (md5 (Method r @ URLString r @ (if userID \<noteq> [] then ''user:'' @ userID else []))))"

text \<open>\<open>strings.SplitN(key, ":", 2)\<close> has two parts exactly when the key has a colon.\<close>

definition PathExtractorFromKey :: "string \<Rightarrow> string" where
  "PathExtractorFromKey k =
     (case dropWhile (\<lambda>c. c \<noteq> CHR '':'') k of [] \<Rightarrow> k | _ # rest \<Rightarrow> rest)"

section \<open>Policies\<close>

record timeLib =
  formatRFC3339 :: "int \<Rightarrow> string"
  durationString :: "int \<Rightarrow> string"
  parseRFC1123 :: "string \<Rightarrow> int option"

text \<open>\<open>time.Until\<close> and \<open>time.Since\<close> saturate at the ends of \<open>time.Duration\<close>.\<close>

definition satDuration :: "int \<Rightarrow> int" where
  "satDuration d = max (- (2 ^ 63)) (min (2 ^ 63 - 1) d)"

fun maxAgeOf :: "string list \<Rightarrow> int" where
  "maxAgeOf [] = 0"
| "maxAgeOf (part # parts) =
     (let part = trimSpace part
      in if hasPrefix part ''max-age=''
         then (case atoi (drop 8 part) of
                 Some seconds \<Rightarrow> if seconds > 0 then i64 (seconds * 1000000000) else maxAgeOf parts
               | None \<Rightarrow> maxAgeOf parts)
         else maxAgeOf parts)"

definition extractMaxAge :: "string \<Rightarrow> int" where
  "extractMaxAge cacheControl = (if cacheControl = [] then 0 else maxAgeOf (splitOn (CHR '','') cacheControl))"

record MiddlewareConfig =
  MMaxSize :: int
  MShardCount :: int
  MCleanupInterval :: int
  MDefaultTTL :: int
  MEvictionPolicy :: EvictionPolicy
  MAdmissionResetInterval :: int
  MStatsEnabled :: bool
  CacheableMethods :: "string list"
  CacheableStatus :: "int list"
  IgnoreHeaders :: "string list"
  MaxBodySize :: int
  HitHeader :: string
  MissHeader :: string

definition DefaultMiddlewareConfig :: MiddlewareConfig where
  "DefaultMiddlewareConfig =
     \<lparr>MMaxSize = 100000, MShardCount = 16, MCleanupInterval = 5 * minute, MDefaultTTL = 5 * minute,
      MEvictionPolicy = FIFO, MAdmissionResetInterval = 0, MStatsEnabled = True,
      CacheableMethods = [''GET'', ''HEAD''],
      CacheableStatus = [200, 201, 300, 301, 302, 304, 404, 410],
      IgnoreHeaders = [''Date'', ''Server'', ''X-Request-Id'', ''X-Trace-Id''],
      MaxBodySize = 10 * 1024 * 1024, HitHeader = ''X-Cache'', MissHeader = ''X-Cache''\<rparr>"

text \<open>A policy sees the clock, which the default policy reads for \<open>Expires\<close>.\<close>

type_synonym CachePolicy = "int \<Rightarrow> Request \<Rightarrow> int \<Rightarrow> Header \<Rightarrow> string \<Rightarrow> bool \<times> int"

definition DefaultCachePolicy :: "timeLib \<Rightarrow> MiddlewareConfig \<Rightarrow> CachePolicy" where
  "DefaultCachePolicy lib cfg now r status hs body =
     (if Method r \<notin> set (CacheableMethods cfg) then (False, 0)
      else if status \<notin> set (CacheableStatus cfg) then (False, 0)
      else if int (length body) > MaxBodySize cfg then (False, 0)
      else let cacheControl = headerGet hs ''Cache-Control'' in
        if strContains cacheControl ''no-cache'' \<or> strContains cacheControl ''no-store'' \<or>
           strContains cacheControl ''private''
        then (False, 0)
        else if extractMaxAge cacheControl > 0 then (True, extractMaxAge cacheControl)
        else let expires = headerGet hs ''Expires'' in
          (case (if expires = [] then None else parseRFC1123 lib expires) of
             Some e \<Rightarrow>
               let ttl = satDuration (e - now)
               in if ttl > 0 then (True, ttl) else (True, MDefaultTTL cfg)
           | None \<Rightarrow> (True, MDefaultTTL cfg)))"

definition AlwaysCache :: "int \<Rightarrow> CachePolicy" where
  "AlwaysCache ttl now r status hs body = (status \<ge> 200 \<and> status < 300, ttl)"

definition NeverCache :: CachePolicy where
  "NeverCache now r status hs body = (False, 0)"

text \<open>\<open>it\<close> is the order in which the map of rules is iterated.\<close>

definition CacheByContentType :: "(string \<times> int) iter \<Rightarrow> (string, int) gomap \<Rightarrow> int \<Rightarrow> CachePolicy" where
  "CacheByContentType it rules defaultTTL now r status hs body =
     (if status < 200 \<or> status \<ge> 300 then (False, 0)
      else (case find (\<lambda>(prefix, ttl). hasPrefix (headerGet hs ''Content-Type'') prefix) (it rules) of
              Some (_, ttl) \<Rightarrow> (True, ttl)
            | None \<Rightarrow> (True, defaultTTL)))"

definition CacheBySize :: "int \<Rightarrow> int \<Rightarrow> int \<Rightarrow> CachePolicy" where
  "CacheBySize minSize maxSize ttl now r status hs body =
     (if status < 200 \<or> status \<ge> 300 then (False, 0)
      else let size = int (length body) in (size \<ge> minSize \<and> size \<le> maxSize, ttl))"

section \<open>The middleware\<close>

record CachedResponse =
  StatusCode :: int
  Headers :: Header
  Body :: string
  CachedAt :: int

instantiation option :: (type) zero
begin
definition zero_option :: "'a option" where "zero_option = None"
instance ..
end

datatype event = Hit string | Miss string | Stored string int

record HTTPCacheMiddleware =
  mcache :: "(string, CachedResponse option) cache"
  keyGen :: "Request \<Rightarrow> string"
  policy :: CachePolicy
  onHit :: bool
  onMiss :: bool
  onSet :: bool
  hitHeader :: string
  missHeader :: string
  patternIdx :: PatternNode
  pathExtract :: "string \<Rightarrow> string"

definition NewHTTPCacheMiddleware ::
  "timeLib \<Rightarrow> (nat \<Rightarrow> nat \<Rightarrow> int) \<Rightarrow> int \<Rightarrow> (string \<Rightarrow> u64) \<Rightarrow> MiddlewareConfig \<Rightarrow> HTTPCacheMiddleware" where
  "NewHTTPCacheMiddleware lib t numCPU hf cfg =
     (let cfg = (if MMaxSize cfg = 0 then DefaultMiddlewareConfig else cfg);
          cacheConfig = \<lparr>MaxSize = MMaxSize cfg, ShardCount = MShardCount cfg, CleanupInterval = MCleanupInterval cfg,
            DefaultTTL = MDefaultTTL cfg, Policy = MEvictionPolicy cfg, StatsEnabled = MStatsEnabled cfg,
            AdmissionResetInterval = MAdmissionResetInterval cfg, AdmissionScanRateThreshold = 0,
            AdmissionScanMissThreshold = 0, AdmissionScanRecencyThreshold = 0, AdmissionRecencyTieBreak = 0\<rparr>
      in \<lparr>mcache = New t numCPU hf cacheConfig, keyGen = DefaultKeyGenerator, policy = DefaultCachePolicy lib cfg,
          onHit = False, onMiss = False, onSet = False,
          hitHeader = (if HitHeader cfg = [] then ''X-Cache'' else HitHeader cfg),
          missHeader = (if MissHeader cfg = [] then ''X-Cache'' else MissHeader cfg),
          patternIdx = NewPatternIndex, pathExtract = DefaultPathExtractor\<rparr>)"

text \<open>\<open>now\<close> is the reading of \<open>time.Since\<close>.\<close>

definition serveCached ::
  "timeLib \<Rightarrow> int \<Rightarrow> HTTPCacheMiddleware \<Rightarrow> ResponseWriter \<Rightarrow> CachedResponse \<Rightarrow> string \<Rightarrow> ResponseWriter \<times> event list" where
  "serveCached lib now m w cached k =
     (let h = copyHeaders (Headers cached) (whdr w);
          h = headerSet (hitHeader m) ''HIT'' h;
          h = headerSet ''X-Cache-Date'' (formatRFC3339 lib (CachedAt cached)) h;
          h = headerSet ''X-Cache-Age'' (durationString lib (satDuration (now - CachedAt cached))) h
      in (serverWrite (Body cached) (serverWriteHeader (StatusCode cached) (w\<lparr>whdr := h\<rparr>)),
          if onHit m then [Hit k] else []))"

text \<open>
  One request. \<open>during\<close> is what other requests do to the middleware while the handler runs; \<open>None\<close> is
  the panic of dereferencing a nil response. The readings of the clock are, in this order, those of
  \<open>Get\<close>, of the policy or \<open>time.Since\<close>, of \<open>CachedAt\<close>, and of \<open>Set\<close>.
\<close>

definition Middleware ::
  "timeLib \<Rightarrow> string choices \<Rightarrow> (HTTPCacheMiddleware \<Rightarrow> HTTPCacheMiddleware) \<Rightarrow> (nat \<Rightarrow> int) \<Rightarrow>
   (Request \<Rightarrow> action list) \<Rightarrow> HTTPCacheMiddleware \<Rightarrow> ResponseWriter \<Rightarrow> Request \<Rightarrow>
   (ResponseWriter \<times> event list \<times> HTTPCacheMiddleware) option" where
  "Middleware lib ch during t handler m w r =
     (let k = keyGen m r;
          ((cached, found), c) = Get (\<lambda>x. x) (\<lambda>x. x) t (mcache m) k;
          m = m\<lparr>mcache := c\<rparr>
      in if found
         then (case cached of
                 None \<Rightarrow> None
               | Some cr \<Rightarrow> let (w, ev) = serveCached lib (t 2) m w cr k in Some (w, ev, m))
         else
           let ev = (if onMiss m then [Miss k] else []);
               rw = serveHTTP handler r (newResponseWriter w);
               m = during m;
               (shouldCache, ttl) = policy m (t 2) r (statusCode rw) (headers rw) (buf rw);
               (m, ev) =
                 (if shouldCache
                  then let cached = \<lparr>StatusCode = statusCode rw, Headers = headers rw, Body = buf rw, CachedAt = t 3\<rparr>;
                           (_, c) = Set ch (\<lambda>i. t (4 + i)) (mcache m) k (Some cached) ttl;
                           path = pathExtract m k;
                           idx = (if path \<noteq> [] then AddKey (patternIdx m) path k else patternIdx m)
                       in (m\<lparr>mcache := c, patternIdx := idx\<rparr>, ev @ (if onSet m then [Stored k ttl] else []))
                  else (m, ev));
               w = under rw
           in Some (w\<lparr>whdr := headerSet (missHeader m) ''MISS'' (whdr w)\<rparr>, ev, m))"

definition mStats :: "HTTPCacheMiddleware \<Rightarrow> Stats" where
  "mStats m = cacheStats (mcache m)"

definition mClear :: "string choices \<Rightarrow> HTTPCacheMiddleware \<Rightarrow> HTTPCacheMiddleware" where
  "mClear ch m = m\<lparr>mcache := Clear ch (mcache m), patternIdx := pi_Clear (patternIdx m)\<rparr>"

fun invalidateKeys :: "string list \<Rightarrow> int \<Rightarrow> HTTPCacheMiddleware \<Rightarrow> int \<times> HTTPCacheMiddleware" where
  "invalidateKeys [] removed m = (removed, m)"
| "invalidateKeys (k # ks) removed m =
     (let (ok, c) = Delete (mcache m) k;
          m = m\<lparr>mcache := c\<rparr>
      in if ok
         then let path = pathExtract m k
              in invalidateKeys ks (removed + 1)
                   (m\<lparr>patternIdx := (if path \<noteq> [] then RemoveKey (patternIdx m) path k else patternIdx m)\<rparr>)
         else invalidateKeys ks removed m)"

definition Invalidate ::
  "string iter \<Rightarrow> string list iter \<Rightarrow> HTTPCacheMiddleware \<Rightarrow> string \<Rightarrow> int \<times> HTTPCacheMiddleware" where
  "Invalidate ks cs m urlPattern = invalidateKeys (GetMatchingKeys ks cs (patternIdx m) urlPattern) 0 m"

fun deleteWhere :: "(string \<Rightarrow> bool) \<Rightarrow> string list \<Rightarrow> int \<Rightarrow> HTTPCacheMiddleware \<Rightarrow> int \<times> HTTPCacheMiddleware" where
  "deleteWhere f [] removed m = (removed, m)"
| "deleteWhere f (k # ks) removed m =
     (if f k
      then let (ok, c) = Delete (mcache m) k
           in deleteWhere f ks (if ok then removed + 1 else removed) (m\<lparr>mcache := c\<rparr>)
      else deleteWhere f ks removed m)"

definition InvalidateByFunc ::
  "string choices \<Rightarrow> (nat \<Rightarrow> int) \<Rightarrow> HTTPCacheMiddleware \<Rightarrow> (string \<Rightarrow> bool) \<Rightarrow> int \<times> HTTPCacheMiddleware" where
  "InvalidateByFunc ch t m f = deleteWhere f (Keys ch t (mcache m)) 0 m"

definition mClose :: "string choices \<Rightarrow> HTTPCacheMiddleware \<Rightarrow> goError option \<times> HTTPCacheMiddleware" where
  "mClose ch m = (let (err, c) = Close ch (mcache m) in (err, m\<lparr>mcache := c\<rparr>))"

definition SetKeyGenerator :: "(Request \<Rightarrow> string) \<Rightarrow> HTTPCacheMiddleware \<Rightarrow> HTTPCacheMiddleware" where
  "SetKeyGenerator g m = m\<lparr>keyGen := g\<rparr>"

definition SetCachePolicy :: "CachePolicy \<Rightarrow> HTTPCacheMiddleware \<Rightarrow> HTTPCacheMiddleware" where
  "SetCachePolicy p m = m\<lparr>policy := p\<rparr>"

definition SetPathExtractor :: "(string \<Rightarrow> string) \<Rightarrow> HTTPCacheMiddleware \<Rightarrow> HTTPCacheMiddleware" where
  "SetPathExtractor e m = m\<lparr>pathExtract := e\<rparr>"

definition OnHit :: "HTTPCacheMiddleware \<Rightarrow> HTTPCacheMiddleware" where
  "OnHit m = m\<lparr>onHit := True\<rparr>"

definition OnMiss :: "HTTPCacheMiddleware \<Rightarrow> HTTPCacheMiddleware" where
  "OnMiss m = m\<lparr>onMiss := True\<rparr>"

definition OnSet :: "HTTPCacheMiddleware \<Rightarrow> HTTPCacheMiddleware" where
  "OnSet m = m\<lparr>onSet := True\<rparr>"

text \<open>The invariant: the cache is open and well formed, and no entry is nil.\<close>

definition mid_inv :: "HTTPCacheMiddleware \<Rightarrow> bool" where
  "mid_inv m \<longleftrightarrow> cache_inv (mcache m) \<and> \<not> closed (mcache m) \<and> (\<forall>k v e. cview (mcache m) k = Some (v, e) \<longrightarrow> v \<noteq> None)"

text \<open>What is stored of a response, and the headers that mark a hit.\<close>

definition recorded :: "int \<Rightarrow> responseWriter \<Rightarrow> CachedResponse" where
  "recorded now rw = \<lparr>StatusCode = statusCode rw, Headers = headers rw, Body = buf rw, CachedAt = now\<rparr>"

definition hitKeys :: "HTTPCacheMiddleware \<Rightarrow> string set" where
  "hitKeys m = canonicalHeaderKey ` {hitHeader m, ''X-Cache-Date'', ''X-Cache-Age''}"

text \<open>A change of the headers that leaves them a map.\<close>

definition keepsMap :: "(Header \<Rightarrow> Header) \<Rightarrow> bool" where
  "keepsMap f \<longleftrightarrow> (\<forall>h. wf_map h \<longrightarrow> wf_map (f h))"

text \<open>A small middleware for the concrete instances below.\<close>

definition demoLib :: timeLib where
  "demoLib = \<lparr>formatRFC3339 = (\<lambda>_. ''now''), durationString = (\<lambda>_. ''0s''), parseRFC1123 = (\<lambda>_. None)\<rparr>"

definition demoMid :: HTTPCacheMiddleware where
  "demoMid = SetCachePolicy (AlwaysCache minute) (SetKeyGenerator KeyWithoutQuery
     (NewHTTPCacheMiddleware demoLib (\<lambda>_ _. 0) 1 (\<lambda>_. 0) DefaultMiddlewareConfig))"

definition demoRequest :: Request where
  "demoRequest = \<lparr>Method = ''GET'', URLString = ''/a?x=1'', URLPath = ''/a'', reqHeader = []\<rparr>"

definition demoWriter :: ResponseWriter where
  "demoWriter = \<lparr>whdr = [], sent = None, wbody = []\<rparr>"

section \<open>Lemmas\<close>

lemma copyHeaders_mget: "wf_map src \<Longrightarrow> mget (copyHeaders src dst) k = (case mget src k of Some v \<Rightarrow> Some v | None \<Rightarrow> mget dst k)"
proof (induction src arbitrary: dst)
  case (Cons e src)
  obtain a v where e: "e = (a, v)" by fastforce
  have "mget src a = None" using Cons.prems e by (simp add: map_of_eq_None_iff)
  then show ?case using Cons.IH[of "mput a v dst"] Cons.prems e
    by (auto simp: copyHeaders_def map_simps split: option.splits)
qed (simp add: copyHeaders_def)

lemma copyHeaders_wf: "wf_map dst \<Longrightarrow> wf_map (copyHeaders src dst)"
  unfolding copyHeaders_def by (induction src arbitrary: dst) (auto simp: map_simps)

lemma headerSet_mget: "mget (headerSet k v h) j = (if j = canonicalHeaderKey k then Some [v] else mget h j)"
  by (simp add: headerSet_def map_simps)

lemma action_wf: "wf_map (headers rw) \<Longrightarrow> wf_map (headers (rw_action a rw))"
  by (cases a) (simp_all add: rw_WriteHeader_def rw_Write_def copyHeaders_wf)

lemma serve_wf: "wf_map (headers (serveHTTP handler r (newResponseWriter w)))"
proof -
  have "wf_map (headers rw) \<Longrightarrow> wf_map (headers (fold rw_action as rw))" for as rw
    by (induction as arbitrary: rw) (simp_all add: action_wf)
  then show ?thesis by (simp add: serveHTTP_def newResponseWriter_def)
qed

lemma serverWrite_body: "wbody (serverWrite bs w) = wbody w @ bs"
  by (simp add: serverWrite_def serverWriteHeader_def Let_def split: option.splits)

lemma serverWriteHeader_body [simp]: "wbody (serverWriteHeader c w) = wbody w"
  by (simp add: serverWriteHeader_def split: option.splits)

text \<open>The recorded body is what the client gets, whatever the handler does.\<close>

lemma serve_body: "wbody (under (serveHTTP handler r (newResponseWriter w))) = wbody w @ buf (serveHTTP handler r (newResponseWriter w))"
proof -
  have "wbody (under (fold rw_action as rw)) = wbody (under rw) @ x \<and> buf (fold rw_action as rw) = buf rw @ x"
    if "x = concat (map (\<lambda>a. case a of Write bs \<Rightarrow> bs | _ \<Rightarrow> []) as)" for as rw x
    using that
  proof (induction as arbitrary: rw x)
    case (Cons a as)
    show ?case using Cons.IH[OF refl, of "rw_action a rw"] Cons.prems
      by (cases a) (simp_all add: rw_WriteHeader_def rw_Write_def serverWrite_body)
  qed simp
  then show ?thesis by (simp add: serveHTTP_def newResponseWriter_def)
qed

lemma serveCached_sent:
  assumes "serveCached lib now m w cr k = (w', ev)" "sent w = None" "200 \<le> StatusCode cr" "wf_map (Headers cr)"
  shows "\<exists>h. sent w' = Some (StatusCode cr, h) \<and> wbody w' = wbody w @ Body cr \<and>
    (\<forall>j. j \<notin> hitKeys m \<longrightarrow> mget h j = (case mget (Headers cr) j of Some v \<Rightarrow> Some v | None \<Rightarrow> mget (whdr w) j))"
  using assms
  by (auto simp: serveCached_def Let_def serverWrite_def serverWriteHeader_def hitKeys_def headerSet_mget copyHeaders_mget)

lemma Middleware_hit:
  assumes m: "mid_inv m" and t: "t 0 \<le> t 1" and c: "cview (mcache m) (keyGen m r) = Some (Some cr, e)" "alive (t 0) e"
  shows "\<exists>c'. Middleware lib ch during t handler m w r =
    Some (fst (serveCached lib (t 2) m w cr (keyGen m r)), snd (serveCached lib (t 2) m w cr (keyGen m r)), m\<lparr>mcache := c'\<rparr>) \<and>
    cache_inv c' \<and> \<not> closed c' \<and> cview c' = cview (mcache m)"
proof -
  obtain v ok c' where g: "Get (\<lambda>x. x) (\<lambda>x. x) t (mcache m) (keyGen m r) = ((v, ok), c')" by (metis prod.collapse)
  have i: "cache_inv (mcache m)" "\<not> closed (mcache m)" using m by (simp_all add: mid_inv_def)
  note G = Get_spec[OF i t g]
  have "v = Some cr" "ok" "cview c' = cview (mcache m)" using G(4) c by simp_all
  then show ?thesis using G(1,3) i(2) g
    by (intro exI[of _ c']) (simp add: Middleware_def Let_def serveCached_def)
qed

lemma Middleware_miss:
  fixes m r w handler t
  defines "k \<equiv> keyGen m r" and "rw \<equiv> serveHTTP handler r (newResponseWriter w)"
  assumes m: "mid_inv m" and t: "t 0 \<le> t 1" and d: "dropDead (t 0) (cview (mcache m) k) = None"
  shows "\<exists>c ev m2 w'. cache_inv c \<and> \<not> closed c \<and> cview c = (cview (mcache m))(k := None) \<and> same_cache (mcache m) c \<and>
    m2 = during (m\<lparr>mcache := c\<rparr>) \<and> sent w' = sent (under rw) \<and> wbody w' = wbody (under rw) \<and>
    Middleware lib ch during t handler m w r = Some (w', ev,
      if fst (policy m2 (t 2) r (statusCode rw) (headers rw) (buf rw))
      then m2\<lparr>mcache := snd (Set ch (\<lambda>i. t (4 + i)) (mcache m2) k (Some (recorded (t 3) rw))
                 (snd (policy m2 (t 2) r (statusCode rw) (headers rw) (buf rw)))),
              patternIdx := (if pathExtract m2 k \<noteq> [] then AddKey (patternIdx m2) (pathExtract m2 k) k else patternIdx m2)\<rparr>
      else m2)"
proof -
  obtain v ok c where g: "Get (\<lambda>x. x) (\<lambda>x. x) t (mcache m) k = ((v, ok), c)" by (metis prod.collapse)
  have i: "cache_inv (mcache m)" "\<not> closed (mcache m)" using m by (simp_all add: mid_inv_def)
  note G = Get_spec[OF i t g]
  have ok: "\<not> ok" "cview c = (cview (mcache m))(k := None)" using G(4) d by simp_all
  let ?m2 = "during (m\<lparr>mcache := c\<rparr>)"
  obtain b ttl where p: "policy ?m2 (t 2) r (statusCode rw) (headers rw) (buf rw) = (b, ttl)" by fastforce
  show ?thesis using G(1,2,3) i(2) ok p g
    by (intro exI[of _ c] exI[of _ "(if onMiss m then [Miss k] else []) @ (if b \<and> onSet ?m2 then [Stored k ttl] else [])"] exI[of _ ?m2]
        exI[of _ "(under rw)\<lparr>whdr := headerSet (missHeader ?m2) ''MISS'' (whdr (under rw))\<rparr>"])
      (simp add: Middleware_def Let_def rw_def k_def recorded_def split: prod.splits)
qed

lemma option_case_id: "(case x of None \<Rightarrow> None | Some v \<Rightarrow> Some v) = x"
  by (cases x) simp_all

lemma mid_invD: "mid_inv m \<Longrightarrow> cache_inv (mcache m)" "mid_inv m \<Longrightarrow> \<not> closed (mcache m)"
  by (simp_all add: mid_inv_def)

lemma mid_inv_put:
  assumes "mid_inv m" "choices_ok ch"
  shows "mid_inv (m\<lparr>mcache := snd (Set ch t (mcache m) k (Some cr) ttl), patternIdx := p\<rparr>)"
proof -
  obtain err c where s: "Set ch t (mcache m) k (Some cr) ttl = (err, c)" by fastforce
  note S = Set_spec[OF mid_invD[OF assms(1)] assms(2) s]
  have "v \<noteq> None" if v: "cview c j = Some (v, e)" for j v e
  proof (cases "j = k")
    case True
    then show ?thesis using S(5) v assms(1) unfolding mid_inv_def by (metis Pair_inject option.inject option.discI)
  next
    case False
    then show ?thesis using S(6)[OF False] v assms(1) unfolding mid_inv_def by (metis option.discI)
  qed
  then show ?thesis using S(2,4) s assms(1) by (simp add: mid_inv_def)
qed

text \<open>Whatever the handler writes, the next request for the key gets what was recorded.\<close>

lemma replay:
  fixes m r w handler t
  defines "k \<equiv> keyGen m r" and "rw \<equiv> serveHTTP handler r (newResponseWriter w)"
  assumes m: "mid_inv m" and ch: "choices_ok ch" and t: "t 0 \<le> t 1" and d: "dropDead (t 0) (cview (mcache m) k) = None"
    and pol: "policy m (t 2) r (statusCode rw) (headers rw) (buf rw) = (True, ttl)"
    and room: "Policy (config (mcache m)) \<noteq> AdmissionLFU"
    and first: "Middleware lib ch (\<lambda>m. m) t handler m w r = Some (w1, ev1, m1)"
    and second: "keyGen m r' = k" "alive (t' 0) (setExpire (config (mcache m)) (t 4) ttl)" "t' 0 \<le> t' 1"
    and w': "sent w' = None" "whdr w' = []" "wbody w' = []" and code: "200 \<le> statusCode rw"
  shows "\<exists>w2 ev2 m2 h. Middleware lib' ch' during' t' handler' m1 w' r' = Some (w2, ev2, m2) \<and>
    sent w2 = Some (statusCode rw, h) \<and> wbody w2 = buf rw \<and> (\<forall>j. j \<notin> hitKeys m \<longrightarrow> mget h j = mget (headers rw) j)"
proof -
  obtain c ev w1' where M: "cache_inv c" "\<not> closed c" "cview c = (cview (mcache m))(k := None)" "same_cache (mcache m) c"
    and r1: "Middleware lib ch (\<lambda>m. m) t handler m w r = Some (w1', ev,
      m\<lparr>mcache := snd (Set ch (\<lambda>i. t (4 + i)) c k (Some (recorded (t 3) rw)) ttl),
        patternIdx := (if pathExtract m k \<noteq> [] then AddKey (patternIdx m) (pathExtract m k) k else patternIdx m)\<rparr>)"
    using Middleware_miss[where lib = lib and ch = ch and during = "\<lambda>m. m" and handler = handler and w = w, OF m t d[unfolded k_def]] pol
    unfolding k_def[symmetric] rw_def[symmetric] by (auto simp del: fun_upd_apply)
  obtain err c1 where s: "Set ch (\<lambda>i. t (4 + i)) c k (Some (recorded (t 3) rw)) ttl = (err, c1)" by fastforce
  note S = Set_spec[OF M(1,2) ch s]
  have cfg: "config c = config (mcache m)" using M(4) by (simp add: same_cache_def)
  have v: "cview c1 k = Some (Some (recorded (t 3) rw), setExpire (config (mcache m)) (t 4) ttl)"
    using S(5) cfg room by simp
  have m1: "m1 = m\<lparr>mcache := c1, patternIdx := (if pathExtract m k \<noteq> [] then AddKey (patternIdx m) (pathExtract m k) k else patternIdx m)\<rparr>"
    using first r1 s by simp
  have "mid_inv (m\<lparr>mcache := c\<rparr>)" using m M(1,2,3) by (simp add: mid_inv_def)
  from mid_inv_put[OF this ch, where t = "\<lambda>i. t (4 + i)" and k = k and cr = "recorded (t 3) rw" and ttl = ttl]
  have i1: "mid_inv m1" using s by (simp add: m1)
  have k1: "keyGen m1 r' = k" "hitKeys m1 = hitKeys m" using second(1) by (simp_all add: m1 hitKeys_def)
  obtain w2 ev2 where sv: "serveCached lib' (t' 2) m1 w' (recorded (t 3) rw) k = (w2, ev2)" by fastforce
  have v1: "cview (mcache m1) (keyGen m1 r') = Some (Some (recorded (t 3) rw), setExpire (config (mcache m)) (t 4) ttl)"
    using v k1 by (simp add: m1)
  obtain c2 where "Middleware lib' ch' during' t' handler' m1 w' r' = Some (w2, ev2, m1\<lparr>mcache := c2\<rparr>)"
    using Middleware_hit[where lib = lib' and ch = ch' and during = during' and handler = handler' and w = w', OF i1 second(3) v1 second(2)] sv by (auto simp: k1)
  moreover have "wf_map (headers rw)" unfolding rw_def by (rule serve_wf)
  ultimately show ?thesis
    using serveCached_sent[OF sv w'(1)] code w'(2,3) k1(2) by (auto simp: recorded_def option_case_id cong: option.case_cong)
qed

lemma onHeaders:
  "fold rw_action (map OnHeader fs) rw = rw\<lparr>under := (under rw)\<lparr>whdr := fold (\<lambda>f. f) fs (whdr (under rw))\<rparr>\<rparr>"
  by (induction fs arbitrary: rw) simp_all

lemma writes [simp]:
  "statusCode (fold rw_action (map Write ws) rw) = statusCode rw" "headers (fold rw_action (map Write ws) rw) = headers rw"
  "buf (fold rw_action (map Write ws) rw) = buf rw @ concat ws"
  by (induction ws arbitrary: rw) (simp_all add: rw_Write_def)

lemma writes_sent: "sent (under rw) = Some x \<Longrightarrow> sent (under (fold rw_action (map Write ws) rw)) = Some x"
  by (induction ws arbitrary: rw) (simp_all add: rw_Write_def serverWrite_def Let_def)

lemma writes_first:
  assumes "sent (under rw) = None" "ws \<noteq> []"
  shows "sent (under (fold rw_action (map Write ws) rw)) = Some (200, whdr (under rw))"
proof -
  obtain b bs where w: "ws = b # bs" using assms(2) by (cases ws) auto
  show ?thesis unfolding w using assms(1) by (simp add: writes_sent rw_Write_def serverWrite_def serverWriteHeader_def)
qed

lemma explicit_response:
  assumes h: "handler r = map OnHeader fs @ WriteHeader code # map Write ws" and w: "sent w = None" "wf_map (whdr w)"
    and fs: "list_all keepsMap fs" and code: "200 \<le> code"
  defines "rw \<equiv> serveHTTP handler r (newResponseWriter w)"
  shows "sent (under rw) = Some (code, fold (\<lambda>f. f) fs (whdr w))" "statusCode rw = code"
    "mget (headers rw) = mget (fold (\<lambda>f. f) fs (whdr w))"
    "headers rw = copyHeaders (fold (\<lambda>f. f) fs (whdr w)) []" "buf rw = concat ws"
proof -
  let ?r0 = "rw_WriteHeader code (fold rw_action (map OnHeader fs) (newResponseWriter w))"
  have r: "rw = fold rw_action (map Write ws) ?r0" by (simp add: rw_def serveHTTP_def h)
  have wf: "wf_map h \<Longrightarrow> wf_map (fold (\<lambda>f. f) fs h)" for h
    using fs by (induction fs arbitrary: h) (simp_all add: keepsMap_def)
  have "sent (under ?r0) = Some (code, fold (\<lambda>f. f) fs (whdr w))"
    using w(1) code by (simp add: onHeaders newResponseWriter_def rw_WriteHeader_def serverWriteHeader_def)
  then show "sent (under rw) = Some (code, fold (\<lambda>f. f) fs (whdr w))" by (simp add: r writes_sent)
  show "statusCode rw = code" by (simp add: r rw_WriteHeader_def)
  show "buf rw = concat ws" by (simp add: r onHeaders newResponseWriter_def rw_WriteHeader_def)
  show hs: "headers rw = copyHeaders (fold (\<lambda>f. f) fs (whdr w)) []"
    by (simp add: r onHeaders newResponseWriter_def rw_WriteHeader_def)
  show "mget (headers rw) = mget (fold (\<lambda>f. f) fs (whdr w))"
    unfolding hs by (rule ext) (simp add: copyHeaders_mget[OF wf[OF w(2)]] option_case_id cong: option.case_cong)
qed

lemma implicit_response:
  assumes h: "handler r = map OnHeader fs @ map Write ws" and w: "sent w = None" and ws: "ws \<noteq> []"
  defines "rw \<equiv> serveHTTP handler r (newResponseWriter w)"
  shows "sent (under rw) = Some (200, fold (\<lambda>f. f) fs (whdr w))" "statusCode rw = 200" "headers rw = []" "buf rw = concat ws"
proof -
  let ?r0 = "fold rw_action (map OnHeader fs) (newResponseWriter w)"
  have r: "rw = fold rw_action (map Write ws) ?r0" by (simp add: rw_def serveHTTP_def h)
  have "sent (under ?r0) = None" "whdr (under ?r0) = fold (\<lambda>f. f) fs (whdr w)"
    using w by (simp_all add: onHeaders newResponseWriter_def)
  then show "sent (under rw) = Some (200, fold (\<lambda>f. f) fs (whdr w))" using writes_first[OF _ ws] by (simp add: r)
  show "statusCode rw = 200" "headers rw = []" "buf rw = concat ws" by (simp_all add: r onHeaders newResponseWriter_def)
qed

lemma first_response:
  assumes "mid_inv m" "t 0 \<le> t 1" "dropDead (t 0) (cview (mcache m) (keyGen m r)) = None"
    "Middleware lib ch during t handler m w r = Some (w1, ev1, m1)"
  shows "sent w1 = sent (under (serveHTTP handler r (newResponseWriter w)))"
    "wbody w1 = wbody w @ buf (serveHTTP handler r (newResponseWriter w))"
  using Middleware_miss[where lib = lib and ch = ch and during = during and handler = handler and w = w, OF assms(1-3)] assms(4) serve_body[of handler r w] by auto

lemma invalidateKeys_spec:
  assumes "mid_inv m" "invalidateKeys ks n m = (n', m')"
  shows "mid_inv m' \<and> cview (mcache m') = cview (mcache m) |` (- set ks) \<and>
    n' = n + int (card (set ks \<inter> dom (cview (mcache m))))"
  using assms
proof (induction ks arbitrary: n m)
  case Nil
  then show ?case by (simp add: restrict_map_def)
next
  case (Cons k ks)
  obtain ok c where d: "Delete (mcache m) k = (ok, c)" by fastforce
  note D = Delete_spec[OF mid_invD[OF Cons.prems(1)] d]
  define m2 where "m2 = (if ok then m\<lparr>mcache := c, patternIdx := (if pathExtract m k \<noteq> [] then RemoveKey (patternIdx m) (pathExtract m k) k else patternIdx m)\<rparr>
    else m\<lparr>mcache := c\<rparr>)"
  have v: "cview (mcache m2) = (cview (mcache m))(k := None)" using D(5) by (simp add: m2_def)
  have i: "mid_inv m2" using Cons.prems(1) D(2,4) v by (simp add: mid_inv_def m2_def)
  have r: "invalidateKeys ks (if ok then n + 1 else n) m2 = (n', m')"
    using Cons.prems(2) d by (cases ok) (simp_all add: m2_def Let_def split: if_splits)
  note I = Cons.IH[OF i r]
  have f: "finite (set ks \<inter> dom (cview (mcache m2)))" "finite (set (k # ks) \<inter> dom (cview (mcache m)))" by simp_all
  have "set (k # ks) \<inter> dom (cview (mcache m)) =
      (if ok then insert k (set ks \<inter> dom (cview (mcache m2))) else set ks \<inter> dom (cview (mcache m2)))"
    using D(1) v by auto
  moreover have "k \<notin> set ks \<inter> dom (cview (mcache m2))" using v by simp
  ultimately have "int (card (set (k # ks) \<inter> dom (cview (mcache m)))) =
      (if ok then 1 else 0) + int (card (set ks \<inter> dom (cview (mcache m2))))" using f(1) by simp
  then have "n' = n + int (card (set (k # ks) \<inter> dom (cview (mcache m))))" using I by simp
  moreover have "cview (mcache m') = cview (mcache m) |` (- set (k # ks))" using I v by (auto simp: restrict_map_def fun_eq_iff)
  ultimately show ?case using I by blast
qed

lemma deleteWhere_spec:
  assumes "mid_inv m" "deleteWhere f ks n m = (n', m')"
  shows "mid_inv m' \<and> patternIdx m' = patternIdx m \<and> cview (mcache m') = cview (mcache m) |` (- {k \<in> set ks. f k})"
  using assms
proof (induction ks arbitrary: n m)
  case Nil
  then show ?case by (simp add: restrict_map_def)
next
  case (Cons k ks)
  show ?case
  proof (cases "f k")
    case True
    obtain ok c where d: "Delete (mcache m) k = (ok, c)" by fastforce
    note D = Delete_spec[OF mid_invD[OF Cons.prems(1)] d]
    have i: "mid_inv (m\<lparr>mcache := c\<rparr>)" using Cons.prems(1) D(2,4,5) by (simp add: mid_inv_def)
    have r: "deleteWhere f ks (if ok then n + 1 else n) (m\<lparr>mcache := c\<rparr>) = (n', m')" using Cons.prems(2) d True by simp
    show ?thesis using Cons.IH[OF i r] D(5) True by (auto simp: restrict_map_def fun_eq_iff)
  next
    case False
    then have "deleteWhere f ks n m = (n', m')" using Cons.prems(2) by simp
    from Cons.IH[OF Cons.prems(1) this] False show ?thesis by (auto simp: restrict_map_def fun_eq_iff)
  qed
qed

section \<open>Properties\<close>


text \<open>C31. A response is replayed: a handler that sets headers, calls \<open>WriteHeader\<close> and writes a body is
  run once; until the entry expires, the next request with the same key gets the same status, the
  same body, and the same headers apart from the three that mark a hit, and its handler is not run.\<close>

theorem response_replayed:
  assumes "mid_inv m" "choices_ok ch" "t 0 \<le> t 1" "dropDead (t 0) (cview (mcache m) (keyGen m r)) = None"
    "Policy (config (mcache m)) \<noteq> AdmissionLFU"
    "handler r = map OnHeader fs @ WriteHeader code # map Write ws" "200 \<le> code" "list_all keepsMap fs"
    "sent w = None" "wf_map (whdr w)" "wbody w = []"
    "policy m (t 2) r code (copyHeaders (fold (\<lambda>f. f) fs (whdr w)) []) (concat ws) = (True, ttl)"
    "Middleware lib ch (\<lambda>m. m) t handler m w r = Some (w1, ev1, m1)"
    "keyGen m r' = keyGen m r" "alive (t' 0) (setExpire (config (mcache m)) (t 4) ttl)" "t' 0 \<le> t' 1"
    "sent w' = None" "whdr w' = []" "wbody w' = []"
  shows "\<exists>w2 ev2 m2 h1 h2. Middleware lib' ch' during' t' handler' m1 w' r' = Some (w2, ev2, m2) \<and>
    sent w1 = Some (code, h1) \<and> sent w2 = Some (code, h2) \<and> wbody w2 = wbody w1 \<and>
    (\<forall>j. j \<notin> hitKeys m \<longrightarrow> mget h2 j = mget h1 j)"
proof -
  let ?rw = "serveHTTP handler r (newResponseWriter w)"
  note E = explicit_response[of handler r fs code ws w, OF assms(6,9,10,8,7)]
  note F = first_response[OF assms(1,3,4,13)]
  have "policy m (t 2) r (statusCode ?rw) (headers ?rw) (buf ?rw) = (True, ttl)" using E(2,4,5) assms(12) by simp
  from replay[where handler' = handler' and lib' = lib' and ch' = ch' and during' = during',
      OF assms(1-4) this assms(5,13,14,15,16,17,18,19)]
  show ?thesis using E F assms(7,11) by simp
qed

text \<open>C34. Headers are recorded only in \<open>WriteHeader\<close>: of a handler that sets headers and writes its body
  without calling it, the first client gets the headers, and every client served from the cache gets
  none of them, not even the content type.\<close>

theorem implicit_headers_lost:
  assumes "mid_inv m" "choices_ok ch" "t 0 \<le> t 1" "dropDead (t 0) (cview (mcache m) (keyGen m r)) = None"
    "Policy (config (mcache m)) \<noteq> AdmissionLFU"
    "handler r = map OnHeader fs @ map Write ws" "ws \<noteq> []" "sent w = None"
    "policy m (t 2) r 200 [] (concat ws) = (True, ttl)"
    "Middleware lib ch (\<lambda>m. m) t handler m w r = Some (w1, ev1, m1)"
    "keyGen m r' = keyGen m r" "alive (t' 0) (setExpire (config (mcache m)) (t 4) ttl)" "t' 0 \<le> t' 1"
    "sent w' = None" "whdr w' = []" "wbody w' = []"
  shows "\<exists>w2 ev2 m2 h2. Middleware lib' ch' during' t' handler' m1 w' r' = Some (w2, ev2, m2) \<and>
    sent w1 = Some (200, fold (\<lambda>f. f) fs (whdr w)) \<and> sent w2 = Some (200, h2) \<and>
    (\<forall>j. j \<notin> hitKeys m \<longrightarrow> mget h2 j = None)"
proof -
  let ?rw = "serveHTTP handler r (newResponseWriter w)"
  note E = implicit_response[of handler r fs ws w, OF assms(6,8,7)]
  note F = first_response[OF assms(1,3,4,10)]
  have "policy m (t 2) r (statusCode ?rw) (headers ?rw) (buf ?rw) = (True, ttl)" using E(2,3,4) assms(9) by simp
  from replay[where handler' = handler' and lib' = lib' and ch' = ch' and during' = during',
      OF assms(1-4) this assms(5,10,11,12,13,14,15,16)]
  show ?thesis using E F by auto
qed

text \<open>C33. \<open>Invalidate\<close> removes from the cache exactly the entries whose keys the index lists under the
  pattern, keeps every other entry, and returns how many there were.\<close>

theorem invalidate_exact:
  assumes "mid_inv m" "Invalidate ks cs m pattern = (n, m')"
  shows "mid_inv m' \<and> cview (mcache m') = cview (mcache m) |` (- set (GetMatchingKeys ks cs (patternIdx m) pattern)) \<and>
    n = int (card (set (GetMatchingKeys ks cs (patternIdx m) pattern) \<inter> dom (cview (mcache m))))"
  using invalidateKeys_spec[OF assms(1) assms(2)[unfolded Invalidate_def]] by simp

text \<open>C35. The default key does not separate the header values it is built from: a request whose
  \<open>Accept\<close> value ends in the text of an \<open>Authorization\<close> header, and which carries no such header, has the
  key of the authorized request.\<close>

theorem default_key_ambiguous:
  assumes "headerGet (reqHeader r) ''Accept'' = a" "a \<noteq> []" "headerGet (reqHeader r) ''Accept-Encoding'' = []"
    "headerGet (reqHeader r) ''Authorization'' = s" "s \<noteq> []"
    "headerGet (reqHeader r') ''Accept'' = a @ ''Authorization:'' @ s" "headerGet (reqHeader r') ''Accept-Encoding'' = []"
    "headerGet (reqHeader r') ''Authorization'' = []"
    "headerGet (reqHeader r') ''Accept-Language'' = headerGet (reqHeader r) ''Accept-Language''"
    "Method r' = Method r" "URLString r' = URLString r"
  shows "DefaultKeyGenerator r' = DefaultKeyGenerator r"
  using assms by (simp add: DefaultKeyGenerator_def varyText_def)

lemma demoMid_inv: "mid_inv demoMid" "cview (mcache demoMid) = Map.empty" "Policy (config (mcache demoMid)) = FIFO"
  "policy demoMid = AlwaysCache minute" "keyGen demoMid = KeyWithoutQuery" "patternIdx demoMid = NewPatternIndex"
  "DefaultTTL (config (mcache demoMid)) = 5 * minute"
proof -
  define cfg where "cfg = \<lparr>MaxSize = 100000, ShardCount = 16, CleanupInterval = 5 * minute,
            DefaultTTL = 5 * minute, Policy = FIFO, StatsEnabled = True,
            AdmissionResetInterval = 0, AdmissionScanRateThreshold = 0,
            AdmissionScanMissThreshold = 0, AdmissionScanRecencyThreshold = 0, AdmissionRecencyTieBreak = 0\<rparr>"
  have m: "mcache demoMid = New (\<lambda>_ _. 0) 1 (\<lambda>_. 0) cfg" "policy demoMid = AlwaysCache minute" "keyGen demoMid = KeyWithoutQuery"
    "patternIdx demoMid = NewPatternIndex"
    by (simp_all add: demoMid_def SetCachePolicy_def SetKeyGenerator_def NewHTTPCacheMiddleware_def DefaultMiddlewareConfig_def cfg_def)
  have "config_ok cfg" by (simp add: config_ok_def cfg_def)
  note N = New_inv[OF this m(1)]
  show "mid_inv demoMid" using N(1,2,5) by (simp add: mid_inv_def)
  show "cview (mcache demoMid) = Map.empty" "Policy (config (mcache demoMid)) = FIFO" "DefaultTTL (config (mcache demoMid)) = 5 * minute"
    using N(2,3) by (simp_all add: cfg_def)
  show "policy demoMid = AlwaysCache minute" "keyGen demoMid = KeyWithoutQuery" "patternIdx demoMid = NewPatternIndex" by (rule m)+
qed

lemma demo_run:
  obtains w1 ev1 m1 where "Middleware demoLib someChoices (\<lambda>m. m) (\<lambda>_. 0) handler demoMid demoWriter demoRequest = Some (w1, ev1, m1)"
  using Middleware_miss[where lib = demoLib and ch = someChoices and during = "\<lambda>m. m" and handler = handler and w = demoWriter,
      OF demoMid_inv(1), of "\<lambda>_. 0" demoRequest] demoMid_inv(2) by auto

lemma keepsMap_headerSet: "keepsMap (headerSet k v)"
  by (simp add: keepsMap_def headerSet_def map_simps)


theorem response_replayed_witness:
  "\<exists>w1 ev1 m1 w2 ev2 m2 h1 h2.
    Middleware demoLib someChoices (\<lambda>m. m) (\<lambda>_. 0)
      (\<lambda>_. [OnHeader (headerSet ''Content-Type'' ''text/html''), WriteHeader 201, Write ''hi'']) demoMid demoWriter demoRequest =
      Some (w1, ev1, m1) \<and>
    Middleware demoLib someChoices (\<lambda>m. m) (\<lambda>_. 5) (\<lambda>_. []) m1 demoWriter demoRequest = Some (w2, ev2, m2) \<and>
    sent w1 = Some (201, h1) \<and> sent w2 = Some (201, h2) \<and> wbody w2 = wbody w1"
proof -
  let ?h = "\<lambda>_ :: Request. [OnHeader (headerSet ''Content-Type'' ''text/html''), WriteHeader 201, Write ''hi'']"
  obtain w1 ev1 m1 where r: "Middleware demoLib someChoices (\<lambda>m. m) (\<lambda>_. 0) ?h demoMid demoWriter demoRequest = Some (w1, ev1, m1)"
    by (rule demo_run)
  have "\<exists>w2 ev2 m2 h1 h2. Middleware demoLib someChoices (\<lambda>m. m) (\<lambda>_. 5) (\<lambda>_. []) m1 demoWriter demoRequest = Some (w2, ev2, m2) \<and>
    sent w1 = Some (201, h1) \<and> sent w2 = Some (201, h2) \<and> wbody w2 = wbody w1 \<and>
    (\<forall>j. j \<notin> hitKeys demoMid \<longrightarrow> mget h2 j = mget h1 j)"
    by (rule response_replayed[where fs = "[headerSet ''Content-Type'' ''text/html'']" and ws = "[''hi'']" and ttl = minute, OF demoMid_inv(1) someChoices_ok _ _ _ _ _ _ _ _ _ _ r])
      (simp_all add: demoMid_inv demoWriter_def keepsMap_headerSet AlwaysCache_def alive_def setExpire_def minute_def i64_def)
  then show ?thesis using r by blast
qed

theorem implicit_headers_lost_witness:
  "\<exists>w1 ev1 m1 w2 ev2 m2 h2.
    Middleware demoLib someChoices (\<lambda>m. m) (\<lambda>_. 0)
      (\<lambda>_. [OnHeader (headerSet ''Content-Type'' ''text/html''), Write ''hi'']) demoMid demoWriter demoRequest =
      Some (w1, ev1, m1) \<and>
    Middleware demoLib someChoices (\<lambda>m. m) (\<lambda>_. 5) (\<lambda>_. []) m1 demoWriter demoRequest = Some (w2, ev2, m2) \<and>
    sent w1 = Some (200, [(''Content-Type'', [''text/html''])]) \<and> sent w2 = Some (200, h2) \<and> mget h2 ''Content-Type'' = None"
proof -
  let ?h = "\<lambda>_ :: Request. [OnHeader (headerSet ''Content-Type'' ''text/html''), Write ''hi'']"
  obtain w1 ev1 m1 where r: "Middleware demoLib someChoices (\<lambda>m. m) (\<lambda>_. 0) ?h demoMid demoWriter demoRequest = Some (w1, ev1, m1)"
    by (rule demo_run)
  have "\<exists>w2 ev2 m2 h2. Middleware demoLib someChoices (\<lambda>m. m) (\<lambda>_. 5) (\<lambda>_. []) m1 demoWriter demoRequest = Some (w2, ev2, m2) \<and>
    sent w1 = Some (200, fold (\<lambda>f. f) [headerSet ''Content-Type'' ''text/html''] (whdr demoWriter)) \<and> sent w2 = Some (200, h2) \<and>
    (\<forall>j. j \<notin> hitKeys demoMid \<longrightarrow> mget h2 j = None)"
    by (rule implicit_headers_lost[where ws = "[''hi'']" and ttl = minute, OF demoMid_inv(1) someChoices_ok _ _ _ _ _ _ _ r])
      (simp_all add: demoMid_inv demoWriter_def AlwaysCache_def alive_def setExpire_def minute_def i64_def)
  moreover have "fold (\<lambda>f. f) [headerSet ''Content-Type'' ''text/html''] (whdr demoWriter) = [(''Content-Type'', [''text/html''])]"
    by code_simp
  moreover have "''Content-Type'' \<notin> canonicalHeaderKey ` {''X-Cache'', ''X-Cache-Date'', ''X-Cache-Age''}" by code_simp
  then have "''Content-Type'' \<notin> hitKeys demoMid"
    by (simp only: hitKeys_def demoMid_def SetCachePolicy_def SetKeyGenerator_def NewHTTPCacheMiddleware_def DefaultMiddlewareConfig_def Let_def) simp
  ultimately show ?thesis using r by metis
qed

theorem invalidate_exact_witness:
  "fst (Invalidate (\<lambda>xs. xs) (\<lambda>xs. xs)
    (demoMid\<lparr>mcache := snd (Set someChoices (\<lambda>_. 0) (mcache demoMid) ''GET:/a'' (Some \<lparr>StatusCode = 200, Headers = [], Body = [], CachedAt = 0\<rparr>) 0),
             patternIdx := AddKey (patternIdx demoMid) ''/a'' ''GET:/a''\<rparr>) ''/a'') = 1"
proof -
  define cr where "cr = \<lparr>StatusCode = 200, Headers = [], Body = [], CachedAt = 0\<rparr>"
  obtain err c where s: "Set someChoices (\<lambda>_. 0) (mcache demoMid) ''GET:/a'' (Some cr) 0 = (err, c)" by fastforce
  let ?m = "demoMid\<lparr>mcache := snd (Set someChoices (\<lambda>_. 0) (mcache demoMid) ''GET:/a'' (Some cr) 0), patternIdx := AddKey (patternIdx demoMid) ''/a'' ''GET:/a''\<rparr>"
  note S = Set_spec[OF mid_invD[OF demoMid_inv(1)] someChoices_ok s]
  have v: "''GET:/a'' \<in> dom (cview (mcache ?m))" using S(5) demoMid_inv(3) s by auto
  have k: "GetMatchingKeys (\<lambda>xs. xs) (\<lambda>xs. xs) (AddKey NewPatternIndex ''/a'' ''GET:/a'') ''/a'' = [''GET:/a'']" by code_simp
  obtain n m' where I: "Invalidate (\<lambda>xs. xs) (\<lambda>xs. xs) ?m ''/a'' = (n, m')" by fastforce
  have "{''GET:/a''} \<inter> dom (cview (mcache ?m)) = {''GET:/a''}" using v by blast
  moreover have "GetMatchingKeys (\<lambda>xs. xs) (\<lambda>xs. xs) (patternIdx ?m) ''/a'' = [''GET:/a'']" using k by (simp add: demoMid_inv(6))
  ultimately have "n = 1" using invalidate_exact[OF mid_inv_put[OF demoMid_inv(1) someChoices_ok] I]
    by (simp only: list.set card_1_singleton_iff) simp
  then show ?thesis using I by (simp add: cr_def)
qed

theorem default_key_ambiguous_witness:
  "DefaultKeyGenerator \<lparr>Method = ''GET'', URLString = ''/me'', URLPath = ''/me'',
     reqHeader = [(''Accept'', [''aAuthorization:secret''])]\<rparr> =
   DefaultKeyGenerator \<lparr>Method = ''GET'', URLString = ''/me'', URLPath = ''/me'',
     reqHeader = [(''Accept'', [''a'']), (''Authorization'', [''secret''])]\<rparr>"
  by (rule default_key_ambiguous[where a = "''a''" and s = "''secret''"]; code_simp)

end
