(* ===== verification/Hlc.thy ===== *)
theory Hlc
  imports Kioshun_Prelude
begin

text \<open>
  \<open>cluster/hlc.go\<close>: the hybrid logical clock that versions writes. A timestamp is 48 bits of wall clock
  in milliseconds, 8 bits of sequence and 8 bits of node id, in one 64-bit word; the wall clock reading
  is a parameter of each operation, and the clock's mutex makes each of them atomic. \<open>hlcRun\<close> is a
  sequence of local events and observed timestamps.
\<close>

unbundle bit_operations_syntax

definition hlcSeqMask :: u16 where "hlcSeqMask = 255"
definition hlcNodeMask :: u16 where "hlcNodeMask = 255"

record hlc =
  physMS :: int
  seq :: u16
  nodeID :: u16

definition newHLC :: "u16 \<Rightarrow> hlc" where
  "newHLC nid = \<lparr>physMS = 0, seq = 0, nodeID = nid AND hlcNodeMask\<rparr>"

definition packHLC :: "int \<Rightarrow> u16 \<Rightarrow> u16 \<Rightarrow> u64" where
  "packHLC p s n =
     (let logical = push_bit 8 (s AND hlcSeqMask) OR (n AND hlcNodeMask)
      in push_bit 16 (word_of_int p) OR ucast logical)"

definition unpackHLC :: "u64 \<Rightarrow> int \<times> u16" where
  "unpackHLC ts = (sint (drop_bit 16 ts), ucast (ts AND mask 16))"

definition splitLogical :: "u16 \<Rightarrow> u16 \<times> u16" where
  "splitLogical logical = (drop_bit 8 logical AND hlcSeqMask, logical AND hlcNodeMask)"

definition maxOf :: "int \<Rightarrow> int \<Rightarrow> int \<Rightarrow> int" where
  "maxOf a b c = (let a = (if b > a then b else a) in if c > a then c else a)"

definition tick :: "hlc \<Rightarrow> hlc" where
  "tick h = (if seq h < hlcSeqMask then h\<lparr>seq := seq h + 1\<rparr> else h\<lparr>physMS := i64 (physMS h + 1), seq := 0\<rparr>)"

definition Next :: "int \<Rightarrow> hlc \<Rightarrow> u64 \<times> hlc" where
  "Next now h =
     (let h = (if now > physMS h then h\<lparr>physMS := now, seq := 0\<rparr> else tick h)
      in (packHLC (physMS h) (seq h) (nodeID h), h))"

definition advanceTo :: "int \<Rightarrow> u16 \<Rightarrow> hlc \<Rightarrow> hlc" where
  "advanceTo phys newSeq h =
     (if newSeq > hlcSeqMask then h\<lparr>physMS := i64 (phys + 1), seq := 0\<rparr> else h\<lparr>physMS := phys, seq := newSeq\<rparr>)"

definition Observe :: "int \<Rightarrow> u64 \<Rightarrow> hlc \<Rightarrow> hlc" where
  "Observe now remote h =
     (let (rp, rlog) = unpackHLC remote;
          (rseq, _) = splitLogical rlog;
          phys = maxOf (physMS h) now rp
      in if phys = rp \<and> phys = physMS h then
           let target = (if rseq > seq h then rseq else seq h) in advanceTo phys (target + 1) h
         else if phys = rp \<and> phys > physMS h then advanceTo phys (rseq + 1) h
         else if phys = physMS h \<and> phys > rp then tick h
         else h\<lparr>physMS := phys, seq := 0\<rparr>)"

datatype hlcEvent = Local int | Remote int u64

fun hlcRun :: "hlcEvent list \<Rightarrow> hlc \<Rightarrow> u64 list \<times> hlc" where
  "hlcRun [] h = ([], h)"
| "hlcRun (Local now # es) h = (let (ts, h) = Next now h; (tss, h) = hlcRun es h in (ts # tss, h))"
| "hlcRun (Remote now r # es) h = hlcRun es (Observe now r h)"

text \<open>The state as a number, and the range in which 48 bits hold the physical part.\<close>

definition hlcNum :: "hlc \<Rightarrow> nat" where
  "hlcNum h = nat (physMS h) * 256 + unat (seq h)"

definition hlc_ok :: "hlc \<Rightarrow> bool" where
  "hlc_ok h \<longleftrightarrow> 0 \<le> physMS h \<and> seq h \<le> 255 \<and> nodeID h \<le> 255"

fun event_ok :: "hlcEvent \<Rightarrow> bool" where
  "event_ok (Local now) \<longleftrightarrow> now < 2 ^ 47"
| "event_ok (Remote now r) \<longleftrightarrow> now < 2 ^ 47 \<and> unat r < 2 ^ 63"

section \<open>Lemmas\<close>

lemma push_or_nat: "y < 2 ^ n \<Longrightarrow> push_bit n x OR y = x * 2 ^ n + (y :: nat)"
proof -
  assume "y < 2 ^ n"
  then have y: "take_bit n y = y" by (simp add: take_bit_nat_eq_self)
  have "push_bit n x AND take_bit n y = 0" by (rule bit_eqI) (simp add: bit_simps)
  then have "push_bit n x + y = push_bit n x OR y" unfolding y by (rule disjunctive_add_eq_or)
  then show ?thesis by (simp add: push_bit_eq_mult)
qed

lemma take_bit_unat: "LENGTH('a::len) \<le> n \<Longrightarrow> take_bit n (unat (w :: 'a word)) = unat w"
proof (rule take_bit_nat_eq_self)
  assume "LENGTH('a) \<le> n"
  then have "(2::nat) ^ LENGTH('a) \<le> 2 ^ n" by simp
  then show "unat w < 2 ^ n" using unsigned_less[of w, where ?'a = nat] by linarith
qed

lemma unat_and_255: "unat (x AND 255 :: u16) = unat x mod 256"
proof -
  have "(255 :: u16) = mask 8" by (simp add: mask_eq_exp_minus_1)
  then have "x AND 255 = take_bit 8 x" by (simp only: take_bit_eq_mask)
  then show ?thesis by (simp add: unsigned_take_bit_eq take_bit_nat_def)
qed

lemma u16_le_255: "(x :: u16) \<le> 255 \<longleftrightarrow> unat x \<le> 255" "(x :: u16) < 255 \<longleftrightarrow> unat x < 255"
  by (simp_all add: word_le_nat_alt word_less_nat_alt)

lemma unat_packHLC:
  assumes "0 \<le> p" "p < 2 ^ 48"
  shows "unat (packHLC p s n) = nat p * 65536 + unat s mod 256 * 256 + unat n mod 256"
proof -
  define l :: u16 where "l = push_bit 8 (s AND 255) OR (n AND 255)"
  have a: "unat (push_bit 8 (s AND 255) :: u16) = push_bit 8 (unat s mod 256)"
    unfolding unsigned_push_bit_eq unat_and_255 by (simp add: take_bit_nat_def push_bit_eq_mult)
  have l: "unat l = unat s mod 256 * 256 + unat n mod 256"
    unfolding l_def unsigned_or_eq a unat_and_255 using push_or_nat[of "unat n mod 256" 8 "unat s mod 256"] by simp
  have p: "unat (word_of_int p :: u64) = nat p" using assms by (simp add: unsigned_of_int take_bit_int_eq_self)
  have b: "unat (push_bit 16 (word_of_int p) :: u64) = push_bit 16 (nat p)"
    unfolding unsigned_push_bit_eq p using assms by (simp add: take_bit_nat_def push_bit_eq_mult)
  have u: "unat (ucast l :: u64) = unat l" by (simp only: unsigned_ucast_eq) (simp add: take_bit_unat)
  have "unat (packHLC p s n) = push_bit 16 (nat p) OR unat l"
    unfolding packHLC_def Let_def hlcSeqMask_def hlcNodeMask_def l_def[symmetric] by (simp only: unsigned_or_eq b u)
  also have "\<dots> = nat p * 2 ^ 16 + unat l"
  proof (rule push_or_nat)
    have "unat l < 2 ^ LENGTH(16)" by (rule unsigned_less)
    then show "unat l < 2 ^ 16" by simp
  qed
  finally show ?thesis by (simp add: l)
qed

text \<open>What a remote timestamp decodes to.\<close>

lemma unpackHLC_num:
  assumes "unat r < 2 ^ 63" "unpackHLC r = (rp, rlog)" "splitLogical rlog = (rseq, x)"
  shows "rp = int (unat r div 65536)" "unat rseq = unat r div 256 mod 256"
proof -
  have rp: "rp = sint (drop_bit 16 r)" and rl: "rlog = ucast (r AND mask 16)" using assms(2) by (simp_all add: unpackHLC_def)
  have d: "unat (drop_bit 16 r) = unat r div 65536" unfolding unsigned_drop_bit_eq by (simp add: drop_bit_eq_div take_bit_unat)
  then have "uint (drop_bit 16 r) = int (unat r div 65536)" by (metis of_nat_unat)
  moreover have "sint (drop_bit 16 r) = uint (drop_bit 16 r)"
    unfolding sint_uint calculation using assms(1) by (intro signed_take_bit_int_eq_self) simp_all
  ultimately show "rp = int (unat r div 65536)" using rp by simp
  have "r AND mask 16 = take_bit 16 r" by (simp only: take_bit_eq_mask)
  then have l: "unat rlog = unat r mod 65536" unfolding rl by (simp add: unsigned_ucast_eq unsigned_take_bit_eq take_bit_nat_def)
  have "rseq = drop_bit 8 rlog AND 255" using assms(3) by (simp add: splitLogical_def hlcSeqMask_def)
  then have "unat rseq = unat rlog div 256 mod 256"
    by (simp only: unat_and_255 unsigned_drop_bit_eq) (simp add: drop_bit_eq_div take_bit_unat)
  also have "\<dots> = unat r div 256 mod 256"
    unfolding l by (simp add: mod_mult2_eq[of "unat r" 256 256, simplified])
  finally show "unat rseq = unat r div 256 mod 256" .
qed

lemma tick_num:
  assumes "hlc_ok h" "physMS h < 2 ^ 62"
  shows "hlc_ok (tick h)" "hlcNum (tick h) = hlcNum h + 1" "physMS (tick h) \<le> physMS h + 1" "nodeID (tick h) = nodeID h"
proof -
  have i: "i64 (physMS h + 1) = physMS h + 1" using assms by (intro i64_id is_i64I) (auto simp: hlc_ok_def)
  have s: "unat (seq h) \<le> 255" using assms(1) by (simp add: hlc_ok_def u16_le_255)
  have n: "unat (seq h + 1) = unat (seq h) + 1" using s by (simp add: unat_word_ariths)
  show "hlc_ok (tick h)" "hlcNum (tick h) = hlcNum h + 1" "physMS (tick h) \<le> physMS h + 1" "nodeID (tick h) = nodeID h"
    using assms i s n by (auto simp: tick_def hlc_ok_def hlcNum_def hlcSeqMask_def u16_le_255 nat_add_distrib)
qed

lemma advanceTo_num:
  assumes "hlc_ok h" "0 \<le> p" "p < 2 ^ 62" "unat s \<le> 255"
  shows "hlc_ok (advanceTo p (s + 1) h)" "hlcNum (advanceTo p (s + 1) h) = nat p * 256 + unat s + 1"
    "physMS (advanceTo p (s + 1) h) \<le> p + 1" "nodeID (advanceTo p (s + 1) h) = nodeID h"
proof -
  have i: "i64 (p + 1) = p + 1" using assms by (intro i64_id is_i64I) auto
  have n: "unat (s + 1) = unat s + 1" using assms(4) by (simp add: unat_word_ariths)
  show "hlc_ok (advanceTo p (s + 1) h)" "hlcNum (advanceTo p (s + 1) h) = nat p * 256 + unat s + 1"
    "physMS (advanceTo p (s + 1) h) \<le> p + 1" "nodeID (advanceTo p (s + 1) h) = nodeID h"
    using assms i n by (auto simp: advanceTo_def hlc_ok_def hlcNum_def hlcSeqMask_def u16_le_255 nat_add_distrib word_less_nat_alt)
qed
lemma Next_num:
  assumes "hlc_ok h" "physMS h < 2 ^ 62" "now < 2 ^ 62" "Next now h = (ts, h')"
  shows "hlc_ok h'" "hlcNum h < hlcNum h'" "physMS h' \<le> max (physMS h) now + 1" "nodeID h' = nodeID h"
    "ts = packHLC (physMS h') (seq h') (nodeID h')"
proof -
  have "hlc_ok h' \<and> hlcNum h < hlcNum h' \<and> physMS h' \<le> max (physMS h) now + 1 \<and> nodeID h' = nodeID h"
  proof (cases "now > physMS h")
    case True
    then have h': "h' = h\<lparr>physMS := now, seq := 0\<rparr>" using assms(4) by (simp add: Next_def)
    have "unat (seq h) < 256" using assms(1) by (simp add: hlc_ok_def u16_le_255)
    moreover have "nat (physMS h) + 1 \<le> nat now" using True assms(1) unfolding hlc_ok_def by linarith
    ultimately have "hlcNum h < nat now * 256" unfolding hlcNum_def by linarith
    then show ?thesis using True assms(1) by (simp add: h' hlc_ok_def hlcNum_def)
  next
    case False
    then have h': "h' = tick h" using assms(4) by (simp add: Next_def Let_def)
    show ?thesis using tick_num[OF assms(1,2)] False by (auto simp: h')
  qed
  then show "hlc_ok h'" "hlcNum h < hlcNum h'" "physMS h' \<le> max (physMS h) now + 1" "nodeID h' = nodeID h" by blast+
  show "ts = packHLC (physMS h') (seq h') (nodeID h')" using assms(4) by (auto simp: Next_def Let_def)
qed

lemma stamp_num:
  assumes "hlc_ok h" "physMS h < 2 ^ 48"
  shows "unat (packHLC (physMS h) (seq h) (nodeID h)) = hlcNum h * 256 + unat (nodeID h)"
  using assms unat_packHLC[of "physMS h" "seq h" "nodeID h"] by (simp add: hlc_ok_def hlcNum_def u16_le_255)

lemma Observe_num:
  assumes h: "hlc_ok h" "physMS h < 2 ^ 62" "now < 2 ^ 62" "unat r < 2 ^ 63"
  shows "hlc_ok (Observe now r h) \<and> hlcNum h < hlcNum (Observe now r h) \<and> unat r div 256 < hlcNum (Observe now r h) \<and>
    physMS (Observe now r h) \<le> max (max (physMS h) now) (int (unat r div 65536)) + 1 \<and> nodeID (Observe now r h) = nodeID h"
proof -
  obtain rp rlog rseq x where u: "unpackHLC r = (rp, rlog)" "splitLogical rlog = (rseq, x)" by fastforce
  note R = unpackHLC_num[OF h(4) u]
  define phys where "phys = maxOf (physMS h) now rp"
  have p: "phys = max (max (physMS h) now) rp" by (auto simp: phys_def maxOf_def max_def Let_def)
  have b: "rp < 2 ^ 62" "0 \<le> rp" "phys < 2 ^ 62" "0 \<le> phys" using h p R(1) by (auto simp: hlc_ok_def)
  have s: "unat (seq h) \<le> 255" "unat rseq \<le> 255" using h(1) R(2) by (simp_all add: hlc_ok_def u16_le_255)
  have "unat r div 65536 = unat r div 256 div 256" by (simp flip: div_mult2_eq)
  then have r: "unat r div 256 = nat rp * 256 + unat rseq" using R by simp
  note A = advanceTo_num[OF h(1) b(4,3)]
  have O: "Observe now r h = (if phys = rp \<and> phys = physMS h then advanceTo phys ((if rseq > seq h then rseq else seq h) + 1) h
      else if phys = rp \<and> phys > physMS h then advanceTo phys (rseq + 1) h
      else if phys = physMS h \<and> phys > rp then tick h else h\<lparr>physMS := phys, seq := 0\<rparr>)"
    unfolding Observe_def u prod.case Let_def phys_def[symmetric] by (rule refl)
  consider "phys = rp" "phys = physMS h" | "phys = rp" "phys > physMS h" | "phys = physMS h" "phys > rp"
    | "phys = now" "phys > physMS h" "phys > rp" using p by linarith
  then show ?thesis
  proof cases
    case 1
    have m: "unat (if rseq > seq h then rseq else seq h) = max (unat (seq h)) (unat rseq)"
      by (auto simp: word_less_nat_alt)
    then show ?thesis using A[of "if rseq > seq h then rseq else seq h"] 1 s r p R(1) by (auto simp: O hlcNum_def less_Suc_eq_le)
  next
    case 2
    have "nat (physMS h) + 1 \<le> nat phys" using 2 h(1) unfolding hlc_ok_def by linarith
    then have "hlcNum h < nat phys * 256" using s unfolding hlcNum_def by linarith
    then show ?thesis using A[OF s(2)] 2 s r R(1) p by (auto simp: O)
  next
    case 3
    have "nat rp + 1 \<le> nat (physMS h)" using 3 b(2) by linarith
    then have "unat r div 256 < hlcNum h" using s r unfolding hlcNum_def by linarith
    then show ?thesis using tick_num[OF h(1,2)] 3 by (auto simp: O)
  next
    case 4
    have "nat rp + 1 \<le> nat phys" "nat (physMS h) + 1 \<le> nat phys" using 4 b(2) h(1) unfolding hlc_ok_def by linarith+
    then have "unat r div 256 < nat phys * 256" "hlcNum h < nat phys * 256" using s r unfolding hlcNum_def by linarith+
    then show ?thesis using 4 h(1) by (simp add: O hlc_ok_def hlcNum_def)
  qed
qed

lemma hlcRun_num:
  assumes "hlc_ok h" "physMS h \<le> 2 ^ 47 + B" "0 \<le> B" "B + int (length es) < 2 ^ 47" "list_all event_ok es" "hlcRun es h = (tss, h')"
  shows "sorted_wrt (\<lambda>x y. unat x div 256 < unat y div 256) tss \<and>
    (\<forall>t\<in>set tss. hlcNum h < unat t div 256 \<and> unat t div 256 \<le> hlcNum h' \<and> unat t mod 256 = unat (nodeID h)) \<and>
    hlc_ok h' \<and> hlcNum h \<le> hlcNum h' \<and> physMS h' \<le> 2 ^ 47 + B + int (length es) \<and> nodeID h' = nodeID h"
  using assms
proof (induction es h arbitrary: B tss h' rule: hlcRun.induct)
  case (2 now es h)
  obtain ts h1 tss1 where n: "Next now h = (ts, h1)" and r: "hlcRun es h1 = (tss1, h')" "tss = ts # tss1"
    using 2(7) by (auto split: prod.splits)
  have b: "physMS h < 2 ^ 62" "now < 2 ^ 47" using 2 by simp_all
  then have "now < 2 ^ 62" by simp
  note N = Next_num[OF 2(2) b(1) this n]
  have p1: "physMS h1 \<le> 2 ^ 47 + (B + 1)" using N(3) b(2) 2(3,4) by linarith
  have B1: "0 \<le> B + 1" "B + 1 + int (length es) < 2 ^ 47" using 2(4,5) by simp_all
  note I = 2(1)[OF n[symmetric] refl N(1) p1 B1 _ r(1)]
  have "physMS h1 < 2 ^ 48" using p1 B1 by simp
  from stamp_num[OF N(1) this] have t: "unat ts = hlcNum h1 * 256 + unat (nodeID h)" using N(4,5) by simp
  have "unat (nodeID h) < 256" using 2(2) by (simp add: hlc_ok_def u16_le_255)
  then have t2: "unat ts div 256 = hlcNum h1" "unat ts mod 256 = unat (nodeID h)" using t by simp_all
  show ?case using I 2(6) N t2 r(2) by fastforce
next
  case (3 now r es h)
  have b: "physMS h < 2 ^ 62" "now < 2 ^ 47" "unat r < 2 ^ 63" using 3 by simp_all
  then have "now < 2 ^ 62" by simp
  note O = Observe_num[OF 3(2) b(1) this b(3)]
  have "int (unat r div 65536) \<le> 2 ^ 47" using b(3) by simp
  then have p1: "physMS (Observe now r h) \<le> 2 ^ 47 + (B + 1)" using O b(2) 3(3,4) by linarith
  have B1: "0 \<le> B + 1" "B + 1 + int (length es) < 2 ^ 47" using 3(4,5) by simp_all
  have "list_all event_ok es" "hlcRun es (Observe now r h) = (tss, h')" using 3(6,7) by simp_all
  from 3(1)[OF _ p1 B1 this] show ?case using O by fastforce
qed simp

text \<open>A timestamp decodes to the parts it was packed from.\<close>

lemma hlc_pack_round_trip:
  assumes "0 \<le> p" "p < 2 ^ 47" "s \<le> 255" "n \<le> 255"
  shows "fst (unpackHLC (packHLC p s n)) = p \<and> splitLogical (snd (unpackHLC (packHLC p s n))) = (s, n)"
proof -
  have u: "unat (packHLC p s n) = nat p * 65536 + unat s * 256 + unat n"
    using assms unat_packHLC[of p s n] by (simp add: u16_le_255)
  obtain rp rlog rseq x where d: "unpackHLC (packHLC p s n) = (rp, rlog)" "splitLogical rlog = (rseq, x)" by fastforce
  have b: "unat s \<le> 255" "unat n \<le> 255" "nat p < 2 ^ 47" using assms by (simp_all add: u16_le_255)
  then have "unat (packHLC p s n) < 2 ^ 63" using u by simp
  note R = unpackHLC_num[OF this d]
  have "rp = p" using R(1) u b assms(1) by simp
  moreover have "(nat p * 65536 + unat s * 256 + unat n) div 256 = nat p * 256 + unat s"
    using b by (intro div_nat_eqI) simp_all
  then have "unat rseq = unat s" using R(2) u b by simp
  moreover have "unat x = unat n"
  proof -
    have "rlog = ucast (take_bit 16 (packHLC p s n))" using d(1) by (simp add: unpackHLC_def take_bit_eq_mask)
    then have "unat rlog = unat (packHLC p s n) mod 65536"
      by (simp only:) (simp add: unsigned_ucast_eq unsigned_take_bit_eq take_bit_nat_def)
    moreover have "unat x = unat rlog mod 256" using d(2) by (auto simp: splitLogical_def hlcNodeMask_def unat_and_255)
    moreover have "(nat p * 65536 + unat s * 256 + unat n) mod 65536 mod 256 = unat n"
    proof -
      have e: "nat p * 65536 + unat s * 256 + unat n = (nat p * 256 + unat s) * 256 + unat n" by simp
      have "(nat p * 65536 + unat s * 256 + unat n) mod 65536 mod 256 = (nat p * 65536 + unat s * 256 + unat n) mod 256"
        by (simp add: mod_mod_cancel)
      also have "\<dots> = unat n" unfolding e mod_mult_self3 using b by simp
      finally show ?thesis .
    qed
    ultimately show ?thesis using u b by simp
  qed
  ultimately show ?thesis using d by (simp add: word_unat_eq_iff)
qed

section \<open>Properties\<close>

text \<open>C8. The clock is causal: over any sequence of local events and observed remote timestamps, the
  timestamps it hands out strictly increase whatever the wall clock does, all of them carry the
  node's id, and those given after observing a remote timestamp are larger than it. The bounds keep
  the physical part within its 48 bits.\<close>

theorem hlc_causal:
  assumes "hlc_ok h" "physMS h \<le> 2 ^ 47" "list_all event_ok (es1 @ Remote now r # es2)" "length (es1 @ Remote now r # es2) < 2 ^ 47"
    "hlcRun es1 h = (ts1, h1)" "hlcRun (Remote now r # es2) h1 = (ts2, h2)"
  shows "sorted_wrt (<) (ts1 @ ts2) \<and> (\<forall>t\<in>set ts2. r < t) \<and> (\<forall>t\<in>set (ts1 @ ts2). unat t mod 256 = unat (nodeID h))"
proof -
  have l: "int (length es1) + int (length es2) + 1 < 2 ^ 47" using assms(4) by simp
  have ok: "list_all event_ok es1" "list_all event_ok es2" "now < 2 ^ 47" "unat r < 2 ^ 63" using assms(3) by simp_all
  have "physMS h \<le> 2 ^ 47 + 0" "0 + int (length es1) < 2 ^ 47" using assms(2) l by linarith+
  note R1 = hlcRun_num[OF assms(1) this(1) order_refl this(2) ok(1) assms(5)]
  define hr where "hr = Observe now r h1"
  have p1: "physMS h1 \<le> 2 ^ 47 + int (length es1)" "hlc_ok h1" "nodeID h1 = nodeID h" using R1 by simp_all
  have "physMS h1 < 2 ^ 62" "now < 2 ^ 62" using p1(1) l ok(3) by simp_all
  note O = Observe_num[OF p1(2) this ok(4), folded hr_def]
  have "int (unat r div 65536) \<le> 2 ^ 47" using ok(4) by simp
  then have p2: "physMS hr \<le> 2 ^ 47 + (int (length es1) + 1)" using O p1(1) ok(3) by linarith
  have r2: "hlcRun es2 hr = (ts2, h2)" using assms(6) by (simp add: hr_def)
  have R2: "sorted_wrt (\<lambda>x y. unat x div 256 < unat y div 256) ts2"
    "\<And>t. t \<in> set ts2 \<Longrightarrow> hlcNum hr < unat t div 256 \<and> unat t mod 256 = unat (nodeID hr)"
    using hlcRun_num[OF _ p2 _ _ ok(2) r2] O l by simp_all
  have lt: "x < y" if "unat x div 256 < unat y div 256" for x y :: u64
    using that by (meson div_le_mono not_le word_less_nat_alt)
  have "sorted_wrt (\<lambda>x y. unat x div 256 < unat y div 256) (ts1 @ ts2)"
    using R1 R2 O by (fastforce simp: sorted_wrt_append)
  then have "sorted_wrt (<) (ts1 @ ts2)" by (rule sorted_wrt_mono_rel[rotated]) (rule lt)
  moreover have "r < t" if "t \<in> set ts2" for t using R2(2)[OF that] O by (intro lt) linarith
  ultimately show ?thesis using R1 R2(2) O p1(3) by auto
qed

theorem hlc_causal_witness:
  "sorted_wrt (<) (fst (hlcRun [Local 5, Local 3] (newHLC 7)) @
     fst (hlcRun (Remote 4 (packHLC 9 255 2) # [Local 6]) (snd (hlcRun [Local 5, Local 3] (newHLC 7)))))"
proof -
  let ?es = "[Local 5, Local 3]" let ?r = "packHLC 9 255 2"
  obtain ts1 h1 ts2 h2 where r: "hlcRun ?es (newHLC 7) = (ts1, h1)" "hlcRun (Remote 4 ?r # [Local 6]) h1 = (ts2, h2)" by fastforce
  have u: "unat ?r = 655106" by (subst unat_packHLC) simp_all
  have "hlc_ok (newHLC 7)" by code_simp
  from hlc_causal[OF this _ _ _ r] show ?thesis using u r by (simp add: newHLC_def)
qed

end
