(* ===== verification/Rendezvous.thy ===== *)
theory Rendezvous
  imports Kioshun_Prelude "HOL-Library.List_Lexorder" "HOL-Library.Char_ord"
begin

text \<open>
  \<open>cluster/rendezvous.go\<close>: weighted rendezvous hashing. Every node is scored for a key, and the best
  \<open>rf\<close> nodes own it. Node ids are strings, compared byte by byte; scores and weights are 64-bit words
  and their product has 128 bits. The hash of a node id comes from a third-party package and is the
  parameter \<open>xx\<close>. \<open>None\<close> is the panic of making a slice of negative length.
\<close>

unbundle bit_operations_syntax

section \<open>Nodes and scores\<close>

type_synonym NodeID = string

record nodeMeta =
  ID :: NodeID
  Addr :: string
  weight :: u64
  salt :: u64

definition newMeta :: "(string \<Rightarrow> u64) \<Rightarrow> NodeID \<Rightarrow> string \<Rightarrow> nodeMeta" where
  "newMeta xx i addr = \<lparr>ID = i, Addr = addr, weight = 500000, salt = xx i\<rparr>"

definition mix64 :: "u64 \<Rightarrow> u64" where
  "mix64 x =
     (let x = x XOR drop_bit 30 x;
          x = x * 0xbf58476d1ce4e5b9;
          x = x XOR drop_bit 27 x;
          x = x * 0x94d049bb133111eb
      in x XOR drop_bit 31 x)"

text \<open>\<open>bits.Mul64\<close>: the two halves of the full product.\<close>

definition Mul64 :: "u64 \<Rightarrow> u64 \<Rightarrow> u64 \<times> u64" where
  "Mul64 x y = (let p = unat x * unat y in (word_of_nat (p div 2 ^ 64), word_of_nat (p mod 2 ^ 64)))"

record ring =
  nodes :: "nodeMeta list"
  rf :: int

definition newRing :: "int \<Rightarrow> ring" where
  "newRing n = \<lparr>nodes = [], rf = n\<rparr>"

section \<open>Owners\<close>

text \<open>The entries that are ranked: score, weight, node.\<close>

type_synonym pair = "u64 \<times> u64 \<times> nodeMeta"

definition pairOf :: "u64 \<Rightarrow> nodeMeta \<Rightarrow> pair" where
  "pairOf keyHash nm = (mix64 (keyHash XOR salt nm), weight nm, nm)"

definition lessPair :: "pair \<Rightarrow> pair \<Rightarrow> bool" where
  "lessPair = (\<lambda>(s1, w1, n1) (s2, w2, n2).
     let (hi1, lo1) = Mul64 s1 w1; (hi2, lo2) = Mul64 s2 w2
     in if hi1 \<noteq> hi2 then hi1 > hi2
        else if lo1 \<noteq> lo2 then lo1 > lo2
        else ID n1 < ID n2)"

text \<open>
  \<open>sort.Slice\<close>. Node ids are distinct, so \<open>lessPair\<close> is a strict total order on what is sorted and every
  sorting algorithm gives the same result.
\<close>

fun insertBy :: "('a \<Rightarrow> 'a \<Rightarrow> bool) \<Rightarrow> 'a \<Rightarrow> 'a list \<Rightarrow> 'a list" where
  "insertBy lt x [] = [x]"
| "insertBy lt x (y # ys) = (if lt y x then y # insertBy lt x ys else x # y # ys)"

fun sortSlice :: "('a \<Rightarrow> 'a \<Rightarrow> bool) \<Rightarrow> 'a list \<Rightarrow> 'a list" where
  "sortSlice lt [] = []"
| "sortSlice lt (x # xs) = insertBy lt x (sortSlice lt xs)"

definition ownersTopNFromKeyHash :: "ring \<Rightarrow> u64 \<Rightarrow> int \<Rightarrow> nodeMeta list option" where
  "ownersTopNFromKeyHash r keyHash n =
     (let arr = sortSlice lessPair (map (pairOf keyHash) (nodes r));
          n = (if n > int (length arr) then int (length arr) else n)
      in if n < 0 then None else Some (map (snd \<circ> snd) (take (nat n) arr)))"

definition ownersFromKeyHash :: "ring \<Rightarrow> u64 \<Rightarrow> nodeMeta list option" where
  "ownersFromKeyHash r keyHash =
     (let arr = sortSlice lessPair (map (pairOf keyHash) (nodes r));
          n = (if rf r > int (length arr) then int (length arr) else rf r)
      in if n < 0 then None else Some (map (snd \<circ> snd) (take (nat n) arr)))"

section \<open>Membership without sorting\<close>

record slot =
  hi :: u64
  lo :: u64
  sn :: nodeMeta

definition worseSlot :: "slot \<Rightarrow> slot \<Rightarrow> bool" where
  "worseSlot a b \<longleftrightarrow>
     (if hi a \<noteq> hi b then hi a < hi b
      else if lo a \<noteq> lo b then lo a < lo b
      else ID (sn a) > ID (sn b))"

definition slotOf :: "u64 \<Rightarrow> nodeMeta \<Rightarrow> slot" where
  "slotOf keyHash nm =
     (let (h, l) = Mul64 (mix64 (keyHash XOR salt nm)) (weight nm) in \<lparr>hi = h, lo = l, sn = nm\<rparr>)"

text \<open>The inner loop: the index of the worst slot from index \<open>i\<close> on, \<open>worst\<close> being the worst so far.\<close>

fun findWorst :: "slot list \<Rightarrow> nat list \<Rightarrow> nat \<Rightarrow> nat" where
  "findWorst best [] worst = worst"
| "findWorst best (i # is) worst =
     findWorst best is (if worseSlot (best ! i) (best ! worst) then i else worst)"

fun ownsLoop :: "u64 \<Rightarrow> nat \<Rightarrow> nodeMeta list \<Rightarrow> slot list \<Rightarrow> nat \<Rightarrow> slot list" where
  "ownsLoop keyHash cap [] best worst = best"
| "ownsLoop keyHash cap (nm # nms) best worst =
     (let sl = slotOf keyHash nm
      in if length best < cap
         then let best = best @ [sl]
              in ownsLoop keyHash cap nms best
                   (if length best = 1 \<or> worseSlot (last best) (best ! worst) then length best - 1 else worst)
         else if \<not> worseSlot sl (best ! worst)
         then let best = best[worst := sl]
              in ownsLoop keyHash cap nms best (findWorst best [1..<length best] 0)
         else ownsLoop keyHash cap nms best worst)"

definition ownsHash :: "ring \<Rightarrow> NodeID \<Rightarrow> u64 \<Rightarrow> bool" where
  "ownsHash r selfID keyHash =
     (if nodes r = [] \<or> rf r \<le> 0 then False
      else
        let cap = (if rf r > int (length (nodes r)) then length (nodes r) else nat (rf r))
        in list_ex (\<lambda>sl. ID (sn sl) = selfID) (ownsLoop keyHash cap (nodes r) [] 0))"

definition hasID :: "ring \<Rightarrow> NodeID \<Rightarrow> bool" where
  "hasID r i = list_ex (\<lambda>nm. ID nm = i) (nodes r)"

text \<open>The order that ranks the nodes for a key: by product, then by id.\<close>

definition score :: "u64 \<Rightarrow> nodeMeta \<Rightarrow> nat" where
  "score keyHash nm = unat (mix64 (keyHash XOR salt nm)) * unat (weight nm)"

definition better :: "u64 \<Rightarrow> nodeMeta \<Rightarrow> nodeMeta \<Rightarrow> bool" where
  "better keyHash a b \<longleftrightarrow> score keyHash a > score keyHash b \<or> score keyHash a = score keyHash b \<and> ID a < ID b"

text \<open>The nodes in that order, and the best \<open>k\<close> nodes of a set.\<close>

definition ranked :: "u64 \<Rightarrow> nodeMeta list \<Rightarrow> nodeMeta list" where
  "ranked h ns = map (snd \<circ> snd) (sortSlice lessPair (map (pairOf h) ns))"

definition topK :: "u64 \<Rightarrow> nat \<Rightarrow> nodeMeta set \<Rightarrow> nodeMeta set \<Rightarrow> bool" where
  "topK keyHash k N S \<longleftrightarrow> S \<subseteq> N \<and> card S = k \<and> (\<forall>x\<in>S. \<forall>y\<in>N - S. better keyHash x y)"

text \<open>The selection loop: \<open>w\<close> points to the worst of the nodes kept.\<close>

definition worstAt :: "u64 \<Rightarrow> nodeMeta list \<Rightarrow> nat \<Rightarrow> bool" where
  "worstAt h bs w \<longleftrightarrow> w < length bs \<and> (\<forall>i<length bs. i \<noteq> w \<longrightarrow> better h (bs ! i) (bs ! w))"

text \<open>A ring for the concrete instances below.\<close>

definition demoRing :: ring where
  "demoRing = \<lparr>nodes = [newMeta (\<lambda>_. 1) ''a'' ''x'', newMeta (\<lambda>_. 2) ''b'' ''y'', newMeta (\<lambda>_. 3) ''c'' ''z''], rf = 2\<rparr>"

section \<open>Lemmas\<close>

lemma Mul64_less:
  fixes s1 w1 s2 w2 :: u64
  assumes "Mul64 s1 w1 = (h1, l1)" "Mul64 s2 w2 = (h2, l2)"
  shows "(if h1 \<noteq> h2 then h1 > h2 else l1 > l2) \<longleftrightarrow> unat s1 * unat w1 > unat s2 * unat w2"
    "h1 = h2 \<and> l1 = l2 \<longleftrightarrow> unat s1 * unat w1 = unat s2 * unat w2"
proof -
  let ?p = "unat s1 * unat w1" and ?q = "unat s2 * unat w2"
  have half: "unat (word_of_nat (unat a * unat b div 2 ^ 64) :: u64) = unat a * unat b div 2 ^ 64"
    "unat (word_of_nat (unat a * unat b mod 2 ^ 64) :: u64) = unat a * unat b mod 2 ^ 64" for a b :: u64
  proof -
    have l: "unat a < 2 ^ 64" "unat b < 2 ^ 64" using unat_u64_less[of a] unat_u64_less[of b] by simp_all
    have "unat a * unat b < 2 ^ 64 * 2 ^ 64" using l by (intro mult_strict_mono) auto
    then have "unat a * unat b div 2 ^ 64 < 2 ^ 64" by (rule less_mult_imp_div_less)
    then show "unat (word_of_nat (unat a * unat b div 2 ^ 64) :: u64) = unat a * unat b div 2 ^ 64"
      "unat (word_of_nat (unat a * unat b mod 2 ^ 64) :: u64) = unat a * unat b mod 2 ^ 64"
      by (simp_all add: unsigned_of_nat take_bit_nat_eq_self)
  qed
  have e: "unat h1 = ?p div 2 ^ 64" "unat l1 = ?p mod 2 ^ 64" "unat h2 = ?q div 2 ^ 64" "unat l2 = ?q mod 2 ^ 64"
    using assms half unfolding Mul64_def Let_def by (metis fst_conv snd_conv)+
  have d: "?p = unat h1 * 2 ^ 64 + unat l1" "?q = unat h2 * 2 ^ 64 + unat l2" unfolding e by (simp_all add: div_mult_mod_eq)
  have b: "unat l1 < 2 ^ 64" "unat l2 < 2 ^ 64" unfolding e by simp_all
  show "(if h1 \<noteq> h2 then h1 > h2 else l1 > l2) \<longleftrightarrow> ?p > ?q"
  proof (cases "unat h1" "unat h2" rule: linorder_cases)
    case less
    then have "unat h1 * 2 ^ 64 + 2 ^ 64 \<le> unat h2 * 2 ^ 64" by (simp flip: mult_Suc)
    then have "?p < ?q" using d b by linarith
    then show ?thesis using less by (auto simp: word_less_nat_alt)
  next
    case equal
    then show ?thesis using d by (auto simp: word_less_nat_alt word_unat_eq_iff)
  next
    case greater
    then have "unat h2 * 2 ^ 64 + 2 ^ 64 \<le> unat h1 * 2 ^ 64" by (simp flip: mult_Suc)
    then have "?q < ?p" using d b by linarith
    then show ?thesis using greater by (auto simp: word_less_nat_alt)
  qed
  show "h1 = h2 \<and> l1 = l2 \<longleftrightarrow> ?p = ?q"
  proof
    assume "h1 = h2 \<and> l1 = l2"
    then show "?p = ?q" unfolding d by simp
  next
    assume "?p = ?q"
    then have "unat h1 = unat h2" "unat l1 = unat l2" unfolding e by simp_all
    then show "h1 = h2 \<and> l1 = l2" by (simp add: word_unat_eq_iff)
  qed
qed

lemma lessPair_better: "lessPair (pairOf h a) (pairOf h b) \<longleftrightarrow> better h a b"
proof -
  obtain h1 l1 h2 l2 where m: "Mul64 (mix64 (h XOR salt a)) (weight a) = (h1, l1)" "Mul64 (mix64 (h XOR salt b)) (weight b) = (h2, l2)"
    by fastforce
  show ?thesis using Mul64_less[OF m] m by (auto simp: lessPair_def pairOf_def better_def score_def)
qed

lemma worseSlot_better: "worseSlot (slotOf h a) (slotOf h b) \<longleftrightarrow> better h b a"
proof -
  obtain h1 l1 h2 l2 where m: "Mul64 (mix64 (h XOR salt b)) (weight b) = (h1, l1)" "Mul64 (mix64 (h XOR salt a)) (weight a) = (h2, l2)"
    by fastforce
  show ?thesis using Mul64_less[OF m] m by (auto simp: worseSlot_def slotOf_def better_def score_def)
qed

lemma better_asym: "better h a b \<Longrightarrow> \<not> better h b a"
  by (auto simp: better_def)

lemma better_trans: "better h a b \<Longrightarrow> better h b c \<Longrightarrow> better h a c"
  by (auto simp: better_def)

lemma better_total: "ID a \<noteq> ID b \<Longrightarrow> better h a b \<or> better h b a"
  by (auto simp: better_def)

lemma topK_unique:
  assumes S: "topK h k N S" and T: "topK h k N T" and f: "finite N"
  shows "S = T"
proof (rule ccontr)
  assume ne: "S \<noteq> T"
  have fin: "finite S" "finite T" "card S = card T" using S T f by (auto simp: topK_def dest: finite_subset)
  have "S - T \<noteq> {}" using ne fin card_subset_eq[of T S] by auto
  moreover have "T - S \<noteq> {}" using ne fin card_subset_eq[of S T] by auto
  ultimately obtain x y where "x \<in> S" "x \<notin> T" "y \<in> T" "y \<notin> S" by blast
  then have "better h x y" "better h y x" using S T by (auto simp: topK_def)
  then show False using better_asym by blast
qed

subsection \<open>The sorted list\<close>

lemma sortSlice_set [simp]: "set (sortSlice lt xs) = set xs" "length (sortSlice lt xs) = length xs"
proof -
  have i: "set (insertBy lt x ys) = insert x (set ys)" "length (insertBy lt x ys) = Suc (length ys)" for x ys
    by (induction ys) auto
  show "set (sortSlice lt xs) = set xs" "length (sortSlice lt xs) = length xs" by (induction xs) (auto simp: i)
qed

text \<open>A strict order that is total on the list sorts it, in only one way.\<close>

lemma sortSlice_sorted:
  assumes tr: "\<And>x y z. lt x y \<Longrightarrow> lt y z \<Longrightarrow> lt x z" and tot: "\<And>x y. x \<in> set xs \<Longrightarrow> y \<in> set xs \<Longrightarrow> x \<noteq> y \<Longrightarrow> lt x y \<or> lt y x"
    and d: "distinct xs"
  shows "sorted_wrt lt (sortSlice lt xs)"
proof -
  have ins: "sorted_wrt lt ys \<Longrightarrow> (\<And>y. y \<in> set ys \<Longrightarrow> lt x y \<or> lt y x) \<Longrightarrow> sorted_wrt lt (insertBy lt x ys) \<and> set (insertBy lt x ys) = insert x (set ys)" for x ys
    by (induction ys) (auto intro: tr)
  show ?thesis using tot d
  proof (induction xs)
    case (Cons x xs)
    then have "sorted_wrt lt (sortSlice lt xs)" by simp
    moreover have "lt x y \<or> lt y x" if "y \<in> set (sortSlice lt xs)" for y using that Cons.prems by auto
    ultimately show ?case using ins[of "sortSlice lt xs" x] by simp
  qed simp
qed


lemma ranked_sorted:
  assumes "distinct (map ID ns)"
  shows "sorted_wrt (better h) (ranked h ns)" "set (ranked h ns) = set ns" "length (ranked h ns) = length ns"
    "sortSlice lessPair (map (pairOf h) ns) = map (pairOf h) (ranked h ns)" "distinct (map ID (ranked h ns))"
proof -
  let ?ps = "map (pairOf h) ns" let ?S = "sortSlice lessPair ?ps"
  have inj: "ID a = ID b \<Longrightarrow> a = b" if "a \<in> set ns" "b \<in> set ns" for a b
    using assms that by (metis distinct_map inj_on_def)
  have S: "?S = map (pairOf h) (ranked h ns)"
  proof -
    have "map (pairOf h \<circ> (snd \<circ> snd)) ?S = ?S" by (rule map_idI) (auto simp: pairOf_def)
    then show ?thesis by (simp add: ranked_def)
  qed
  show "sortSlice lessPair ?ps = map (pairOf h) (ranked h ns)" by (rule S)
  have "set (ranked h ns) = (snd \<circ> snd) ` set ?ps" by (simp add: ranked_def image_image)
  also have "\<dots> = set ns" by (force simp: pairOf_def)
  finally show st: "set (ranked h ns) = set ns" .
  show l: "length (ranked h ns) = length ns" by (simp add: ranked_def)
  have "distinct ns" using assms by (simp add: distinct_map)
  then have d: "distinct (ranked h ns)" using st l by (metis card_distinct distinct_card)
  then show "distinct (map ID (ranked h ns))" using st inj by (simp add: distinct_map inj_on_def)
  define lt where "lt p q \<longleftrightarrow> better h (snd (snd p)) (snd (snd q))" for p q :: pair
  have e: "sortSlice lt ?ps = ?S"
  proof -
    have i: "insertBy lt x ys = insertBy lessPair x ys" if "x \<in> range (pairOf h)" "set ys \<subseteq> range (pairOf h)" for x ys
      using that by (induction ys) (auto simp: lt_def lessPair_better pairOf_def[of h] simp flip: lessPair_better[of h])
    show ?thesis
    proof (induction ns)
      case (Cons n ns)
      have "set (sortSlice lessPair (map (pairOf h) ns)) \<subseteq> range (pairOf h)" by auto
      then show ?case using Cons i by simp
    qed simp
  qed
  have "sorted_wrt lt ?S" unfolding e[symmetric]
  proof (rule sortSlice_sorted)
    show "lt x z" if "lt x y" "lt y z" for x y z using that better_trans unfolding lt_def by blast
    show "lt x y \<or> lt y x" if "x \<in> set ?ps" "y \<in> set ?ps" "x \<noteq> y" for x y
      using that inj better_total by (fastforce simp: lt_def pairOf_def)
    show "distinct ?ps" using \<open>distinct ns\<close> by (simp add: distinct_map inj_on_def pairOf_def)
  qed
  then show "sorted_wrt (better h) (ranked h ns)" unfolding S by (simp add: sorted_wrt_map lt_def pairOf_def)
qed

lemma owners_take:
  assumes "distinct (map ID (nodes r))" "0 \<le> rf r"
  shows "ownersFromKeyHash r h = Some (take (nat (rf r)) (ranked h (nodes r)))"
proof -
  let ?n = "if rf r > int (length (nodes r)) then int (length (nodes r)) else rf r"
  have t: "take (nat ?n) xs = take (nat (rf r)) xs" if "length xs = length (nodes r)" for xs :: "pair list"
    using that assms(2) by auto
  have "ownersFromKeyHash r h = Some (map (snd \<circ> snd) (take (nat ?n) (sortSlice lessPair (map (pairOf h) (nodes r)))))"
    using assms(2) by (simp add: ownersFromKeyHash_def Let_def)
  also have "\<dots> = Some (take (nat (rf r)) (ranked h (nodes r)))"
    by (subst t) (simp_all add: ranked_def take_map)
  finally show ?thesis .
qed

lemma take_ranked_topK:
  assumes "distinct (map ID ns)" "k \<le> length ns"
  shows "topK h k (set ns) (set (take k (ranked h ns)))"
proof -
  note R = ranked_sorted[OF assms(1), of h]
  have d: "distinct (ranked h ns)" using R(5) by (simp add: distinct_map)
  have s: "sorted_wrt (better h) (take k (ranked h ns) @ drop k (ranked h ns))" using R(1) by simp
  have "set ns - set (take k (ranked h ns)) \<subseteq> set (drop k (ranked h ns))"
    using R(2) by (metis append_take_drop_id set_append Diff_subset_conv order_refl)
  then have "\<forall>x\<in>set (take k (ranked h ns)). \<forall>y\<in>set ns - set (take k (ranked h ns)). better h x y"
    using s unfolding sorted_wrt_append by blast
  moreover have "card (set (take k (ranked h ns))) = k" using d R(3) assms(2) by (simp add: distinct_card)
  ultimately show ?thesis using R(2) set_take_subset by (fastforce simp: topK_def)
qed


subsection \<open>The selection loop\<close>

lemma findWorst_aux:
  assumes "worst < length bs" "set is \<subseteq> {..<length bs}" "distinct (map ID bs)"
  shows "findWorst (map (slotOf h) bs) is worst < length bs \<and>
    (\<forall>i\<in>insert worst (set is). i \<noteq> findWorst (map (slotOf h) bs) is worst \<longrightarrow>
       better h (bs ! i) (bs ! findWorst (map (slotOf h) bs) is worst))"
  using assms(1,2)
proof (induction "is" arbitrary: worst)
  case (Cons i "is")
  define w where "w = (if worseSlot (map (slotOf h) bs ! i) (map (slotOf h) bs ! worst) then i else worst)"
  have i: "i < length bs" using Cons.prems by simp
  have w: "w = (if better h (bs ! worst) (bs ! i) then i else worst)" using i Cons.prems by (simp add: w_def worseSlot_better)
  have wl: "w < length bs" using w i Cons.prems by simp
  define f where "f = findWorst (map (slotOf h) bs) is w"
  have I: "f < length bs" "\<And>x. x \<in> insert w (set is) \<Longrightarrow> x \<noteq> f \<Longrightarrow> better h (bs ! x) (bs ! f)"
    using Cons.IH[OF wl] Cons.prems unfolding f_def by auto
  have e: "findWorst (map (slotOf h) bs) (i # is) worst = f" by (simp add: w_def f_def)
  have v: "x = w \<or> better h (bs ! x) (bs ! w)" if "x \<in> {i, worst}" for x
  proof -
    have "ID (bs ! i) \<noteq> ID (bs ! worst)" if "i \<noteq> worst"
      using that assms(3) i Cons.prems(1) nth_eq_iff_index_eq[of "map ID bs" i worst] by auto
    then show ?thesis using that better_total[of "bs ! i" "bs ! worst" h] by (auto simp: w)
  qed
  have "better h (bs ! x) (bs ! f)" if x: "x \<in> insert worst (set (i # is))" "x \<noteq> f" for x
  proof (cases "x \<in> insert w (set is)")
    case True
    then show ?thesis using I(2) x(2) by blast
  next
    case False
    then have "better h (bs ! x) (bs ! w)" using v[of x] x(1) by auto
    then show ?thesis using I(2)[of w] better_trans by (cases "w = f") auto
  qed
  then show ?case unfolding e using I(1) by blast
qed simp

lemma findWorst_worst:
  assumes "bs \<noteq> []" "distinct (map ID bs)"
  shows "worstAt h bs (findWorst (map (slotOf h) bs) [1..<length bs] 0)"
proof -
  have "insert 0 (set [1..<length bs]) = {..<length bs}" using assms(1) by (auto simp: Suc_le_eq)
  then show ?thesis using findWorst_aux[of 0 bs "[1..<length bs]" h] assms by (auto simp: worstAt_def)
qed

lemma topK_insert_new:
  assumes "topK h (length bs) N (set bs)" "set bs = N" "distinct bs" "x \<notin> N"
  shows "topK h (length (bs @ [x])) (insert x N) (set (bs @ [x]))"
  using assms(1,3,4) unfolding assms(2)[symmetric] by (simp add: topK_def)

lemma topK_replace:
  assumes t: "topK h (length bs) N (set bs)" and w: "worstAt h bs w" and x: "x \<notin> N" "better h x (bs ! w)" and d: "distinct bs"
  shows "topK h (length bs) (insert x N) (set (bs[w := x]))" "distinct (bs[w := x])"
proof -
  have l: "w < length bs" and m: "bs ! w \<in> set bs" "x \<notin> set bs" using w t x(1) by (auto simp: worstAt_def topK_def)
  show d2: "distinct (bs[w := x])" using d m(2) by (simp add: distinct_list_update)
  have s: "set (bs[w := x]) = insert x (set bs - {bs ! w})" using d l by (simp add: set_update_distinct)
  have b: "better h y (bs ! w)" if "y \<in> set bs" "y \<noteq> bs ! w" for y
    using that w by (auto simp: worstAt_def in_set_conv_nth)
  have "better h y z" if "y \<in> set (bs[w := x])" "z \<in> insert x N - set (bs[w := x])" for y z
  proof -
    have yw: "better h y (bs ! w)" using that(1) b x(2) unfolding s by blast
    show ?thesis
    proof (cases "z = bs ! w")
      case False
      then have "z \<in> N - set bs" using that(2) unfolding s by blast
      then have "better h (bs ! w) z" using t m(1) by (auto simp: topK_def)
      then show ?thesis using yw better_trans by blast
    qed (use yw in simp)
  qed
  moreover have "set (bs[w := x]) \<subseteq> insert x N" using t unfolding s by (auto simp: topK_def)
  moreover have "card (set (bs[w := x])) = length bs" using d2 by (metis distinct_card length_list_update)
  ultimately show "topK h (length bs) (insert x N) (set (bs[w := x]))" by (simp add: topK_def)
qed

lemma topK_skip:
  assumes t: "topK h (length bs) N (set bs)" and w: "worstAt h bs w" and x: "better h (bs ! w) x" "x \<notin> N"
  shows "topK h (length bs) (insert x N) (set bs)"
proof -
  have "better h y x" if "y \<in> set bs" for y
    using that w x(1) better_trans by (auto simp: worstAt_def in_set_conv_nth)
  then show ?thesis using t x by (auto simp: topK_def)
qed

lemma ownsLoop_topK:
  assumes "distinct (map ID (ds @ ns))" "topK h (length bs) (set ds) (set bs)" "distinct bs" "length bs = min cap (length ds)"
    "0 < cap" "bs = [] \<or> worstAt h bs w"
  shows "\<exists>cs. ownsLoop h cap ns (map (slotOf h) bs) w = map (slotOf h) cs \<and>
    topK h (min cap (length (ds @ ns))) (set (ds @ ns)) (set cs)"
  using assms
proof (induction ns arbitrary: ds bs w)
  case Nil
  then show ?case by auto
next
  case (Cons n ns)
  have n: "n \<notin> set ds" "ID n \<notin> ID ` set ds" and dd: "distinct (map ID ds)" using Cons.prems(1) by auto
  have sub: "set bs \<subseteq> set ds" using Cons.prems(2) by (simp add: topK_def)
  have "inj_on ID (insert n (set ds))" using n(2) dd by (auto simp: distinct_map)
  then have idn: "distinct (map ID cs)" if "distinct cs" "set cs \<subseteq> insert n (set ds)" for cs
    unfolding distinct_map using that inj_on_subset by blast
  have ds': "distinct (map ID ((ds @ [n]) @ ns))" using Cons.prems(1) by simp
  consider "length bs < cap" | "\<not> length bs < cap" "better h n (bs ! w)" | "\<not> length bs < cap" "better h (bs ! w) n"
    using Cons.prems(4-6) better_total[of n "bs ! w" h] n(2) sub
    by (cases "length bs < cap") (force simp: worstAt_def)+
  then show ?case
  proof cases
    case 1
    then have ld: "length bs = length ds" using Cons.prems(4) by simp
    then have all: "set bs = set ds"
      using sub dd Cons.prems(3) by (metis card_subset_eq distinct_card distinct_map finite_set)
    define w' where "w' = (if length (bs @ [n]) = 1 \<or> worseSlot (slotOf h n) (map (slotOf h) (bs @ [n]) ! w) then length bs else w)"
    have ww: "worstAt h (bs @ [n]) w'"
    proof (cases "bs = []")
      case False
      then have w: "worstAt h bs w" using Cons.prems(6) by simp
      then have "better h (bs ! w) n \<or> better h n (bs ! w)" using better_total[of n "bs ! w" h] n(2) sub by (force simp: worstAt_def)
      moreover have w': "w' = (if better h (bs ! w) n then length bs else w)"
        using False w by (simp add: w'_def nth_append worstAt_def worseSlot_better flip: map_append)
      moreover have "better h (bs ! i) n" if "i < length bs" "better h (bs ! w) n" for i
        using that w better_trans[of h "bs ! i" "bs ! w" n] by (cases "i = w") (simp_all add: worstAt_def)
      ultimately show ?thesis using w by (auto simp: worstAt_def nth_append less_Suc_eq)
    qed (simp add: worstAt_def w'_def)
    have "topK h (length (bs @ [n])) (set (ds @ [n])) (set (bs @ [n]))"
      using topK_insert_new[OF Cons.prems(2) all Cons.prems(3) n(1)] by simp
    moreover have "distinct (bs @ [n])" "length (bs @ [n]) = min cap (length (ds @ [n]))"
      using Cons.prems(3) n(1) sub 1 ld by auto
    ultimately have "\<exists>cs. ownsLoop h cap ns (map (slotOf h) (bs @ [n])) w' = map (slotOf h) cs \<and>
        topK h (min cap (length ((ds @ [n]) @ ns))) (set ((ds @ [n]) @ ns)) (set cs)"
      using ww by (intro Cons.IH[OF ds' _ _ _ Cons.prems(5)]) auto
    moreover have "ownsLoop h cap (n # ns) (map (slotOf h) bs) w = ownsLoop h cap ns (map (slotOf h) (bs @ [n])) w'"
      using 1 by (simp add: w'_def Let_def)
    ultimately show ?thesis by simp
  next
    case 2
    then have w: "worstAt h bs w" "w < length bs" using Cons.prems(4-6) by (auto simp: worstAt_def)
    note R = topK_replace[OF Cons.prems(2) w(1) n(1) 2(2) Cons.prems(3)]
    have ne: "bs[w := n] \<noteq> []" using w(2) by auto
    have "set (bs[w := n]) \<subseteq> insert n (set ds)" using sub set_update_subset_insert[of bs w n] by blast
    note W = findWorst_worst[OF ne idn[OF R(2) this], of h]
    have "\<exists>cs. ownsLoop h cap ns (map (slotOf h) (bs[w := n])) (findWorst (map (slotOf h) (bs[w := n])) [1..<length bs] 0) = map (slotOf h) cs \<and>
        topK h (min cap (length ((ds @ [n]) @ ns))) (set ((ds @ [n]) @ ns)) (set cs)"
      using R W 2(1) Cons.prems(4) by (intro Cons.IH[OF ds' _ _ _ Cons.prems(5)]) auto
    moreover have "\<not> worseSlot (slotOf h n) (map (slotOf h) bs ! w)" using 2(2) w(2) better_asym by (simp add: worseSlot_better)
    ultimately show ?thesis using 2(1) w(2) by (simp add: Let_def map_update)
  next
    case 3
    then have w: "worstAt h bs w" "w < length bs" using Cons.prems(4-6) by (auto simp: worstAt_def)
    note K = topK_skip[OF Cons.prems(2) w(1) 3(2) n(1)]
    have "\<exists>cs. ownsLoop h cap ns (map (slotOf h) bs) w = map (slotOf h) cs \<and>
        topK h (min cap (length ((ds @ [n]) @ ns))) (set ((ds @ [n]) @ ns)) (set cs)"
      using K w(1) 3(1) Cons.prems(3,4) by (intro Cons.IH[OF ds' _ _ _ Cons.prems(5)]) auto
    then show ?thesis using 3 w(2) by (simp add: Let_def worseSlot_better)
  qed
qed

section \<open>Properties\<close>

text \<open>C9. The allocation-free test \<open>ownsHash\<close> agrees with the sorting routine: a node passes it exactly
  when it is one of the owners that \<open>ownersFromKeyHash\<close> returns.\<close>

theorem ownsHash_is_owner:
  assumes "distinct (map ID (nodes r))" "0 \<le> rf r"
  shows "\<exists>os. ownersFromKeyHash r h = Some os \<and> (ownsHash r self h \<longleftrightarrow> self \<in> ID ` set os)"
proof (cases "nodes r = [] \<or> rf r \<le> 0")
  case True
  then have "ranked h (nodes r) = [] \<or> nat (rf r) = 0" by (auto simp: ranked_def)
  then show ?thesis using owners_take[OF assms, of h] True by (auto simp: ownsHash_def)
next
  case False
  define cap where "cap = (if rf r > int (length (nodes r)) then length (nodes r) else nat (rf r))"
  have c: "0 < cap" "min cap (length (nodes r)) = cap" "cap \<le> length (nodes r)" using False by (auto simp: cap_def)
  have t0: "topK h (length []) (set []) (set ([] :: nodeMeta list))" by (simp add: topK_def)
  obtain cs where cs: "ownsLoop h cap (nodes r) [] 0 = map (slotOf h) cs" "topK h cap (set (nodes r)) (set cs)"
    using ownsLoop_topK[OF _ t0 _ _ c(1), of "nodes r" 0] assms(1) c(2) by auto
  have "take (nat (rf r)) xs = take cap xs" if "length xs = length (nodes r)" for xs :: "nodeMeta list"
    using that assms(2) by (auto simp: cap_def)
  then have o: "ownersFromKeyHash r h = Some (take cap (ranked h (nodes r)))"
    using owners_take[OF assms, of h] ranked_sorted(3)[OF assms(1), of h] by simp
  have "set cs = set (take cap (ranked h (nodes r)))"
    by (rule topK_unique[OF cs(2) take_ranked_topK[OF assms(1) c(3)]]) simp
  moreover have "sn (slotOf h n) = n" for n by (simp add: slotOf_def split: prod.splits)
  ultimately show ?thesis using o cs(1) False
    by (auto simp: ownsHash_def cap_def[symmetric] list_ex_iff)
qed

theorem ownsHash_is_owner_witness:
  "\<exists>os. ownersFromKeyHash demoRing 5 = Some os \<and> (ownsHash demoRing ''b'' 5 \<longleftrightarrow> ''b'' \<in> ID ` set os)"
  by (rule ownsHash_is_owner) (simp_all add: demoRing_def newMeta_def)



end
