(* ===== verification/Key_Codec.thy ===== *)
theory Key_Codec
  imports Rendezvous
begin

text \<open>
  \<open>cluster/keycodec.go\<close>: how keys become bytes, and \<open>encoding/binary\<close>'s big-endian integers. Locale
  \<open>key_codec\<close> is what the node relies on; it is interpreted for the four codecs of the file. Signed
  integer keys are 64-bit words, their two's complement. The string hash of the third-party package
  is the parameter \<open>xx\<close>.
\<close>

unbundle bit_operations_syntax

section \<open>Big-endian integers\<close>

definition PutUint64 :: "u64 \<Rightarrow> bytes" where
  "PutUint64 x = map (\<lambda>s. ucast (drop_bit s x)) [56, 48, 40, 32, 24, 16, 8, 0]"

definition Uint64 :: "bytes \<Rightarrow> u64" where
  "Uint64 b = ucast (b ! 7) OR push_bit 8 (ucast (b ! 6)) OR push_bit 16 (ucast (b ! 5)) OR push_bit 24 (ucast (b ! 4)) OR
     push_bit 32 (ucast (b ! 3)) OR push_bit 40 (ucast (b ! 2)) OR push_bit 48 (ucast (b ! 1)) OR push_bit 56 (ucast (b ! 0))"

definition PutUint32 :: "u32 \<Rightarrow> bytes" where
  "PutUint32 x = map (\<lambda>s. ucast (drop_bit s x)) [24, 16, 8, 0]"

definition Uint32 :: "bytes \<Rightarrow> u32" where
  "Uint32 b = ucast (b ! 3) OR push_bit 8 (ucast (b ! 2)) OR push_bit 16 (ucast (b ! 1)) OR push_bit 24 (ucast (b ! 0))"

section \<open>Codecs\<close>

definition bytesOf :: "string \<Rightarrow> bytes" where
  "bytesOf s = map (\<lambda>c. word_of_nat (of_char c)) s"

definition stringOf :: "bytes \<Rightarrow> string" where
  "stringOf b = map (\<lambda>w. char_of (unat w)) b"

definition string_EncodeKey :: "string \<Rightarrow> bytes" where
  "string_EncodeKey k = bytesOf k"

definition string_DecodeKey :: "bytes \<Rightarrow> string + string" where
  "string_DecodeKey b = Inr (stringOf b)"

definition string_Hash64 :: "(bytes \<Rightarrow> u64) \<Rightarrow> string \<Rightarrow> u64" where
  "string_Hash64 xx k = xx (bytesOf k)"

definition bytes_EncodeKey :: "bytes \<Rightarrow> bytes" where
  "bytes_EncodeKey k = k"

definition bytes_DecodeKey :: "bytes \<Rightarrow> string + bytes" where
  "bytes_DecodeKey b = Inr b"

definition bytes_Hash64 :: "(bytes \<Rightarrow> u64) \<Rightarrow> bytes \<Rightarrow> u64" where
  "bytes_Hash64 xx k = xx k"

definition int64_EncodeKey :: "u64 \<Rightarrow> bytes" where
  "int64_EncodeKey k = PutUint64 k"

definition int64_DecodeKey :: "bytes \<Rightarrow> string + u64" where
  "int64_DecodeKey b = (if length b \<noteq> 8 then Inl ''invalid int64 key length'' else Inr (Uint64 b))"

definition int64_Hash64 :: "u64 \<Rightarrow> u64" where
  "int64_Hash64 k = mix64 k"

definition uint64_EncodeKey :: "u64 \<Rightarrow> bytes" where
  "uint64_EncodeKey k = PutUint64 k"

definition uint64_DecodeKey :: "bytes \<Rightarrow> string + u64" where
  "uint64_DecodeKey b = (if length b \<noteq> 8 then Inl ''invalid uint64 key length'' else Inr (Uint64 b))"

definition uint64_Hash64 :: "u64 \<Rightarrow> u64" where
  "uint64_Hash64 k = mix64 k"

section \<open>Lemmas\<close>

lemma PutUint64_nth:
  "PutUint64 x ! 0 = ucast (drop_bit 56 x)" "PutUint64 x ! 1 = ucast (drop_bit 48 x)"
  "PutUint64 x ! 2 = ucast (drop_bit 40 x)" "PutUint64 x ! 3 = ucast (drop_bit 32 x)"
  "PutUint64 x ! 4 = ucast (drop_bit 24 x)" "PutUint64 x ! 5 = ucast (drop_bit 16 x)"
  "PutUint64 x ! 6 = ucast (drop_bit 8 x)" "PutUint64 x ! 7 = ucast x" "length (PutUint64 x) = 8"
  unfolding PutUint64_def by (simp_all del: drop_bit_numeral_bit0 drop_bit_numeral_bit1)

lemma byte_bit:
  "bit (push_bit s (ucast (ucast (drop_bit s x) :: u8)) :: u64) n \<longleftrightarrow> s \<le> n \<and> n < s + 8 \<and> n < 64 \<and> bit (x :: u64) n"
  by (auto simp: bit_simps)

lemma Uint64_Put [simp]: "Uint64 (PutUint64 x) = x"
proof (rule bit_word_eqI)
  fix n assume n: "n < LENGTH(64)"
  have b0: "bit (ucast (ucast x :: u8) :: u64) n \<longleftrightarrow> n < 8 \<and> bit x n" by (auto simp: bit_simps)
  show "bit (Uint64 (PutUint64 x)) n = bit x n"
    unfolding Uint64_def PutUint64_nth bit_or_iff byte_bit b0 using n by auto
qed

lemma PutUint64_inj: "PutUint64 x = PutUint64 y \<longleftrightarrow> x = y"
  using Uint64_Put by metis

lemma PutUint32_nth:
  "PutUint32 x ! 0 = ucast (drop_bit 24 x)" "PutUint32 x ! 1 = ucast (drop_bit 16 x)"
  "PutUint32 x ! 2 = ucast (drop_bit 8 x)" "PutUint32 x ! 3 = ucast x" "length (PutUint32 x) = 4"
  unfolding PutUint32_def by (simp_all del: drop_bit_numeral_bit0 drop_bit_numeral_bit1)

lemma byte_bit32:
  "bit (push_bit s (ucast (ucast (drop_bit s x) :: u8)) :: u32) n \<longleftrightarrow> s \<le> n \<and> n < s + 8 \<and> n < 32 \<and> bit (x :: u32) n"
  by (auto simp: bit_simps)

lemma Uint32_Put [simp]: "Uint32 (PutUint32 x) = x"
proof (rule bit_word_eqI)
  fix n assume n: "n < LENGTH(32)"
  have b0: "bit (ucast (ucast x :: u8) :: u32) n \<longleftrightarrow> n < 8 \<and> bit x n" by (auto simp: bit_simps)
  show "bit (Uint32 (PutUint32 x)) n = bit x n"
    unfolding Uint32_def PutUint32_nth bit_or_iff byte_bit32 b0 using n by auto
qed

lemma stringOf_bytesOf [simp]: "stringOf (bytesOf s) = s"
  by (induction s) (simp_all add: stringOf_def bytesOf_def unsigned_of_nat take_bit_nat_eq_self)

lemma decode_fails: "isl (int64_DecodeKey c) \<longleftrightarrow> length c \<noteq> 8" "isl (uint64_DecodeKey c) \<longleftrightarrow> length c \<noteq> 8"
  by (simp_all add: int64_DecodeKey_def uint64_DecodeKey_def)

section \<open>The contract of a key codec\<close>

locale key_codec =
  fixes enc :: "'k \<Rightarrow> bytes" and dec :: "bytes \<Rightarrow> string + 'k"
  assumes dec_enc: "dec (enc k) = Inr k"
begin

lemma enc_inj: "enc k = enc k' \<longleftrightarrow> k = k'"
  using dec_enc by (metis Inr_inject)

end

interpretation string_codec: key_codec string_EncodeKey string_DecodeKey
  by unfold_locales (simp add: string_EncodeKey_def string_DecodeKey_def)

interpretation bytes_codec: key_codec bytes_EncodeKey bytes_DecodeKey
  by unfold_locales (simp add: bytes_EncodeKey_def bytes_DecodeKey_def)

interpretation int64_codec: key_codec int64_EncodeKey int64_DecodeKey
  by unfold_locales (simp add: int64_EncodeKey_def int64_DecodeKey_def PutUint64_nth)

interpretation uint64_codec: key_codec uint64_EncodeKey uint64_DecodeKey
  by unfold_locales (simp add: uint64_EncodeKey_def uint64_DecodeKey_def PutUint64_nth)

section \<open>Properties\<close>

text \<open>C36. Every codec decodes what it encoded, so no two keys share an encoding; the integer codecs
  reject every byte string that is not 8 bytes long.\<close>

theorem key_codecs_round_trip:
  "string_DecodeKey (string_EncodeKey s) = Inr s \<and> bytes_DecodeKey (bytes_EncodeKey b) = Inr b \<and>
   int64_DecodeKey (int64_EncodeKey k) = Inr k \<and> uint64_DecodeKey (uint64_EncodeKey k) = Inr k \<and>
   (string_EncodeKey s = string_EncodeKey s' \<longleftrightarrow> s = s') \<and> (int64_EncodeKey k = int64_EncodeKey k' \<longleftrightarrow> k = k') \<and>
   (isl (int64_DecodeKey c) \<longleftrightarrow> length c \<noteq> 8) \<and> (isl (uint64_DecodeKey c) \<longleftrightarrow> length c \<noteq> 8)"
  by (simp add: string_codec.dec_enc bytes_codec.dec_enc int64_codec.dec_enc uint64_codec.dec_enc
      string_codec.enc_inj int64_codec.enc_inj decode_fails)

end
