(* ===== verification/Lease.thy ===== *)
theory Lease
  imports Kioshun_Prelude
begin

text \<open>
  \<open>cluster/lease.go\<close>: per-key single flight. Leases are pointers that callers keep, so they live in a heap;
  the table maps a key to the address of its lease. Closing a closed channel panics in Go: \<open>None\<close> is
  that panic. The mutex makes \<open>acquire\<close>, \<open>release\<close> and one round of the sweeper atomic; \<open>wait\<close> looks the
  lease up and then blocks on its channel, so it is modelled by the lookup and by what it returns in
  a later state, if it returns there.
\<close>

type_synonym leaseKey = string

definition ErrLeaseTimeout :: string where "ErrLeaseTimeout = ''lease timeout''"

record inflight =
  chClosed :: bool
  ierr :: "string option"
  iexp :: int
  idone :: bool

record leaseTable =
  lm :: "(leaseKey, addr) gomap"
  lttl :: int
  lstop :: bool
  lheap :: "inflight heap"
  ltop :: addr

definition noLease :: inflight where
  "noLease = \<lparr>chClosed = False, ierr = None, iexp = 0, idone = False\<rparr>"

abbreviation lease :: "leaseTable \<Rightarrow> addr \<Rightarrow> inflight" where
  "lease t \<equiv> hget noLease (lheap t)"

definition newLeaseTable :: "int \<Rightarrow> leaseTable" where
  "newLeaseTable ttl = \<lparr>lm = [], lttl = ttl, lstop = False, lheap = [], ltop = 1\<rparr>"

definition acquire :: "int \<Rightarrow> leaseKey \<Rightarrow> leaseTable \<Rightarrow> (addr \<times> bool) \<times> leaseTable" where
  "acquire now k t =
     (case mget (lm t) k of
        Some f \<Rightarrow> ((f, False), t)
      | None \<Rightarrow>
          let f = noLease\<lparr>iexp := (if lttl t > 0 then i64 (now + lttl t) else 0)\<rparr>
          in ((ltop t, True), t\<lparr>lheap := mput (ltop t) f (lheap t), ltop := ltop t + 1, lm := mput k (ltop t) (lm t)\<rparr>))"

text \<open>\<open>f.err = err; f.done = true; close(f.ch)\<close>, skipped when the lease is done.\<close>

definition finish :: "string option \<Rightarrow> addr \<Rightarrow> leaseTable \<Rightarrow> leaseTable option" where
  "finish err f t =
     (if idone (lease t f) then Some t
      else if chClosed (lease t f) then None
      else Some (t\<lparr>lheap := mput f ((lease t f)\<lparr>ierr := err, idone := True, chClosed := True\<rparr>) (lheap t)\<rparr>))"

definition release :: "leaseKey \<Rightarrow> string option \<Rightarrow> leaseTable \<Rightarrow> leaseTable option" where
  "release k err t =
     (case mget (lm t) k of
        None \<Rightarrow> Some t
      | Some f \<Rightarrow> finish err f (t\<lparr>lm := mdel k (lm t)\<rparr>))"

text \<open>One tick of the sweeper; the entries are visited in the order of the map iteration.\<close>

fun sweepLoop :: "int \<Rightarrow> (leaseKey \<times> addr) list \<Rightarrow> leaseTable \<Rightarrow> leaseTable option" where
  "sweepLoop now [] t = Some t"
| "sweepLoop now ((k, f) # es) t =
     (if iexp (lease t f) > 0 \<and> now \<ge> iexp (lease t f)
      then (case finish (Some ErrLeaseTimeout) f (t\<lparr>lm := mdel k (lm t)\<rparr>) of
              None \<Rightarrow> None
            | Some t \<Rightarrow> sweepLoop now es t)
      else sweepLoop now es t)"

definition sweep :: "(leaseKey \<times> addr) iter \<Rightarrow> int \<Rightarrow> leaseTable \<Rightarrow> leaseTable option" where
  "sweep it now t = sweepLoop now (it (lm t)) t"

text \<open>\<open>wait\<close>: no lease means success; otherwise the context's error, the lease's, or blocked (\<open>None\<close>).\<close>

definition waitFor :: "leaseTable \<Rightarrow> leaseKey \<Rightarrow> addr option" where
  "waitFor t k = mget (lm t) k"

definition waitReturns :: "string option \<Rightarrow> addr option \<Rightarrow> leaseTable \<Rightarrow> string option option" where
  "waitReturns ctxErr f t =
     (case f of
        None \<Rightarrow> Some None
      | Some f \<Rightarrow>
          (case ctxErr of
             Some e \<Rightarrow> Some (Some e)
           | None \<Rightarrow> if chClosed (lease t f) then Some (ierr (lease t f)) else None))"

definition lease_Stop :: "leaseTable \<Rightarrow> leaseTable" where
  "lease_Stop t = (if lstop t then t else t\<lparr>lstop := True\<rparr>)"

text \<open>What the goroutines of a node do to its table, in any order.\<close>

inductive leaseStep :: "leaseTable \<Rightarrow> leaseTable \<Rightarrow> bool" where
  step_acquire: "acquire now k t = (r, t') \<Longrightarrow> leaseStep t t'"
| step_release: "release k err t = Some t' \<Longrightarrow> leaseStep t t'"
| step_sweep: "iter_ok it \<Longrightarrow> sweep it now t = Some t' \<Longrightarrow> leaseStep t t'"
| step_stop: "leaseStep t (lease_Stop t)"

text \<open>
  The invariant: addresses are allocated, no two keys share a lease, a lease in the table is open, and
  a lease that has left the table is finished.
\<close>

definition lease_inv :: "leaseTable \<Rightarrow> bool" where
  "lease_inv t \<longleftrightarrow>
     wf_map (lm t) \<and> inj_on (mget (lm t)) (dom (mget (lm t))) \<and> 0 < ltop t \<and> ran (mget (lm t)) \<subseteq> {0<..<ltop t} \<and>
     (\<forall>f\<in>{0<..<ltop t}. chClosed (lease t f) = idone (lease t f) \<and> (idone (lease t f) \<longleftrightarrow> f \<notin> ran (mget (lm t))))"

section \<open>Lemmas\<close>

inductive_cases leaseStepE: "leaseStep t t'"

lemma lease_new: "lease_inv (newLeaseTable ttl)"
  by (simp add: lease_inv_def newLeaseTable_def)

lemma inj_upd_new: "inj_on m (dom m) \<Longrightarrow> v \<notin> ran m \<Longrightarrow> inj_on (m(k \<mapsto> v)) (dom (m(k \<mapsto> v)))"
  by (auto simp: inj_on_def dom_def ran_def)

lemma inj_del: "inj_on m (dom m) \<Longrightarrow> inj_on (m(k := None)) (dom (m(k := None)))"
  by (auto simp: inj_on_def dom_def)

lemma ran_del:
  assumes "inj_on m (dom m)" "m k = Some v"
  shows "ran (m(k := None)) = ran m - {v}"
proof
  show "ran (m(k := None)) \<subseteq> ran m - {v}" using assms by (auto simp: inj_on_def dom_def ran_def)
  show "ran m - {v} \<subseteq> ran (m(k := None))"
  proof
    fix x assume "x \<in> ran m - {v}"
    then obtain a where "m a = Some x" "x \<noteq> v" by (auto simp: ran_def)
    then have "(m(k := None)) a = Some x" using assms(2) by auto
    then show "x \<in> ran (m(k := None))" by (rule ranI)
  qed
qed

lemma acquire_inv:
  assumes i: "lease_inv t" and a: "acquire now k t = ((f, new), t')"
  shows "lease_inv t'" "new \<longleftrightarrow> mget (lm t) k = None" "mget (lm t') k = Some f" "\<not> idone (lease t' f)"
proof -
  have "lease_inv t' \<and> (new \<longleftrightarrow> mget (lm t) k = None) \<and> mget (lm t') k = Some f \<and> \<not> idone (lease t' f)"
  proof (cases "mget (lm t) k")
    case None
    let ?f = "noLease\<lparr>iexp := (if lttl t > 0 then i64 (now + lttl t) else 0)\<rparr>"
    have e: "f = ltop t" "new" "t' = t\<lparr>lheap := mput (ltop t) ?f (lheap t), ltop := ltop t + 1, lm := mput k (ltop t) (lm t)\<rparr>"
      using a None by (auto simp: acquire_def Let_def)
    have n: "ltop t \<notin> ran (mget (lm t))" using i by (auto simp: lease_inv_def)
    have l: "lease t' g = (if g = ltop t then ?f else lease t g)" for g by (simp add: e)
    have "\<not> idone ?f" "\<not> chClosed ?f" by (simp_all add: noLease_def)
    moreover have "mget (lm t') = (mget (lm t))(k \<mapsto> ltop t)" "ltop t' = Suc (ltop t)" "wf_map (lm t')"
      using i by (simp_all add: e map_simps lease_inv_def)
    moreover have "ran ((mget (lm t))(k \<mapsto> ltop t)) = insert (ltop t) (ran (mget (lm t)))" using None by (rule ran_map_upd)
    moreover have "inj_on ((mget (lm t))(k \<mapsto> ltop t)) (dom ((mget (lm t))(k \<mapsto> ltop t)))"
      using inj_upd_new[OF _ n] i by (simp add: lease_inv_def)
    moreover have "((mget (lm t))(k \<mapsto> ltop t)) k = Some (ltop t)" by simp
    ultimately show ?thesis using i None n e(1,2) unfolding lease_inv_def l
      by (simp add: less_Suc_eq del: fun_upd_apply dom_fun_upd) (auto simp: less_Suc_eq)
  next
    case (Some g)
    then have e: "f = g" "\<not> new" "t' = t" using a by (auto simp: acquire_def)
    have "g \<in> ran (mget (lm t))" using Some by (rule ranI)
    then show ?thesis using i Some e(2) unfolding e(1,3) lease_inv_def by auto
  qed
  then show "lease_inv t'" "new \<longleftrightarrow> mget (lm t) k = None" "mget (lm t') k = Some f" "\<not> idone (lease t' f)" by blast+
qed

lemma finish_inv:
  assumes i: "lease_inv t" and m: "mget (lm t) k = Some f"
  shows "\<exists>t'. finish err f (t\<lparr>lm := mdel k (lm t)\<rparr>) = Some t' \<and> lease_inv t' \<and> lm t' = mdel k (lm t) \<and>
    chClosed (lease t' f) \<and> ierr (lease t' f) = err \<and> (\<forall>g. g \<noteq> f \<longrightarrow> lease t' g = lease t g)"
proof -
  have "f \<in> ran (mget (lm t))" using m by (rule ranI)
  then have o: "\<not> idone (lease t f)" "\<not> chClosed (lease t f)" "f \<in> {0<..<ltop t}" using i by (auto simp: lease_inv_def)
  let ?t' = "t\<lparr>lm := mdel k (lm t), lheap := mput f ((lease t f)\<lparr>ierr := err, idone := True, chClosed := True\<rparr>) (lheap t)\<rparr>"
  have r: "ran (mget (lm ?t')) = ran (mget (lm t)) - {f}" using ran_del[of "mget (lm t)" k f] m i by (simp add: lease_inv_def map_simps)
  have "wf_map (lm ?t')" "inj_on (mget (lm ?t')) (dom (mget (lm ?t')))" using i inj_del[of "mget (lm t)" k] by (simp_all add: lease_inv_def map_simps)
  then have "lease_inv ?t'" using i o(3) unfolding lease_inv_def r by auto
  then show ?thesis using o by (simp add: finish_def)
qed

lemma release_inv:
  assumes "lease_inv t"
  shows "\<exists>t'. release k err t = Some t' \<and> lease_inv t' \<and> mget (lm t') k = None \<and>
    (\<forall>f. mget (lm t) k = Some f \<longrightarrow> chClosed (lease t' f) \<and> ierr (lease t' f) = err)"
proof (cases "mget (lm t) k")
  case (Some f)
  from finish_inv[OF assms this, of err] show ?thesis using Some by (auto simp: release_def map_simps)
qed (simp add: release_def assms)

lemma sweepLoop_inv:
  assumes "lease_inv t" "distinct (map fst es)" "\<And>k f. (k, f) \<in> set es \<Longrightarrow> mget (lm t) k = Some f"
  shows "\<exists>t'. sweepLoop now es t = Some t' \<and> lease_inv t' \<and>
    (\<forall>k f. (k, f) \<in> set es \<longrightarrow> iexp (lease t f) > 0 \<longrightarrow> now \<ge> iexp (lease t f) \<longrightarrow>
       mget (lm t') k = None \<and> chClosed (lease t' f) \<and> ierr (lease t' f) = Some ErrLeaseTimeout) \<and>
    (\<forall>f. f \<notin> snd ` set es \<longrightarrow> lease t' f = lease t f) \<and> (\<forall>k. mget (lm t) k = None \<longrightarrow> mget (lm t') k = None)"
  using assms
proof (induction es arbitrary: t)
  case (Cons e es)
  obtain k f where e: "e = (k, f)" by fastforce
  have kf: "mget (lm t) k = Some f" using Cons.prems(3) e by simp
  have inj: "g \<noteq> f" if "(j, g) \<in> set es" for j g
  proof
    assume "g = f"
    then have "mget (lm t) j = mget (lm t) k" using Cons.prems(3)[of j g] that kf by simp
    then have "j = k" using Cons.prems(1) kf unfolding lease_inv_def inj_on_def by (metis domI)
    then show False using that Cons.prems(2) e by force
  qed
  show ?case
  proof (cases "iexp (lease t f) > 0 \<and> now \<ge> iexp (lease t f)")
    case True
    obtain t1 where F: "finish (Some ErrLeaseTimeout) f (t\<lparr>lm := mdel k (lm t)\<rparr>) = Some t1" "lease_inv t1" "lm t1 = mdel k (lm t)"
      "chClosed (lease t1 f)" "ierr (lease t1 f) = Some ErrLeaseTimeout" "\<forall>g. g \<noteq> f \<longrightarrow> lease t1 g = lease t g"
      using finish_inv[OF Cons.prems(1) kf] by blast
    have "mget (lm t1) j = Some g" if "(j, g) \<in> set es" for j g
    proof -
      have "j \<noteq> k" using that Cons.prems(2) e by force
      then show ?thesis using Cons.prems(3)[of j g] that by (simp add: F(3) map_simps)
    qed
    then obtain t2 where S: "sweepLoop now es t1 = Some t2" "lease_inv t2"
      "\<forall>j g. (j, g) \<in> set es \<longrightarrow> iexp (lease t1 g) > 0 \<longrightarrow> now \<ge> iexp (lease t1 g) \<longrightarrow>
         mget (lm t2) j = None \<and> chClosed (lease t2 g) \<and> ierr (lease t2 g) = Some ErrLeaseTimeout"
      "\<forall>g. g \<notin> snd ` set es \<longrightarrow> lease t2 g = lease t1 g" "\<forall>j. mget (lm t1) j = None \<longrightarrow> mget (lm t2) j = None"
      using Cons.IH[OF F(2)] Cons.prems(2) by auto
    have nf: "f \<notin> snd ` set es" using inj by force
    have "mget (lm t2) k = None" using S(5) F(3) by (simp add: map_simps)
    moreover have "chClosed (lease t2 f)" "ierr (lease t2 f) = Some ErrLeaseTimeout" using S(4) nf F(4,5) by simp_all
    moreover have "lease t1 g = lease t g" if "(j, g) \<in> set es" for j g using inj[OF that] F(6) by simp
    ultimately show ?thesis using S F e True nf by (simp add: map_simps)
  next
    case False
    then show ?thesis using Cons.IH[OF Cons.prems(1)] Cons.prems(2,3) e by (auto simp: image_iff)
  qed
qed simp

lemma sweepLoop_top: "sweepLoop now es t = Some t' \<Longrightarrow> ltop t' = ltop t"
  by (induction now es t rule: sweepLoop.induct) (auto simp: finish_def split: if_splits option.splits)

lemma sweep_inv:
  assumes i: "lease_inv t" and it: "iter_ok it"
  shows "\<exists>t'. sweep it now t = Some t' \<and> lease_inv t' \<and>
    (\<forall>k f. mget (lm t) k = Some f \<longrightarrow> iexp (lease t f) > 0 \<longrightarrow> now \<ge> iexp (lease t f) \<longrightarrow>
       mget (lm t') k = None \<and> chClosed (lease t' f) \<and> ierr (lease t' f) = Some ErrLeaseTimeout)"
proof -
  have m: "mset (it (lm t)) = mset (lm t)" by (rule iter_ok_mset[OF it])
  have wf: "wf_map (lm t)" using i by (simp add: lease_inv_def)
  have s: "set (it (lm t)) = set (lm t)" using m by (metis set_mset_mset)
  have "mset (map fst (it (lm t))) = mset (map fst (lm t))" using m by simp
  then have d: "distinct (map fst (it (lm t)))" using wf by (metis mset_eq_imp_distinct_iff)
  have g: "mget (lm t) k = Some f \<longleftrightarrow> (k, f) \<in> set (it (lm t))" for k f using wf s by simp
  show ?thesis using sweepLoop_inv[OF i d, of now] g unfolding sweep_def by blast
qed

lemma leaseStep_inv: "leaseStep t t' \<Longrightarrow> lease_inv t \<Longrightarrow> lease_inv t'"
proof (induction rule: leaseStep.induct)
  case (step_acquire now k t r t')
  then show ?case using acquire_inv(1)[of t now k "fst r" "snd r" t'] by simp
next
  case (step_release k err t t')
  then show ?case using release_inv[of t k err] by auto
next
  case (step_sweep it now t t')
  then show ?case using sweep_inv[of t it now] by auto
next
  case (step_stop t)
  then show ?case by (simp add: lease_Stop_def lease_inv_def)
qed

lemma leases_inv: "leaseStep\<^sup>*\<^sup>* t t' \<Longrightarrow> lease_inv t \<Longrightarrow> lease_inv t'"
  by (induction rule: rtranclp_induct) (auto intro: leaseStep_inv)

section \<open>Properties\<close>



text \<open>C37. A lease is released by key, not by holder: when the sweeper has timed a lease out and another
  caller has acquired the key again, the late release of the first holder ends the second lease,
  whose waiters get the first holder's result while its holder is still loading.\<close>

theorem late_release_ends_other_lease:
  assumes "leaseStep\<^sup>*\<^sup>* (newLeaseTable ttl) t" "iter_ok it" "acquire now k t = ((f, True), t1)"
    "0 < iexp (lease t1 f)" "iexp (lease t1 f) \<le> now'" "sweep it now' t1 = Some t2"
  shows "\<exists>g t3 t4. acquire now'' k t2 = ((g, True), t3) \<and> g \<noteq> f \<and> release k err t3 = Some t4 \<and>
    waitReturns None (Some g) t4 = Some err \<and> waitFor t4 k = None"
proof -
  have i: "lease_inv t" by (rule leases_inv[OF assms(1) lease_new])
  note A = acquire_inv[OF i assms(3)]
  have S: "lease_inv t2" "mget (lm t2) k = None" "chClosed (lease t2 f)"
    using sweep_inv[OF A(1) assms(2), of now'] A(3) assms(4-6) by auto
  obtain g new t3 where b: "acquire now'' k t2 = ((g, new), t3)" by (metis prod.collapse)
  note B = acquire_inv[OF S(1) b]
  obtain t4 where r: "release k err t3 = Some t4" "mget (lm t4) k = None" "chClosed (lease t4 g)" "ierr (lease t4 g) = err"
    using release_inv[OF B(1), of k err] B(3) by blast
  have "g = ltop t2" using b S(2) by (simp add: acquire_def Let_def)
  moreover have "f \<in> ran (mget (lm t1))" using A(3) by (rule ranI)
  then have "f < ltop t2" using A(1) sweepLoop_top assms(6) by (auto simp: lease_inv_def sweep_def)
  ultimately show ?thesis using b B(2) S(2) r by (auto simp: waitReturns_def waitFor_def)
qed

theorem late_release_ends_other_lease_witness:
  "\<exists>g t3 t4. acquire 8 ''k'' (the (sweep (\<lambda>xs. xs) 7 (snd (acquire 1 ''k'' (newLeaseTable 5))))) = ((g, True), t3) \<and>
    g \<noteq> 1 \<and> release ''k'' None t3 = Some t4 \<and> waitReturns None (Some g) t4 = Some None"
proof -
  obtain t1 where a: "acquire 1 ''k'' (newLeaseTable 5) = ((1, True), t1)" by (simp add: acquire_def newLeaseTable_def)
  have t1: "t1 = snd (acquire 1 ''k'' (newLeaseTable 5))" using a by simp
  have e: "iexp (lease (snd (acquire 1 ''k'' (newLeaseTable 5))) 1) = 6" by code_simp
  have i: "lease_inv t1" by (rule acquire_inv(1)[OF lease_new a])
  obtain t2 where s: "sweep (\<lambda>xs. xs) 7 t1 = Some t2" using sweep_inv[OF i iter_ok_id] by blast
  have "0 < iexp (lease t1 1)" "iexp (lease t1 1) \<le> 7" using e t1 by simp_all
  from late_release_ends_other_lease[OF rtranclp.rtrancl_refl iter_ok_id a this s, of 8 None] show ?thesis
    using s t1 by auto
qed

end
