(* ===== verification/Limiter.thy ===== *)
theory Limiter
  imports Kioshun_Prelude
begin

text \<open>
  \<open>cluster/limiter.go\<close>: a token bucket refilled at fixed intervals. The refill goroutine is its tick; the
  mutex makes a tick and a call of \<open>Allow\<close> atomic. \<open>None\<close> is the panic of stopping twice, which closes a
  closed channel.
\<close>

record rateLimiter =
  rmax :: int
  tokens :: int
  interval :: int
  rstop :: bool

definition newRateLimiter :: "int \<Rightarrow> int \<Rightarrow> rateLimiter" where
  "newRateLimiter n iv = \<lparr>rmax = n, tokens = n, interval = iv, rstop = False\<rparr>"

definition refill :: "rateLimiter \<Rightarrow> rateLimiter" where
  "refill r = (if rstop r then r else r\<lparr>tokens := rmax r\<rparr>)"

definition Allow :: "rateLimiter \<Rightarrow> bool \<times> rateLimiter" where
  "Allow r = (if tokens r \<le> 0 then (False, r) else (True, r\<lparr>tokens := tokens r - 1\<rparr>))"

definition limiter_Stop :: "rateLimiter \<Rightarrow> rateLimiter option" where
  "limiter_Stop r = (if rstop r then None else Some (r\<lparr>rstop := True\<rparr>))"

text \<open>A history of ticks and calls, and the answers the calls got.\<close>

datatype limiterEvent = Tick | Call

fun limiterRun :: "limiterEvent list \<Rightarrow> rateLimiter \<Rightarrow> bool list \<times> rateLimiter" where
  "limiterRun [] r = ([], r)"
| "limiterRun (Tick # es) r = limiterRun es (refill r)"
| "limiterRun (Call # es) r =
     (let (ok, r) = Allow r; (oks, r) = limiterRun es r in (ok # oks, r))"

abbreviation granted :: "bool list \<Rightarrow> nat" where
  "granted oks \<equiv> length (filter (\<lambda>b. b) oks)"

section \<open>Lemmas\<close>

lemma limiterRun_Call:
  "limiterRun (Call # es) r = (fst (Allow r) # fst (limiterRun es (snd (Allow r))), snd (limiterRun es (snd (Allow r))))"
  by (simp split: prod.splits)

lemma limiterRun_stop: "rstop (snd (limiterRun es r)) = rstop r"
proof (induction es arbitrary: r)
  case (Cons e es)
  have "rstop (snd (Allow r)) = rstop r" by (simp add: Allow_def)
  then show ?case using Cons.IH by (cases e) (simp_all add: limiterRun_Call refill_def del: limiterRun.simps(3))
qed simp

lemma limiterRun_bounds:
  assumes "0 \<le> tokens r" "tokens r \<le> rmax r" "limiterRun es r = (oks, r')"
  shows "0 \<le> tokens r' \<and> tokens r' \<le> rmax r' \<and> rmax r' = rmax r \<and>
    int (granted oks) + tokens r' \<le> tokens r + rmax r * int (count_list es Tick)"
  using assms
proof (induction es r arbitrary: oks r' rule: limiterRun.induct)
  case (2 es r)
  have t: "0 \<le> tokens (refill r)" "tokens (refill r) \<le> rmax (refill r)" "rmax (refill r) = rmax r"
    "tokens (refill r) \<le> rmax r + tokens r" using 2(2,3) by (simp_all add: refill_def)
  have "limiterRun es (refill r) = (oks, r')" using 2(4) by simp
  then show ?case using 2(1)[OF t(1,2)] t by (simp add: algebra_simps)
next
  case (3 es r)
  obtain ok r1 where a: "Allow r = (ok, r1)" by fastforce
  obtain oks1 where r: "limiterRun es r1 = (oks1, r')" "oks = ok # oks1" using 3(4) a by (auto split: prod.splits)
  have t: "0 \<le> tokens r1" "tokens r1 \<le> rmax r1" "rmax r1 = rmax r" "(if ok then 1 else 0) + tokens r1 = tokens r"
    using a 3(2,3) by (auto simp: Allow_def split: if_splits)
  then show ?case using 3(1)[OF a[symmetric] refl t(1,2) r(1)] r(2) by (auto split: if_splits)
qed simp

text \<open>While no tick intervenes, the calls are granted as long as there are tokens.\<close>

lemma limiterRun_calls:
  assumes "0 \<le> tokens r"
  shows "fst (limiterRun (replicate n Call) r) = replicate (min n (nat (tokens r))) True @ replicate (n - nat (tokens r)) False"
  using assms
proof (induction n arbitrary: r)
  case (Suc n)
  show ?case
  proof (cases "tokens r = 0")
    case True
    then have "Allow r = (False, r)" by (simp add: Allow_def)
    then show ?thesis using Suc.IH[of r] True by (simp add: limiterRun_Call del: limiterRun.simps)
  next
    case False
    then have a: "Allow r = (True, r\<lparr>tokens := tokens r - 1\<rparr>)" and n: "nat (tokens r) = Suc (nat (tokens r - 1))"
      using Suc.prems by (simp_all add: Allow_def)
    show ?thesis using Suc.IH[of "r\<lparr>tokens := tokens r - 1\<rparr>"] Suc.prems False a n by (simp add: limiterRun_Call del: limiterRun.simps)
  qed
qed simp

section \<open>Properties\<close>

text \<open>Over any history with \<open>n\<close> ticks of the refill goroutine a limiter grants at most \<open>max\<close> calls per
  window, that is \<open>max * (n + 1)\<close> in all; and within a window it refuses no call before it has granted
  \<open>max\<close> of them.\<close>

theorem limiter_bound:
  assumes "0 \<le> n"
  shows "int (granted (fst (limiterRun es (newRateLimiter n iv)))) \<le> n * (int (count_list es Tick) + 1) \<and>
    fst (limiterRun (replicate k Call) (refill (snd (limiterRun es (newRateLimiter n iv))))) =
      replicate (min k (nat n)) True @ replicate (k - nat n) False"
proof -
  obtain oks r where r: "limiterRun es (newRateLimiter n iv) = (oks, r)" by fastforce
  have i: "0 \<le> tokens (newRateLimiter n iv)" "tokens (newRateLimiter n iv) \<le> rmax (newRateLimiter n iv)"
    using assms by (simp_all add: newRateLimiter_def)
  note B = limiterRun_bounds[OF i r]
  have "rstop r = rstop (newRateLimiter n iv)" using limiterRun_stop[of es "newRateLimiter n iv"] r by simp
  then have f: "tokens (refill r) = n" "rmax r = n" using B by (simp_all add: refill_def newRateLimiter_def)
  show ?thesis using B limiterRun_calls[of "refill r" k] f assms r by (simp add: newRateLimiter_def algebra_simps)
qed

theorem limiter_bound_witness:
  "fst (limiterRun (replicate 3 Call) (refill (snd (limiterRun [Call, Tick, Call] (newRateLimiter 2 7))))) = [True, True, False]"
  using limiter_bound[of 2 "[Call, Tick, Call]" 7 3] by (simp add: numeral_2_eq_2 numeral_3_eq_3)

end
