(* ===== verification/Heat.thy ===== *)
theory Heat
  imports Kioshun_Prelude
begin

text \<open>
  \<open>cluster/heat.go\<close>: detection of hot keys. A Space-Saving structure keeps a bounded set of keys with
  counters in a binary min-heap, with an index from keys to heap positions; a Count-Min sketch is
  updated alongside. Entries of the heap are owned by it, so exchanging two pointers is exchanging two
  records. The seeded hash of \<open>hash/maphash\<close> is the parameter \<open>mh\<close>. The mutex makes \<open>add\<close> and \<open>export\<close>
  atomic.
\<close>

section \<open>Count-Min sketch\<close>

record 'seed cmSketch =
  rows :: "u32 list list"
  seeds :: "'seed list"
  width :: int

definition newCMS :: "'seed list \<Rightarrow> int \<Rightarrow> int \<Rightarrow> 'seed cmSketch" where
  "newCMS sds r w = \<lparr>rows = replicate (nat r) (replicate (nat w) 0), seeds = take (nat r) sds, width = w\<rparr>"

definition cms_add :: "('seed \<Rightarrow> bytes \<Rightarrow> u64) \<Rightarrow> bytes \<Rightarrow> u32 \<Rightarrow> 'seed cmSketch \<Rightarrow> 'seed cmSketch" where
  "cms_add mh k n c =
     c\<lparr>rows := map (\<lambda>(row, sd). let i = nat (uint (mh sd k) mod width c) in row[i := row ! i + n]) (zip (rows c) (seeds c))\<rparr>"

section \<open>Space-Saving\<close>

record ssEntry =
  eK :: bytes
  eC :: u64

record spaceSaving =
  scap :: int
  sh :: "ssEntry list"
  sidx :: "(bytes, nat) gomap"

definition newSpaceSaving :: "int \<Rightarrow> spaceSaving" where
  "newSpaceSaving k = \<lparr>scap = (if k < 1 then 1 else k), sh = [], sidx = []\<rparr>"

definition addSat64 :: "u64 \<Rightarrow> u64 \<Rightarrow> u64" where
  "addSat64 a b = (let c = a + b in if c < a then - 1 else c)"

definition ss_swap :: "nat \<Rightarrow> nat \<Rightarrow> spaceSaving \<Rightarrow> spaceSaving" where
  "ss_swap i j s =
     (let h = (sh s)[i := sh s ! j, j := sh s ! i]
      in s\<lparr>sh := h, sidx := mput (eK (h ! j)) j (mput (eK (h ! i)) i (sidx s))\<rparr>)"

abbreviation cnt :: "spaceSaving \<Rightarrow> nat \<Rightarrow> u64" where
  "cnt s i \<equiv> eC (sh s ! i)"

fun siftUp :: "nat \<Rightarrow> spaceSaving \<Rightarrow> spaceSaving" where
  "siftUp i s =
     (if i = 0 then s
      else let p = (i - 1) div 2
           in if cnt s p \<le> cnt s i then s else siftUp p (ss_swap i p s))"

lemma ss_swap_length [simp]: "length (sh (ss_swap i j s)) = length (sh s)"
  by (simp add: ss_swap_def Let_def)

function siftDown :: "nat \<Rightarrow> spaceSaving \<Rightarrow> spaceSaving" where
  "siftDown i s =
     (let n = length (sh s); l = 2 * i + 1
      in if l \<ge> n then s
         else let r = l + 1;
                  small = (if r < n \<and> cnt s r < cnt s l then r else l)
              in if cnt s i \<le> cnt s small then s else siftDown small (ss_swap i small s))"
  by pat_completeness auto
termination
  by (relation "measure (\<lambda>(i, s). length (sh s) - i)") (auto simp: Let_def split: if_splits)

definition ss_add :: "bytes \<Rightarrow> u64 \<Rightarrow> spaceSaving \<Rightarrow> spaceSaving" where
  "ss_add k inc s =
     (case mget (sidx s) k of
        Some i \<Rightarrow> siftDown i (s\<lparr>sh := (sh s)[i := (sh s ! i)\<lparr>eC := addSat64 (cnt s i) inc\<rparr>]\<rparr>)
      | None \<Rightarrow>
          if int (length (sh s)) < scap s
          then let i = length (sh s)
               in siftUp i (s\<lparr>sh := sh s @ [\<lparr>eK = k, eC = inc\<rparr>], sidx := mput k i (sidx s)\<rparr>)
          else let minNode = sh s ! 0
               in siftDown 0 (s\<lparr>sh := (sh s)[0 := \<lparr>eK = k, eC = addSat64 (eC minNode) inc\<rparr>],
                                sidx := mput k 0 (mdel (eK minNode) (sidx s))\<rparr>))"

record HotKey =
  hkK :: bytes
  hkC :: u64

definition ss_export :: "spaceSaving \<Rightarrow> HotKey list" where
  "ss_export s = map (\<lambda>e. \<lparr>hkK = eK e, hkC = eC e\<rparr>) (sh s)"

section \<open>Sampling\<close>

record 'seed heat =
  cms :: "'seed cmSketch"
  ss :: spaceSaving
  sampleN :: u32
  ctr :: u32

definition newHeat :: "'seed list \<Rightarrow> int \<Rightarrow> int \<Rightarrow> int \<Rightarrow> int \<Rightarrow> 'seed heat" where
  "newHeat sds r w k n = \<lparr>cms = newCMS sds r w, ss = newSpaceSaving k, sampleN = word_of_int n, ctr = 0\<rparr>"

definition sample :: "('seed \<Rightarrow> bytes \<Rightarrow> u64) \<Rightarrow> bytes \<Rightarrow> 'seed heat \<Rightarrow> 'seed heat" where
  "sample mh k h =
     (if sampleN h \<le> 1 then h\<lparr>cms := cms_add mh k 1 (cms h), ss := ss_add k 1 (ss h)\<rparr>
      else let h = h\<lparr>ctr := ctr h + 1\<rparr>
           in if ctr h mod sampleN h = 0 then h\<lparr>cms := cms_add mh k 1 (cms h), ss := ss_add k 1 (ss h)\<rparr> else h)"

definition exportTopK :: "'seed heat \<Rightarrow> HotKey list" where
  "exportTopK h = ss_export (ss h)"

text \<open>
  The invariant: the index is exact, the heap is ordered and within its capacity. \<open>sview\<close> is the counter
  of each key the structure holds.
\<close>

definition idx_ok :: "spaceSaving \<Rightarrow> bool" where
  "idx_ok s \<longleftrightarrow> (\<forall>k i. mget (sidx s) k = Some i \<longleftrightarrow> i < length (sh s) \<and> eK (sh s ! i) = k)"

definition heap_ok :: "spaceSaving \<Rightarrow> bool" where
  "heap_ok s \<longleftrightarrow> (\<forall>j<length (sh s). 0 < j \<longrightarrow> cnt s ((j - 1) div 2) \<le> cnt s j)"

definition ss_ok :: "spaceSaving \<Rightarrow> bool" where
  "ss_ok s \<longleftrightarrow> 1 \<le> scap s \<and> int (length (sh s)) \<le> scap s \<and> idx_ok s \<and> heap_ok s"

definition sview :: "spaceSaving \<Rightarrow> bytes \<Rightarrow> nat option" where
  "sview s k = map_option (\<lambda>i. unat (cnt s i)) (mget (sidx s) k)"

definition ss_run :: "bytes list \<Rightarrow> spaceSaving \<Rightarrow> spaceSaving" where
  "ss_run ks s = fold (\<lambda>k. ss_add k 1) ks s"

definition heap_up :: "nat \<Rightarrow> spaceSaving \<Rightarrow> bool" where
  "heap_up i s \<longleftrightarrow> (\<forall>j<length (sh s). 0 < j \<and> j \<noteq> i \<longrightarrow> cnt s ((j - 1) div 2) \<le> cnt s j) \<and>
     (\<forall>j<length (sh s). 0 < j \<and> (j - 1) div 2 = i \<and> 0 < i \<longrightarrow> cnt s ((i - 1) div 2) \<le> cnt s j)"

definition heap_down :: "nat \<Rightarrow> spaceSaving \<Rightarrow> bool" where
  "heap_down i s \<longleftrightarrow> (\<forall>j<length (sh s). 0 < j \<and> (j - 1) div 2 \<noteq> i \<longrightarrow> cnt s ((j - 1) div 2) \<le> cnt s j) \<and>
     (\<forall>j<length (sh s). 0 < j \<and> (j - 1) div 2 = i \<and> 0 < i \<longrightarrow> cnt s ((i - 1) div 2) \<le> cnt s j)"

definition total :: "('k \<Rightarrow> nat option) \<Rightarrow> nat" where
  "total m = (\<Sum>k\<in>dom m. the (m k))"

definition ss_bound :: "bytes list \<Rightarrow> spaceSaving \<Rightarrow> bool" where
  "ss_bound ks s \<longleftrightarrow> ss_ok s \<and> total (sview s) = length ks \<and>
     (\<forall>k c. sview s k = Some c \<longrightarrow> count_list ks k \<le> c) \<and>
     (\<forall>k. sview s k = None \<longrightarrow> (if int (length (sh s)) < scap s then count_list ks k = 0 else count_list ks k \<le> unat (cnt s 0)))"

section \<open>Lemmas\<close>

subsection \<open>The heap\<close>

declare siftUp.simps [simp del] siftDown.simps [simp del]

lemma idx_inj: "idx_ok s \<Longrightarrow> i < length (sh s) \<Longrightarrow> j < length (sh s) \<Longrightarrow> eK (sh s ! i) = eK (sh s ! j) \<Longrightarrow> i = j"
  unfolding idx_ok_def by (metis option.inject)

lemma sview_idx: "idx_ok s \<Longrightarrow> sview s k = Some c \<longleftrightarrow> (\<exists>i<length (sh s). eK (sh s ! i) = k \<and> c = unat (cnt s i))"
  unfolding idx_ok_def sview_def by auto

text \<open>Exchanging two entries keeps the index exact and the counters of all keys.\<close>

lemma swap_idx:
  assumes s: "idx_ok s" and ij: "i < length (sh s)" "j < length (sh s)" "i \<noteq> j"
  shows "idx_ok (ss_swap i j s)" "sview (ss_swap i j s) = sview s" "scap (ss_swap i j s) = scap s"
    "sh (ss_swap i j s) ! x = (if x = j then sh s ! i else if x = i then sh s ! j else sh s ! x)"
proof -
  let ?h = "(sh s)[i := sh s ! j, j := sh s ! i]" let ?s = "ss_swap i j s"
  have sh: "sh ?s = ?h" and ix: "sidx ?s = mput (eK (?h ! j)) j (mput (eK (?h ! i)) i (sidx s))"
    by (simp_all add: ss_swap_def Let_def)
  have nth: "?h ! x = (if x = j then sh s ! i else if x = i then sh s ! j else sh s ! x)" for x
    using ij by (auto simp: nth_list_update)
  show "sh ?s ! x = (if x = j then sh s ! i else if x = i then sh s ! j else sh s ! x)" by (simp add: sh nth)
  have ne: "eK (sh s ! i) \<noteq> eK (sh s ! j)" using idx_inj[OF s ij(1,2)] ij(3) by blast
  have m: "mget (sidx ?s) k = (if k = eK (sh s ! i) then Some j else if k = eK (sh s ! j) then Some i else mget (sidx s) k)" for k
    using ij(3) unfolding ix nth by (auto simp: map_simps)
  have own: "mget (sidx s) k = Some x \<longleftrightarrow> x < length (sh s) \<and> eK (sh s ! x) = k" for k x using s by (simp add: idx_ok_def)
  show ok: "idx_ok ?s" unfolding idx_ok_def
  proof (intro allI)
    fix k x
    show "mget (sidx ?s) k = Some x \<longleftrightarrow> x < length (sh ?s) \<and> eK (sh ?s ! x) = k"
      using ij ne own[of k x] idx_inj[OF s, of x i] idx_inj[OF s, of x j] unfolding m sh nth by auto
  qed
  show "sview ?s = sview s"
  proof
    fix k
    show "sview ?s k = sview s k"
      using own[of k i] own[of k j] ij ne unfolding sview_def m sh nth by (cases "mget (sidx s) k") auto
  qed
  show "scap ?s = scap s" by (simp add: ss_swap_def Let_def)
qed

text \<open>Heaps with one place out of order: below its parent, or above its children.\<close>

lemma parent_less: "0 < (i::nat) \<Longrightarrow> (i - 1) div 2 < i"
  by linarith

lemma child_of: "0 < (j::nat) \<Longrightarrow> (j - 1) div 2 = i \<longleftrightarrow> j = 2 * i + 1 \<or> j = 2 * i + 2"
  by linarith

lemma swap_up:
  assumes s: "idx_ok s" and i: "i < length (sh s)" "0 < i" "cnt s i < cnt s ((i - 1) div 2)" and u: "heap_up i s"
  shows "heap_up ((i - 1) div 2) (ss_swap i ((i - 1) div 2) s)"
proof -
  define p where "p = (i - 1) div 2"
  have pi: "p < i" unfolding p_def by (rule parent_less[OF i(2)])
  then have pl: "p < length (sh s)" "i \<noteq> p" using i(1) by simp_all
  note W = swap_idx(4)[OF s i(1) pl]
  have U1: "cnt s ((j - 1) div 2) \<le> cnt s j" if "j < length (sh s)" "0 < j" "j \<noteq> i" for j using u that by (simp add: heap_up_def)
  have U2: "cnt s p \<le> cnt s j" if "j < length (sh s)" "0 < j" "(j - 1) div 2 = i" for j using u that i(2) by (simp add: heap_up_def p_def)
  have lt: "cnt s i < cnt s p" using i(3) by (simp add: p_def)
  have "cnt (ss_swap i p s) ((j - 1) div 2) \<le> cnt (ss_swap i p s) j" if j: "j < length (sh s)" "0 < j" "j \<noteq> p" for j
  proof (cases "j = i")
    case True
    then have jp: "(j - 1) div 2 = p" by (simp add: p_def)
    show ?thesis using lt pl(2) True unfolding W jp by auto
  next
    case False
    have ne: "(j - 1) div 2 \<noteq> j" using parent_less[OF j(2)] by simp
    show ?thesis using U1[OF j(1,2) False] U2[OF j(1,2)] lt j(3) False unfolding W by auto
  qed
  moreover have "cnt (ss_swap i p s) ((p - 1) div 2) \<le> cnt (ss_swap i p s) j" if j: "j < length (sh s)" "0 < j" "(j - 1) div 2 = p" "0 < p" for j
  proof -
    have g: "(p - 1) div 2 < p" by (rule parent_less[OF j(4)])
    have "cnt s ((p - 1) div 2) \<le> cnt s p" using U1[of p] pl j(4) by simp
    moreover have "cnt s p \<le> cnt s j" if "j \<noteq> i" using U1[of j] j that by simp
    moreover have "j \<noteq> p" using parent_less[OF j(2)] j(3) by simp
    ultimately show ?thesis using g pi unfolding W by (auto intro: order_trans)
  qed
  ultimately show ?thesis unfolding heap_up_def p_def[symmetric] by simp
qed

lemma siftUp_ok:
  assumes "idx_ok s" "i < length (sh s)" "heap_up i s"
  shows "idx_ok (siftUp i s) \<and> heap_ok (siftUp i s) \<and> sview (siftUp i s) = sview s \<and> scap (siftUp i s) = scap s \<and>
    length (sh (siftUp i s)) = length (sh s)"
  using assms
proof (induction i s rule: siftUp.induct)
  case (1 i s)
  let ?p = "(i - 1) div 2"
  consider "i = 0" | "0 < i" "cnt s ?p \<le> cnt s i" | "0 < i" "\<not> cnt s ?p \<le> cnt s i" by blast
  then show ?case
  proof cases
    case 3
    have pl: "?p < length (sh s)" "?p \<noteq> i" using 1(3) 3(1) by linarith+
    note W = swap_idx[OF 1(2,3) pl(1) pl(2)[symmetric]]
    have up: "heap_up ?p (ss_swap i ?p s)" by (rule swap_up[OF 1(2,3) 3(1) _ 1(4)]) (use 3(2) in simp)
    have e: "siftUp i s = siftUp ?p (ss_swap i ?p s)" using 3 by (subst siftUp.simps) (simp add: Let_def)
    show ?thesis unfolding e using 1(1)[OF _ refl 3(2) W(1) _ up] 3(1) pl(1) W(2,3) by simp
  qed (use 1 in \<open>simp_all add: siftUp.simps heap_ok_def heap_up_def, metis neq0_conv\<close>)
qed

lemma swap_down:
  assumes s: "idx_ok s" and m: "m < length (sh s)" "0 < m" "(m - 1) div 2 = i" "cnt s m < cnt s i" and d: "heap_down i s"
    and least: "\<And>j. j < length (sh s) \<Longrightarrow> 0 < j \<Longrightarrow> (j - 1) div 2 = i \<Longrightarrow> cnt s m \<le> cnt s j"
  shows "heap_down m (ss_swap i m s)"
proof -
  have im: "i < m" using parent_less[OF m(2)] m(3) by simp
  then have il: "i < length (sh s)" "i \<noteq> m" using m(1) by simp_all
  note W = swap_idx(4)[OF s il(1) m(1) il(2)]
  have D1: "cnt s ((j - 1) div 2) \<le> cnt s j" if "j < length (sh s)" "0 < j" "(j - 1) div 2 \<noteq> i" for j using d that by (simp add: heap_down_def)
  have D2: "cnt s ((i - 1) div 2) \<le> cnt s j" if "j < length (sh s)" "0 < j" "(j - 1) div 2 = i" "0 < i" for j using d that by (simp add: heap_down_def)
  have "cnt (ss_swap i m s) ((j - 1) div 2) \<le> cnt (ss_swap i m s) j" if j: "j < length (sh s)" "0 < j" "(j - 1) div 2 \<noteq> m" for j
  proof (cases "(j - 1) div 2 = i")
    case True
    then have "j \<noteq> i" using parent_less[OF j(2)] by simp
    then show ?thesis using True least[OF j(1,2)] m(4) il(2) unfolding W by auto
  next
    case False
    have "j \<noteq> m" using False m(3) by auto
    then show ?thesis using D1[OF j(1,2) False] D2[OF m(1-3)] j False unfolding W by auto
  qed
  moreover have "cnt (ss_swap i m s) ((m - 1) div 2) \<le> cnt (ss_swap i m s) j" if j: "j < length (sh s)" "0 < j" "(j - 1) div 2 = m" for j
  proof -
    have "m < j" using parent_less[OF j(2)] j(3) by simp
    then show ?thesis using D1[of j] j im unfolding W m(3) by auto
  qed
  ultimately show ?thesis unfolding heap_down_def by simp
qed

lemma siftDown_ok:
  assumes "idx_ok s" "heap_down i s"
  shows "idx_ok (siftDown i s) \<and> heap_ok (siftDown i s) \<and> sview (siftDown i s) = sview s \<and> scap (siftDown i s) = scap s \<and>
    length (sh (siftDown i s)) = length (sh s)"
  using assms
proof (induction i s rule: siftDown.induct)
  case (1 i s)
  let ?n = "length (sh s)" and ?l = "2 * i + 1" let ?r = "?l + 1"
  define m where "m = (if ?r < ?n \<and> cnt s ?r < cnt s ?l then ?r else ?l)"
  have e: "siftDown i s = (if ?l \<ge> ?n then s else if cnt s i \<le> cnt s m then s else siftDown m (ss_swap i m s))"
    by (subst siftDown.simps) (simp add: Let_def m_def)
  have par: "(m - 1) div 2 = i" "0 < m" by (auto simp: m_def)
  have least: "cnt s m \<le> cnt s j" if "j < ?n" "0 < j" "(j - 1) div 2 = i" "?l < ?n" for j
  proof -
    have "j = ?l \<or> j = ?r" using child_of[OF that(2)] that(3) by auto
    then show ?thesis using that(1) by (auto simp: m_def)
  qed
  consider "?l \<ge> ?n" | "?l < ?n" "cnt s i \<le> cnt s m" | "?l < ?n" "\<not> cnt s i \<le> cnt s m" by linarith
  then show ?case
  proof cases
    case 1
    then have "(j - 1) div 2 \<noteq> i" if "j < ?n" "0 < j" for j using that by linarith
    then have "heap_ok s" using \<open>heap_down i s\<close> by (simp add: heap_ok_def heap_down_def)
    then show ?thesis using e 1 \<open>idx_ok s\<close> by simp
  next
    case 2
    have "cnt s ((j - 1) div 2) \<le> cnt s j" if "j < ?n" "0 < j" for j
      using that least[of j] 2 \<open>heap_down i s\<close> by (cases "(j - 1) div 2 = i") (auto simp: heap_down_def)
    then have "heap_ok s" by (simp add: heap_ok_def)
    then show ?thesis using e 2 \<open>idx_ok s\<close> by simp
  next
    case 3
    have ml: "m < ?n" "i < ?n" "i \<noteq> m" using 3(1) par by (auto simp: m_def)
    note W = swap_idx[OF 1(2) ml(2,1,3)]
    have "heap_down m (ss_swap i m s)"
      by (rule swap_down[OF 1(2) ml(1) par(2,1) _ 1(3)]) (use 3 least in auto)
    moreover have "siftDown i s = siftDown m (ss_swap i m s)" using e 3 by simp
    ultimately show ?thesis using 1(1)[OF refl refl _ refl m_def _ W(1)] 3 W(2,3) by simp
  qed
qed

lemma heap_min: "heap_ok s \<Longrightarrow> i < length (sh s) \<Longrightarrow> cnt s 0 \<le> cnt s i"
proof (induction i rule: less_induct)
  case (less i)
  show ?case
  proof (cases "i = 0")
    case False
    then have "(i - 1) div 2 < i" by (intro parent_less) simp
    moreover from this have "(i - 1) div 2 < length (sh s)" using less.prems(2) by simp
    moreover have "cnt s ((i - 1) div 2) \<le> cnt s i" using less.prems False by (simp add: heap_ok_def)
    ultimately show ?thesis using less.IH[of "(i - 1) div 2"] less.prems(1) by auto
  qed simp
qed

lemma addSat64_num: "unat (addSat64 a b) = min (unat a + unat b) (2 ^ 64 - 1)" "a \<le> addSat64 a b"
proof -
  have l: "unat a < 2 ^ 64" "unat b < 2 ^ 64" using unat_u64_less[of a] unat_u64_less[of b] by simp_all
  have "unat (addSat64 a b) = min (unat a + unat b) (2 ^ 64 - 1)"
  proof (cases "unat a + unat b < 2 ^ 64")
    case True
    then have u: "unat (a + b) = unat a + unat b" by (simp add: unat_word_ariths)
    then have "\<not> a + b < a" by (simp add: word_less_nat_alt)
    then show ?thesis using u True by (simp add: addSat64_def Let_def)
  next
    case False
    then have "unat (a + b) = unat a + unat b - 2 ^ 64" using l by (simp add: unat_word_ariths mod_if)
    then have "a + b < a" using False l by (simp add: word_less_nat_alt)
    moreover have "unat (- 1 :: u64) = 2 ^ 64 - 1" by (simp add: unsigned_minus_1_eq_mask mask_eq_exp_minus_1)
    ultimately show ?thesis using False by (simp add: addSat64_def Let_def)
  qed
  then show "unat (addSat64 a b) = min (unat a + unat b) (2 ^ 64 - 1)" "a \<le> addSat64 a b" using l by (auto simp: word_le_nat_alt)
qed

subsection \<open>The three cases of an update\<close>

lemma add_existing:
  assumes s: "ss_ok s" and i: "mget (sidx s) k = Some i"
  shows "ss_ok (ss_add k inc s) \<and> scap (ss_add k inc s) = scap s \<and> length (sh (ss_add k inc s)) = length (sh s) \<and>
    sview (ss_add k inc s) = (sview s)(k \<mapsto> unat (addSat64 (cnt s i) inc))"
proof -
  let ?e = "(sh s ! i)\<lparr>eC := addSat64 (cnt s i) inc\<rparr>" let ?s = "s\<lparr>sh := (sh s)[i := ?e]\<rparr>"
  have ok: "idx_ok s" "heap_ok s" using s by (simp_all add: ss_ok_def)
  have il: "i < length (sh s)" "eK (sh s ! i) = k" using ok(1) i unfolding idx_ok_def by blast+
  have key: "eK (sh ?s ! j) = eK (sh s ! j)" for j using il by (cases "j = i") simp_all
  have c: "cnt ?s j = (if j = i then addSat64 (cnt s i) inc else cnt s j)" for j using il by (cases "j = i") simp_all
  have len: "length (sh ?s) = length (sh s)" "sidx ?s = sidx s" "scap ?s = scap s" by simp_all
  have ix: "idx_ok ?s" using ok(1) unfolding idx_ok_def key len .
  have H: "cnt s ((j - 1) div 2) \<le> cnt s j" if "j < length (sh s)" "0 < j" for j using ok(2) that by (simp add: heap_ok_def)
  have "heap_down i ?s" unfolding heap_down_def c len
  proof (intro conjI allI impI)
    fix j assume j: "j < length (sh s)" "0 < j \<and> (j - 1) div 2 \<noteq> i"
    then show "(if (j - 1) div 2 = i then addSat64 (cnt s i) inc else cnt s ((j - 1) div 2)) \<le> (if j = i then addSat64 (cnt s i) inc else cnt s j)"
      using H[of j] addSat64_num(2)[of "cnt s i" inc] by auto
  next
    fix j assume j: "j < length (sh s)" "0 < j \<and> (j - 1) div 2 = i \<and> 0 < i"
    then have "i \<noteq> j" "(i - 1) div 2 \<noteq> i" using parent_less[of j] parent_less[of i] by auto
    then show "(if (i - 1) div 2 = i then addSat64 (cnt s i) inc else cnt s ((i - 1) div 2)) \<le> (if j = i then addSat64 (cnt s i) inc else cnt s j)"
      using H[of j] H[of i] j il(1) by auto
  qed
  note D = siftDown_ok[OF ix this]
  have e: "ss_add k inc s = siftDown i ?s" by (simp add: ss_add_def i)
  have "sview ?s j = ((sview s)(k \<mapsto> unat (addSat64 (cnt s i) inc))) j" for j
  proof (cases "j = k")
    case False
    then have "mget (sidx s) j \<noteq> Some i" using ok(1) il(2) by (simp add: idx_ok_def)
    then show ?thesis using False by (cases "mget (sidx s) j") (auto simp: sview_def)
  qed (use i il in \<open>simp add: sview_def\<close>)
  then have "sview ?s = (sview s)(k \<mapsto> unat (addSat64 (cnt s i) inc))" by (rule ext)
  then show ?thesis using D s unfolding e ss_ok_def by (simp del: fun_upd_apply)
qed

lemma add_new:
  assumes s: "ss_ok s" and k: "mget (sidx s) k = None" and room: "int (length (sh s)) < scap s"
  shows "ss_ok (ss_add k inc s) \<and> scap (ss_add k inc s) = scap s \<and> length (sh (ss_add k inc s)) = Suc (length (sh s)) \<and>
    sview (ss_add k inc s) = (sview s)(k \<mapsto> unat inc)"
proof -
  let ?n = "length (sh s)" let ?s = "s\<lparr>sh := sh s @ [\<lparr>eK = k, eC = inc\<rparr>], sidx := mput k ?n (sidx s)\<rparr>"
  have ok: "idx_ok s" "heap_ok s" using s by (simp_all add: ss_ok_def)
  have own: "mget (sidx s) j = Some i \<longleftrightarrow> i < ?n \<and> eK (sh s ! i) = j" for i j using ok(1) by (simp add: idx_ok_def)
  have nk: "eK (sh s ! i) \<noteq> k" if "i < ?n" for i using own[of k i] k that by simp
  have ix: "idx_ok ?s" unfolding idx_ok_def
  proof (intro allI)
    fix j i
    show "mget (sidx ?s) j = Some i \<longleftrightarrow> i < length (sh ?s) \<and> eK (sh ?s ! i) = j"
      using own[of j i] nk[of i] k by (auto simp: map_simps nth_append less_Suc_eq)
  qed
  have "heap_up ?n ?s" unfolding heap_up_def
  proof (intro conjI allI impI)
    fix j assume "j < length (sh ?s)" "0 < j \<and> j \<noteq> ?n"
    then have "j < ?n" "0 < j" "(j - 1) div 2 < ?n" using parent_less[of j] by auto
    then show "cnt ?s ((j - 1) div 2) \<le> cnt ?s j" using ok(2) by (simp add: heap_ok_def nth_append)
  next
    fix j assume "j < length (sh ?s)" "0 < j \<and> (j - 1) div 2 = ?n \<and> 0 < ?n"
    then have False using parent_less[of j] by simp
    then show "cnt ?s ((?n - 1) div 2) \<le> cnt ?s j" ..
  qed
  from siftUp_ok[OF ix _ this]
  have U: "idx_ok (siftUp ?n ?s) \<and> heap_ok (siftUp ?n ?s) \<and> sview (siftUp ?n ?s) = sview ?s \<and> scap (siftUp ?n ?s) = scap s \<and>
    length (sh (siftUp ?n ?s)) = Suc ?n" by simp
  have e: "ss_add k inc s = siftUp ?n ?s" using k room by (simp add: ss_add_def Let_def)
  have "sview ?s j = ((sview s)(k \<mapsto> unat inc)) j" for j
    using own[of j] by (cases "mget (sidx s) j") (auto simp: sview_def map_simps nth_append simp del: map_of_eq_Some_iff)
  then have "sview ?s = (sview s)(k \<mapsto> unat inc)" by (rule ext)
  then show ?thesis using U s room unfolding e ss_ok_def by (simp del: fun_upd_apply)
qed

lemma add_full:
  assumes s: "ss_ok s" and k: "mget (sidx s) k = None" and full: "\<not> int (length (sh s)) < scap s"
  shows "ss_ok (ss_add k inc s) \<and> scap (ss_add k inc s) = scap s \<and> length (sh (ss_add k inc s)) = length (sh s) \<and>
    sview (ss_add k inc s) = (sview s)(eK (sh s ! 0) := None, k \<mapsto> unat (addSat64 (cnt s 0) inc)) \<and> eK (sh s ! 0) \<noteq> k"
proof -
  let ?e = "\<lparr>eK = k, eC = addSat64 (cnt s 0) inc\<rparr>" let ?k0 = "eK (sh s ! 0)"
  let ?s = "s\<lparr>sh := (sh s)[0 := ?e], sidx := mput k 0 (mdel ?k0 (sidx s))\<rparr>"
  have ok: "idx_ok s" "heap_ok s" "1 \<le> scap s" using s by (simp_all add: ss_ok_def)
  have n: "0 < length (sh s)" using full ok(3) by auto
  have own: "mget (sidx s) j = Some i \<longleftrightarrow> i < length (sh s) \<and> eK (sh s ! i) = j" for i j using ok(1) by (simp add: idx_ok_def)
  have nk: "eK (sh s ! i) \<noteq> k" if "i < length (sh s)" for i using own[of k i] k that by simp
  have nth: "sh ?s ! i = (if i = 0 then ?e else sh s ! i)" for i using n by (cases i) simp_all
  have ix: "idx_ok ?s" unfolding idx_ok_def
  proof (intro allI)
    fix j i
    have "mget (sidx ?s) j = (if j = k then Some 0 else if j = ?k0 then None else mget (sidx s) j)" by (simp add: map_simps)
    then show "mget (sidx ?s) j = Some i \<longleftrightarrow> i < length (sh ?s) \<and> eK (sh ?s ! i) = j"
      using own[of j i] nk[of i] idx_inj[OF ok(1), of i 0] n unfolding nth by auto
  qed
  have "heap_down 0 ?s" unfolding heap_down_def
  proof (intro conjI allI impI)
    fix j assume "j < length (sh ?s)" "0 < j \<and> (j - 1) div 2 \<noteq> 0"
    then show "cnt ?s ((j - 1) div 2) \<le> cnt ?s j" using ok(2) unfolding nth by (simp add: heap_ok_def)
  qed simp
  note D = siftDown_ok[OF ix this]
  have e: "ss_add k inc s = siftDown 0 ?s" using k full by (simp add: ss_add_def Let_def)
  have "sview ?s j = ((sview s)(?k0 := None, k \<mapsto> unat (addSat64 (cnt s 0) inc))) j" for j
    using own[of j] nk[OF n] nth unfolding sview_def
    by (cases "mget (sidx s) j") (auto simp: map_simps simp del: map_of_eq_Some_iff)
  then have "sview ?s = (sview s)(?k0 := None, k \<mapsto> unat (addSat64 (cnt s 0) inc))" by (rule ext)
  then show ?thesis using D s nk[OF n] unfolding e ss_ok_def by (simp del: fun_upd_apply)
qed

subsection \<open>The Space-Saving guarantee\<close>

lemma total_upd:
  assumes "finite (dom m)"
  shows "m k = None \<Longrightarrow> total (m(k \<mapsto> v)) = total m + v"
    "m k = Some c \<Longrightarrow> total (m(k := None)) + c = total m" "m k = Some c \<Longrightarrow> total (m(k \<mapsto> v)) + c = total m + v"
proof -
  have del: "total (m(k := None)) + c = total m" if "m k = Some c" for c
  proof -
    have "total m = the (m k) + (\<Sum>x\<in>dom m - {k}. the (m x))" unfolding total_def using assms that by (intro sum.remove) auto
    moreover have "total (m(k := None)) = (\<Sum>x\<in>dom m - {k}. the (m x))" unfolding total_def by (rule sum.cong) auto
    ultimately show ?thesis using that by simp
  qed
  have new: "total (n(k \<mapsto> v)) = total n + v" if "n k = None" "finite (dom n)" for n
  proof -
    have "total (n(k \<mapsto> v)) = v + (\<Sum>x\<in>dom n. the ((n(k \<mapsto> v)) x))"
      unfolding total_def using that by (simp add: domIff)
    also have "(\<Sum>x\<in>dom n. the ((n(k \<mapsto> v)) x)) = total n" unfolding total_def using that(1) by (intro sum.cong) auto
    finally show ?thesis by (simp only: add.commute)
  qed
  show "m k = None \<Longrightarrow> total (m(k \<mapsto> v)) = total m + v" using new assms by blast
  show "m k = Some c \<Longrightarrow> total (m(k := None)) + c = total m" by (rule del)
  show "total (m(k \<mapsto> v)) + c = total m + v" if "m k = Some c"
    using new[of "m(k := None)"] del[OF that] assms by simp
qed

lemma total_ge: "finite (dom m) \<Longrightarrow> m k = Some c \<Longrightarrow> c \<le> total m"
  using total_upd(2)[of m k c] by linarith

lemma sview_dom:
  assumes "idx_ok s"
  shows "dom (sview s) = (\<lambda>e. eK e) ` set (sh s)" "card (dom (sview s)) = length (sh s)" "finite (dom (sview s))"
proof -
  show d: "dom (sview s) = (\<lambda>e. eK e) ` set (sh s)" using sview_idx[OF assms] by (fastforce simp: dom_def in_set_conv_nth)
  have "distinct (map eK (sh s))" using idx_inj[OF assms] by (simp add: distinct_conv_nth) blast
  then show "card (dom (sview s)) = length (sh s)" unfolding d using distinct_card by fastforce
  show "finite (dom (sview s))" unfolding d by simp
qed

lemma root_min:
  assumes "ss_ok s" "0 < length (sh s)"
  shows "sview s (eK (sh s ! 0)) = Some (unat (cnt s 0))" "sview s k = Some c \<Longrightarrow> unat (cnt s 0) \<le> c"
proof -
  have ok: "idx_ok s" "heap_ok s" using assms by (simp_all add: ss_ok_def)
  show "sview s (eK (sh s ! 0)) = Some (unat (cnt s 0))" using sview_idx[OF ok(1)] assms(2) by blast
  show "unat (cnt s 0) \<le> c" if "sview s k = Some c"
    using that sview_idx[OF ok(1)] heap_min[OF ok(2)] by (auto simp: word_le_nat_alt)
qed

lemma ss_bound_new: "ss_bound [] (newSpaceSaving k)"
  by (simp add: ss_bound_def ss_ok_def newSpaceSaving_def idx_ok_def heap_ok_def sview_def total_def dom_def)

lemma root_ge:
  assumes "ss_ok s" "0 < length (sh s)" "\<And>k c. sview s k = Some c \<Longrightarrow> m \<le> c"
  shows "m \<le> unat (cnt s 0)"
  using root_min(1)[OF assms(1,2)] assms(3) by blast

lemma count_snoc: "count_list (ks @ [k]) j = count_list ks j + (if j = k then 1 else 0)"
  by (induction ks) auto

lemma ss_bound_add:
  assumes b: "ss_bound ks s" and n: "length ks < 2 ^ 64 - 1"
  shows "ss_bound (ks @ [k]) (ss_add k 1 s)"
proof -
  have s: "ss_ok s" "idx_ok s" "1 \<le> scap s" "int (length (sh s)) \<le> scap s" and t: "total (sview s) = length ks"
    and B: "\<And>k c. sview s k = Some c \<Longrightarrow> count_list ks k \<le> c"
    and U: "\<And>k. sview s k = None \<Longrightarrow> (if int (length (sh s)) < scap s then count_list ks k = 0 else count_list ks k \<le> unat (cnt s 0))"
    using b by (auto simp: ss_bound_def ss_ok_def)
  note F = sview_dom(3)[OF s(2)]
  let ?s = "ss_add k 1 s"
  have sat: "unat (addSat64 (cnt s i) 1) = unat (cnt s i) + 1" if "i < length (sh s)" for i
  proof -
    have "sview s (eK (sh s ! i)) = Some (unat (cnt s i))" using sview_idx[OF s(2)] that by blast
    then have "unat (cnt s i) \<le> length ks" using total_ge[OF F] t by simp
    then show ?thesis using n by (simp add: addSat64_num(1))
  qed
  show ?thesis
  proof (cases "mget (sidx s) k")
    case (Some i)
    have il: "i < length (sh s)" "eK (sh s ! i) = k" using s(2) Some unfolding idx_ok_def by blast+
    have k: "sview s k = Some (unat (cnt s i))" using sview_idx[OF s(2)] il by blast
    have n0: "0 < length (sh s)" using il(1) by linarith
    note A = add_existing[OF s(1) Some, of 1, unfolded sat[OF il(1)]]
    have v: "sview ?s = (sview s)(k \<mapsto> unat (cnt s i) + 1)" using A by blast
    have "count_list (ks @ [k]) j \<le> c" if "sview ?s j = Some c" for j c
      using that B[of j] B[OF k] unfolding v count_snoc by (auto split: if_splits)
    moreover have "unat (cnt s 0) \<le> unat (cnt ?s 0)"
    proof (rule root_ge)
      show "unat (cnt s 0) \<le> c" if "sview ?s j = Some c" for j c
        using that root_min(2)[OF s(1) n0, of j c] root_min(2)[OF s(1) n0 k] unfolding v by (auto split: if_splits)
    qed (use A il in auto)
    then have "if int (length (sh ?s)) < scap ?s then count_list (ks @ [k]) j = 0 else count_list (ks @ [k]) j \<le> unat (cnt ?s 0)"
      if "sview ?s j = None" for j
      using that U[of j] A unfolding count_snoc v by (auto split: if_splits)
    moreover have "total (sview ?s) = length (ks @ [k])" using total_upd(3)[OF F k, of "unat (cnt s i) + 1"] t unfolding v by simp
    ultimately show ?thesis using A unfolding ss_bound_def by blast
  next
    case None
    then have k: "sview s k = None" by (simp add: sview_def)
    show ?thesis
    proof (cases "int (length (sh s)) < scap s")
      case True
      note A = add_new[OF s(1) None True, of 1]
      have v: "sview ?s = (sview s)(k \<mapsto> 1)" using A by simp
      have "count_list (ks @ [k]) j \<le> c" if "sview ?s j = Some c" for j c
        using that B[of j] U[OF k] True unfolding v count_snoc by (auto split: if_splits)
      moreover have "count_list (ks @ [k]) j = 0" if "sview ?s j = None" for j
        using that U[of j] True unfolding v count_snoc by (auto split: if_splits)
      moreover have "total (sview ?s) = length (ks @ [k])" using total_upd(1)[OF F k] t unfolding v by simp
      ultimately show ?thesis using A by (simp add: ss_bound_def)
    next
      case False
      have n0: "0 < length (sh s)" using False s(3) by auto
      let ?k0 = "eK (sh s ! 0)" let ?c0 = "unat (cnt s 0)"
      note A = add_full[OF s(1) None False, of 1, unfolded sat[OF n0]]
      have v: "sview ?s = (sview s)(?k0 := None, k \<mapsto> ?c0 + 1)" and ne: "?k0 \<noteq> k" using A by blast+
      note R = root_min[OF s(1) n0]
      have "count_list (ks @ [k]) j \<le> c" if "sview ?s j = Some c" for j c
        using that B[of j] U[OF k] False unfolding v count_snoc by (auto split: if_splits)
      moreover have m: "?c0 \<le> unat (cnt ?s 0)"
      proof (rule root_ge)
        show "?c0 \<le> c" if "sview ?s j = Some c" for j c using that R(2)[of j c] unfolding v by (auto split: if_splits)
      qed (use A n0 in auto)
      then have "count_list (ks @ [k]) j \<le> unat (cnt ?s 0)" if "sview ?s j = None" for j
        using that U[of j] B[OF R(1)] False unfolding count_snoc v by (auto split: if_splits)
      moreover have "total (sview ?s) = length (ks @ [k])"
        using total_upd(2)[OF F R(1)] total_upd(1)[of "(sview s)(?k0 := None)" k "?c0 + 1"] F k ne t unfolding v by simp
      ultimately show ?thesis using A False by (simp add: ss_bound_def)
    qed
  qed
qed

lemma ss_bound_run: "length ks < 2 ^ 64 \<Longrightarrow> ss_bound ks (ss_run ks (newSpaceSaving c))"
proof (induction ks rule: rev_induct)
  case Nil
  then show ?case by (simp add: ss_run_def ss_bound_new)
next
  case (snoc k ks)
  then show ?case using ss_bound_add[of ks "ss_run ks (newSpaceSaving c)" k] by (simp add: ss_run_def)
qed

section \<open>Properties\<close>

text \<open>C11. The hot-key structure keeps the Space-Saving guarantee: after any sequence of accesses it holds
  at most its capacity of keys, never underestimates a key it holds, and every key whose accesses
  exceed their total divided by the capacity is among the keys it exports.\<close>

theorem hot_keys_found:
  assumes "length ks < 2 ^ 64" "1 \<le> cap"
  shows "int (length (ss_export (ss_run ks (newSpaceSaving cap)))) \<le> cap \<and>
    (\<forall>e\<in>set (ss_export (ss_run ks (newSpaceSaving cap))). count_list ks (hkK e) \<le> unat (hkC e)) \<and>
    (\<forall>k. int (length ks) < cap * int (count_list ks k) \<longrightarrow> k \<in> hkK ` set (ss_export (ss_run ks (newSpaceSaving cap))))"
proof -
  define s where "s = ss_run ks (newSpaceSaving cap)"
  have b: "ss_bound ks s" unfolding s_def by (rule ss_bound_run[OF assms(1)])
  have c: "scap s = cap"
  proof -
    have "ss_ok s \<Longrightarrow> scap (ss_add k inc s) = scap s" for k inc s
      using add_existing[of s k] add_new[of s k] add_full[of s k] by (cases "mget (sidx s) k") blast+
    then have "length ks < 2 ^ 64 \<Longrightarrow> scap (ss_run ks (newSpaceSaving cap)) = scap (newSpaceSaving cap)"
    proof (induction ks rule: rev_induct)
      case (snoc k ks)
      moreover have "ss_ok (ss_run ks (newSpaceSaving cap))" using ss_bound_run[of ks cap] snoc.prems by (simp add: ss_bound_def)
      ultimately show ?case by (simp add: ss_run_def)
    qed (simp add: ss_run_def)
    then show ?thesis using assms by (simp add: s_def newSpaceSaving_def)
  qed
  have ok: "ss_ok s" "idx_ok s" and t: "total (sview s) = length ks" using b by (auto simp: ss_bound_def ss_ok_def)
  have keys: "hkK ` set (ss_export s) = dom (sview s)" unfolding ss_export_def sview_dom(1)[OF ok(2)] by force
  have "count_list ks (hkK e) \<le> unat (hkC e)" if E: "e \<in> set (ss_export s)" for e
  proof -
    obtain x where "x \<in> set (sh s)" and e: "hkK e = eK x" "hkC e = eC x" using E by (auto simp: ss_export_def)
    then obtain i where "i < length (sh s)" "hkK e = eK (sh s ! i)" "hkC e = cnt s i" by (metis in_set_conv_nth)
    then have "sview s (hkK e) = Some (unat (hkC e))" using sview_idx[OF ok(2)] by auto
    then show ?thesis using b by (simp add: ss_bound_def)
  qed
  moreover have "k \<in> hkK ` set (ss_export s)" if hot: "int (length ks) < cap * int (count_list ks k)" for k
  proof (rule ccontr)
    assume "k \<notin> hkK ` set (ss_export s)"
    then have "sview s k = None" using keys by (simp add: domIff)
    then have U: "if int (length (sh s)) < cap then count_list ks k = 0 else count_list ks k \<le> unat (cnt s 0)"
      using b c by (simp add: ss_bound_def)
    have "count_list ks k \<noteq> 0" using hot by (cases "count_list ks k") auto
    then have full: "\<not> int (length (sh s)) < cap" "count_list ks k \<le> unat (cnt s 0)" using U by (auto split: if_splits)
    have n0: "0 < length (sh s)" using full(1) assms(2) by auto
    have "length (sh s) * unat (cnt s 0) \<le> total (sview s)"
    proof -
      have "(\<Sum>x\<in>dom (sview s). unat (cnt s 0)) \<le> total (sview s)" unfolding total_def
        by (rule sum_mono) (use root_min(2)[OF ok(1) n0] in auto)
      then show ?thesis by (simp add: sview_dom(2)[OF ok(2)])
    qed
    then have "length (sh s) * count_list ks k \<le> length ks" using mult_le_mono2[OF full(2), of "length (sh s)"] t by linarith
    then have "int (length (sh s)) * int (count_list ks k) \<le> int (length ks)" by (metis of_nat_le_iff of_nat_mult)
    moreover have "cap * int (count_list ks k) \<le> int (length (sh s)) * int (count_list ks k)" using full(1) by (simp add: mult_right_mono)
    ultimately show False using hot by linarith
  qed
  moreover have "int (length (ss_export s)) \<le> cap" using ok(1) c by (simp add: ss_export_def ss_ok_def)
  ultimately show ?thesis unfolding s_def by blast
qed

theorem hot_keys_found_witness:
  "[7] \<in> hkK ` set (ss_export (ss_run [[7], [1], [7], [2], [7]] (newSpaceSaving 2)))"
  using hot_keys_found[of "[[7], [1], [7], [2], [7]]" 2] by simp

end
