(* ===== verification/Membership.thy ===== *)
theory Membership
  imports Rendezvous
begin

text \<open>
  \<open>cluster/membership.go\<close>: the view a node has of the cluster. The metadata of a peer is a pointer that the
  rings built from the view share, so it lives in a heap and the view maps ids to addresses. The
  read-write lock makes every operation atomic. \<open>xx\<close> is the third-party hash of a node id.
\<close>

record PeerInfo =
  piID :: string
  piAddr :: string

record membership =
  mpeers :: "(NodeID, addr) gomap"
  seen :: "(NodeID, int) gomap"
  epoch :: u64
  metas :: "nodeMeta heap"
  mtop :: addr

definition noMeta :: nodeMeta where
  "noMeta = \<lparr>ID = [], Addr = [], weight = 0, salt = 0\<rparr>"

abbreviation meta :: "membership \<Rightarrow> addr \<Rightarrow> nodeMeta" where
  "meta m \<equiv> hget noMeta (metas m)"

definition newMembership :: membership where
  "newMembership = \<lparr>mpeers = [], seen = [], epoch = 0, metas = [], mtop = 1\<rparr>"

definition snapshot :: "membership \<Rightarrow> (NodeID, addr) gomap \<times> (NodeID, int) gomap \<times> u64" where
  "snapshot m = (mpeers m, seen m, epoch m)"

definition addPeer :: "(string \<Rightarrow> u64) \<Rightarrow> NodeID \<Rightarrow> string \<Rightarrow> membership \<Rightarrow> membership" where
  "addPeer xx i addr m =
     m\<lparr>metas := mput (mtop m) (newMeta xx i addr) (metas m), mpeers := mput i (mtop m) (mpeers m), mtop := mtop m + 1\<rparr>"

text \<open>Lines 51--55 and 61--65: a new entry, or the new address of a known one.\<close>

definition upsertPeer :: "(string \<Rightarrow> u64) \<Rightarrow> NodeID \<Rightarrow> string \<Rightarrow> membership \<Rightarrow> membership" where
  "upsertPeer xx i addr m =
     (case mget (mpeers m) i of
        None \<Rightarrow> addPeer xx i addr m
      | Some a \<Rightarrow> m\<lparr>metas := mput a ((meta m a)\<lparr>Addr := addr\<rparr>) (metas m)\<rparr>)"

definition observeSeen :: "NodeID \<times> int \<Rightarrow> membership \<Rightarrow> membership" where
  "observeSeen = (\<lambda>(i, ts) m.
     if (case mget (seen m) i of None \<Rightarrow> True | Some old \<Rightarrow> ts > old) then m\<lparr>seen := mput i ts (seen m)\<rparr> else m)"

definition integrate ::
  "(string \<Rightarrow> u64) \<Rightarrow> NodeID \<Rightarrow> string \<Rightarrow> PeerInfo list \<Rightarrow> (string, int) gomap \<Rightarrow> u64 \<Rightarrow> int \<Rightarrow> membership \<Rightarrow> membership" where
  "integrate xx from addr ps obs ep now m =
     (let m = (if ep > epoch m then m\<lparr>epoch := ep\<rparr> else m);
          m = upsertPeer xx from addr m;
          m = m\<lparr>seen := mput from now (seen m)\<rparr>;
          m = fold (\<lambda>p. upsertPeer xx (piID p) (piAddr p)) ps m
      in fold observeSeen obs m)"

text \<open>A missing timestamp reads as 0. \<open>it\<close> is the order in which the map of peers is iterated.\<close>

definition aliveMembers :: "(NodeID \<times> addr) iter \<Rightarrow> int \<Rightarrow> int \<Rightarrow> membership \<Rightarrow> addr list" where
  "aliveMembers it now suspicionAfter m =
     (let threshold = i64 (now - suspicionAfter)
      in map snd (filter (\<lambda>(i, _). (case mget (seen m) i of None \<Rightarrow> 0 | Some ts \<Rightarrow> ts) \<ge> threshold) (it (mpeers m))))"

definition pruneOne :: "int \<Rightarrow> NodeID \<Rightarrow> membership \<Rightarrow> membership" where
  "pruneOne threshold i m =
     (case mget (seen m) i of
        Some ts \<Rightarrow> if ts < threshold then m\<lparr>mpeers := mdel i (mpeers m), seen := mdel i (seen m)\<rparr> else m
      | None \<Rightarrow> m)"

definition pruneTombstones :: "(NodeID \<times> addr) iter \<Rightarrow> int \<Rightarrow> int \<Rightarrow> membership \<Rightarrow> membership" where
  "pruneTombstones it now tombstoneAfter m =
     fold (\<lambda>(i, _). pruneOne (i64 (now - tombstoneAfter)) i) (it (mpeers m)) m"

definition ensure :: "(string \<Rightarrow> u64) \<Rightarrow> int \<Rightarrow> NodeID \<Rightarrow> string \<Rightarrow> membership \<Rightarrow> membership" where
  "ensure xx now i addr m =
     (let m = (case mget (mpeers m) i of None \<Rightarrow> addPeer xx i addr m | Some _ \<Rightarrow> m)
      in m\<lparr>seen := mput i now (seen m)\<rparr>)"

definition bumpEpoch :: "membership \<Rightarrow> u64 \<times> membership" where
  "bumpEpoch m = (epoch m + 1, m\<lparr>epoch := epoch m + 1\<rparr>)"

definition setWeight :: "NodeID \<Rightarrow> u64 \<Rightarrow> membership \<Rightarrow> membership" where
  "setWeight i w m =
     (case mget (mpeers m) i of
        None \<Rightarrow> m
      | Some a \<Rightarrow> m\<lparr>metas := mput a ((meta m a)\<lparr>weight := w\<rparr>) (metas m)\<rparr>)"

text \<open>The ring that \<open>weightLoop\<close> builds from the live members, as its readers see it.\<close>

definition ringOf :: "int \<Rightarrow> membership \<Rightarrow> addr list \<Rightarrow> ring" where
  "ringOf n m as = (newRing n)\<lparr>nodes := map (meta m) as\<rparr>"

text \<open>The steps by which a view evolves.\<close>

inductive memStep :: "(string \<Rightarrow> u64) \<Rightarrow> membership \<Rightarrow> membership \<Rightarrow> bool" for xx where
  step_integrate: "memStep xx m (integrate xx from addr ps obs ep now m)"
| step_ensure: "memStep xx m (ensure xx now i addr m)"
| step_prune: "memStep xx m (pruneTombstones it now ta m)"
| step_epoch: "memStep xx m (snd (bumpEpoch m))"
| step_weight: "memStep xx m (setWeight i w m)"

text \<open>The invariant: each peer has its own metadata, which carries its id and the salt of that id.\<close>

definition mem_inv :: "(string \<Rightarrow> u64) \<Rightarrow> membership \<Rightarrow> bool" where
  "mem_inv xx m \<longleftrightarrow> wf_map (mpeers m) \<and> wf_map (seen m) \<and>
     (\<forall>i a. mget (mpeers m) i = Some a \<longrightarrow> a < mtop m \<and> ID (meta m a) = i \<and> salt (meta m a) = xx i)"

section \<open>Lemmas\<close>

lemma mem_new: "mem_inv xx newMembership"
  by (simp add: mem_inv_def newMembership_def)

lemma mem_invD: "mem_inv xx m \<Longrightarrow> mget (mpeers m) i = Some a \<Longrightarrow> a < mtop m \<and> ID (meta m a) = i \<and> salt (meta m a) = xx i"
  unfolding mem_inv_def by blast

lemma addPeer_inv: "mem_inv xx m \<Longrightarrow> mem_inv xx (addPeer xx i addr m)"
  by (auto simp: mem_inv_def addPeer_def newMeta_def map_simps less_Suc_eq simp del: map_of_eq_Some_iff split: if_splits dest: mem_invD)

text \<open>A change of one record that keeps its id and salt.\<close>

lemma touch_inv:
  assumes "mem_inv xx m" "mget (mpeers m) i = Some a" "ID (f (meta m a)) = ID (meta m a)" "salt (f (meta m a)) = salt (meta m a)"
  shows "mem_inv xx (m\<lparr>metas := mput a (f (meta m a)) (metas m)\<rparr>)"
proof -
  let ?m = "m\<lparr>metas := mput a (f (meta m a)) (metas m)\<rparr>"
  have "ID (meta ?m b) = ID (meta m b)" "salt (meta ?m b) = salt (meta m b)" for b using assms(3,4) by simp_all
  then show ?thesis using assms(1) by (simp add: mem_inv_def del: map_of_eq_Some_iff hget_simps)
qed

lemma upsertPeer_inv: "mem_inv xx m \<Longrightarrow> mem_inv xx (upsertPeer xx i addr m)"
  by (auto simp: upsertPeer_def addPeer_inv touch_inv simp del: map_of_eq_Some_iff split: option.splits)

lemma seen_inv: "mem_inv xx m \<Longrightarrow> mem_inv xx (m\<lparr>seen := mput i t (seen m)\<rparr>)"
  by (simp add: mem_inv_def map_simps del: map_of_eq_Some_iff)

lemma observeSeen_inv: "mem_inv xx m \<Longrightarrow> mem_inv xx (observeSeen e m)"
  by (auto simp: observeSeen_def seen_inv split: prod.splits option.splits)

lemma fold_inv: "(\<And>x m. P m \<Longrightarrow> P (f x m)) \<Longrightarrow> P m \<Longrightarrow> P (fold f xs m)"
  by (induction xs arbitrary: m) auto

lemma pruneOne_inv: "mem_inv xx m \<Longrightarrow> mem_inv xx (pruneOne t i m)"
  by (auto simp: pruneOne_def mem_inv_def map_simps simp del: map_of_eq_Some_iff split: option.splits)

lemma memStep_inv: "memStep xx m m' \<Longrightarrow> mem_inv xx m \<Longrightarrow> mem_inv xx m'"
proof (induction rule: memStep.induct)
  case (step_integrate m sender addr ps obs ep now)
  have "mem_inv xx (if ep > epoch m then m\<lparr>epoch := ep\<rparr> else m)" using step_integrate by (simp add: mem_inv_def)
  then show ?case unfolding integrate_def Let_def
    by (intro fold_inv[where P = "mem_inv xx"] observeSeen_inv upsertPeer_inv seen_inv)
next
  case (step_ensure m now i addr)
  then show ?case by (auto simp: ensure_def Let_def addPeer_inv intro: seen_inv split: option.splits)
next
  case (step_prune m it now ta)
  then show ?case unfolding pruneTombstones_def
    by (intro fold_inv[where P = "mem_inv xx"]) (auto simp: pruneOne_inv)
next
  case (step_epoch m)
  then show ?case by (simp add: bumpEpoch_def mem_inv_def)
next
  case (step_weight m i w)
  then show ?case by (auto simp: setWeight_def touch_inv simp del: map_of_eq_Some_iff split: option.splits)
qed

lemma mem_reach_inv: "(memStep xx)\<^sup>*\<^sup>* m m' \<Longrightarrow> mem_inv xx m \<Longrightarrow> mem_inv xx m'"
  by (induction rule: rtranclp_induct) (auto intro: memStep_inv)

lemma alive_ids:
  assumes i: "mem_inv xx m" and it: "iter_ok it"
  shows "distinct (map ID (map (meta m) (aliveMembers it now sa m)))"
    "set (map ID (map (meta m) (aliveMembers it now sa m))) =
      {i. mget (mpeers m) i \<noteq> None \<and> i64 (now - sa) \<le> (case mget (seen m) i of None \<Rightarrow> 0 | Some ts \<Rightarrow> ts)}"
proof -
  let ?P = "\<lambda>(i, _). (case mget (seen m) i of None \<Rightarrow> 0 | Some ts \<Rightarrow> ts) \<ge> i64 (now - sa)"
  let ?xs = "filter ?P (it (mpeers m))"
  have ms: "mset (it (mpeers m)) = mset (mpeers m)" by (rule iter_ok_mset[OF it])
  then have s: "set (it (mpeers m)) = set (mpeers m)" by (metis set_mset_mset)
  have wf: "wf_map (mpeers m)" using i by (simp add: mem_inv_def)
  have "mset (map fst (it (mpeers m))) = mset (map fst (mpeers m))" using ms by simp
  then have d: "distinct (map fst (it (mpeers m)))" using wf by (metis mset_eq_imp_distinct_iff)
  have "ID (meta m (snd e)) = fst e" if "e \<in> set ?xs" for e
    using that s mem_invD[OF i, of "fst e" "snd e"] mget_Some_iff[OF wf] by auto
  then have e: "map ID (map (meta m) (aliveMembers it now sa m)) = map fst ?xs"
    unfolding aliveMembers_def Let_def by simp
  show "distinct (map ID (map (meta m) (aliveMembers it now sa m)))" unfolding e using d by (simp add: distinct_map_filter)
  have "mget (mpeers m) i \<noteq> None \<longleftrightarrow> i \<in> fst ` set (mpeers m)" for i by (simp add: map_of_eq_None_iff)
  then show "set (map ID (map (meta m) (aliveMembers it now sa m))) =
      {i. mget (mpeers m) i \<noteq> None \<and> i64 (now - sa) \<le> (case mget (seen m) i of None \<Rightarrow> 0 | Some ts \<Rightarrow> ts)}"
    unfolding e using s by force
qed

section \<open>Properties\<close>

text \<open>C12. However the view of a node evolves, the ring built from its live members has each of them
  exactly once, so that its owner functions are well defined; it holds exactly the peers heard of
  within the suspicion time, and the same score is computed for a node everywhere, since its salt
  depends on its id only.\<close>

theorem ring_members_distinct:
  assumes "(memStep xx)\<^sup>*\<^sup>* newMembership m" "iter_ok it"
  shows "distinct (map ID (nodes (ringOf n m (aliveMembers it now sa m)))) \<and>
    set (map ID (nodes (ringOf n m (aliveMembers it now sa m)))) =
      {i. mget (mpeers m) i \<noteq> None \<and> i64 (now - sa) \<le> (case mget (seen m) i of None \<Rightarrow> 0 | Some ts \<Rightarrow> ts)} \<and>
    (\<forall>i a. mget (mpeers m) i = Some a \<longrightarrow> salt (meta m a) = xx i)"
proof -
  have i: "mem_inv xx m" by (rule mem_reach_inv[OF assms(1) mem_new])
  have "nodes (ringOf n m as) = map (meta m) as" for as by (simp add: ringOf_def)
  then show ?thesis using alive_ids[OF i assms(2), of now sa] mem_invD[OF i] by simp
qed

theorem ring_members_distinct_witness:
  "distinct (map ID (nodes (ringOf 2 (ensure (\<lambda>_. 1) 5 ''a'' ''x'' newMembership)
     (aliveMembers (\<lambda>xs. xs) 6 2 (ensure (\<lambda>_. 1) 5 ''a'' ''x'' newMembership)))))"
proof -
  have "(memStep (\<lambda>_. 1))\<^sup>*\<^sup>* newMembership (ensure (\<lambda>_. 1) 5 ''a'' ''x'' newMembership)"
    by (rule r_into_rtranclp) (rule step_ensure)
  then show ?thesis using ring_members_distinct[OF _ iter_ok_id] by blast
qed

end
