(* ===== verification/Wire.thy ===== *)
theory Wire
  imports Heat Membership
begin

text \<open>
  The messages of the cluster protocol (\<open>cluster/wire.go\<close>) and its errors (\<open>cluster/errors.go\<close>). A message
  extends \<open>Base\<close>, which the code embeds. Their CBOR encoding belongs to a third-party package; where a
  component encodes or decodes, the functions are parameters.
\<close>

datatype MsgType =
    MTHello | MTHelloResp | MTGet | MTGetResp | MTGetBulk | MTGetBulkResp | MTSet | MTSetResp | MTSetBulk | MTSetBulkResp
  | MTDelete | MTDeleteResp | MTLeaseLoad | MTLeaseLoadResp | MTMigratePull | MTGossip
  | MTBackfillDigestReq | MTBackfillDigestResp | MTBackfillKeysReq | MTBackfillKeysResp

record Base =
  bT :: MsgType
  bID :: u64

record MsgHello = Base +
  FromID :: string
  FromAddr :: string
  Token :: string

record MsgHelloResp = Base +
  hrOK :: bool
  hrPeerID :: string
  hrErr :: string

section \<open>Errors\<close>

datatype clusterError = ErrNoOwner | ErrTimeout | ErrClosed | ErrBadPeer | ErrNoLoader | ErrLeaseTimeout | ErrPeerClosed

text \<open>
  An error value as \<open>isFatalTransport\<close> looks at it: the sentinels found in its chain, and for a network
  error in the chain whether it reports a timeout.
\<close>

datatype sentinel = Sentinel clusterError | NetErrClosed | IoEOF | ECONNRESET | EPIPE | ECONNABORTED

record err =
  isErr :: "sentinel list"
  asNet :: "bool option"
  msg :: string

definition isFatalTransport :: "err option \<Rightarrow> bool" where
  "isFatalTransport e =
     (case e of
        None \<Rightarrow> False
      | Some e \<Rightarrow>
          if Sentinel ErrTimeout \<in> set (isErr e) then False
          else if Sentinel ErrPeerClosed \<in> set (isErr e) \<or> NetErrClosed \<in> set (isErr e) \<or> IoEOF \<in> set (isErr e) then True
          else case asNet e of
            Some timeout \<Rightarrow> \<not> timeout
          | None \<Rightarrow> ECONNRESET \<in> set (isErr e) \<or> EPIPE \<in> set (isErr e) \<or> ECONNABORTED \<in> set (isErr e))"

definition errorsNew :: "string \<Rightarrow> err" where
  "errorsNew s = \<lparr>isErr = [], asNet = None, msg = s\<rparr>"

definition errOf :: "clusterError \<Rightarrow> err" where
  "errOf e = \<lparr>isErr = [Sentinel e], asNet = None,
     msg = (case e of ErrNoOwner \<Rightarrow> ''no owner for key'' | ErrTimeout \<Rightarrow> ''timeout'' | ErrClosed \<Rightarrow> ''cluster closed''
                    | ErrBadPeer \<Rightarrow> ''bad peer response'' | ErrNoLoader \<Rightarrow> ''no loader configured on primary''
                    | ErrLeaseTimeout \<Rightarrow> ''lease timeout'' | ErrPeerClosed \<Rightarrow> ''peer closed'')\<rparr>"

lemma fatal_sentinels: "isFatalTransport (Some (errOf e)) \<longleftrightarrow> e = ErrPeerClosed"
  by (cases e) (simp_all add: isFatalTransport_def errOf_def)

lemma fatal_new [simp]: "\<not> isFatalTransport (Some (errorsNew s))"
  by (simp add: isFatalTransport_def errorsNew_def)

end
