(* ===== verification/Transport.thy ===== *)
theory Transport
  imports Wire Key_Codec
begin

text \<open>
  \<open>cluster/transport.go\<close>: length-prefixed frames on a connection, requests multiplexed over it by their
  id, and the penalty of peers that time out. A connection is the bytes received and not yet read
  and a buffered writer. The channel a request waits on is an object of a heap; a send on a closed
  or full channel and a second close, where Go panics or blocks, are \<open>None\<close>. A blocking \<open>request\<close> is cut
  at its select: its beginning, and its two ways to end. The CBOR functions are parameters.
\<close>

section \<open>Frames\<close>

record bufWriter =
  wpend :: bytes
  wsent :: bytes
  wbroken :: bool

definition ioErr :: err where
  "ioErr = \<lparr>isErr = [NetErrClosed], asNet = Some False, msg = ''use of closed network connection''\<rparr>"

definition bw_Write :: "bytes \<Rightarrow> bufWriter \<Rightarrow> err option \<times> bufWriter" where
  "bw_Write b w = (if wbroken w then (Some ioErr, w) else (None, w\<lparr>wpend := wpend w @ b\<rparr>))"

definition bw_Flush :: "bufWriter \<Rightarrow> err option \<times> bufWriter" where
  "bw_Flush w = (if wbroken w then (Some ioErr, w) else (None, w\<lparr>wpend := [], wsent := wsent w @ wpend w\<rparr>))"

definition writeFrame :: "bytes \<Rightarrow> bufWriter \<Rightarrow> err option \<times> bufWriter" where
  "writeFrame payload w =
     (case bw_Write (PutUint32 (word_of_nat (length payload))) w of
        (Some e, w) \<Rightarrow> (Some e, w)
      | (None, w) \<Rightarrow> bw_Write payload w)"

definition writeFrameBuf :: "bytes \<Rightarrow> bufWriter \<Rightarrow> err option \<times> bufWriter" where
  "writeFrameBuf payload w =
     (case writeFrame payload w of
        (Some e, w) \<Rightarrow> (Some e, w)
      | (None, w) \<Rightarrow> bw_Flush w)"

text \<open>\<open>io.ReadFull\<close> fails when the connection ends, or its deadline passes, before \<open>n\<close> bytes arrived.\<close>

definition readFull :: "nat \<Rightarrow> bytes \<Rightarrow> (err + bytes) \<times> bytes" where
  "readFull n r =
     (if length r < n then (Inl \<lparr>isErr = [IoEOF], asNet = None, msg = ''EOF''\<rparr>, []) else (Inr (take n r), drop n r))"

definition readFrame :: "int \<Rightarrow> bytes \<Rightarrow> (err + bytes) \<times> bytes" where
  "readFrame maxFrame r =
     (case readFull 4 r of
        (Inl e, r) \<Rightarrow> (Inl e, r)
      | (Inr hdr, r) \<Rightarrow>
          let n = unat (Uint32 hdr)
          in if maxFrame > 0 \<and> int n > maxFrame then (Inl (errorsNew ''frame too large''), r)
             else readFull n r)"

section \<open>Connections\<close>

record chan =
  cbuf :: "bytes list"
  cclosed :: bool




record peerConn =
  pcSelfID :: NodeID
  pcSelfAddr :: string
  peerID :: NodeID
  rd :: bytes
  wr :: bufWriter
  pend :: "(u64, addr) gomap"
  chans :: "chan heap"
  ctop :: addr
  pcClosed :: bool
  reading :: bool
  maxFrame :: int
  inflightN :: nat
  inflightCap :: nat
  pcToken :: string
  penaltyUntil :: int
  lastTimeout :: int
  toStreak :: u32


definition pc_writeFrame :: "bytes \<Rightarrow> peerConn \<Rightarrow> err option \<times> peerConn" where
  "pc_writeFrame b p = (case writeFrameBuf b (wr p) of (e, w) \<Rightarrow> (e, p\<lparr>wr := w\<rparr>))"

definition pc_readFrame :: "peerConn \<Rightarrow> (err + bytes) \<times> peerConn" where
  "pc_readFrame p = (case readFrame (maxFrame p) (rd p) of (x, r) \<Rightarrow> (x, p\<lparr>rd := r\<rparr>))"

text \<open>The handshake. \<open>answer\<close> is what the peer sends back to the bytes written so far.\<close>

definition hello ::
  "int \<Rightarrow> (MsgHello \<Rightarrow> err + bytes) \<Rightarrow> (bytes \<Rightarrow> err + Base) \<Rightarrow> (bytes \<Rightarrow> err + MsgHelloResp) \<Rightarrow> (bytes \<Rightarrow> bytes) \<Rightarrow>
     peerConn \<Rightarrow> err option \<times> peerConn" where
  "hello now marshal unBase unResp answer p =
     (case marshal \<lparr>bT = MTHello, bID = word_of_int now, FromID = pcSelfID p, FromAddr = pcSelfAddr p, Token = pcToken p\<rparr> of
        Inl e \<Rightarrow> (Some e, p)
      | Inr raw \<Rightarrow>
       (case pc_writeFrame raw p of
          (Some e, p) \<Rightarrow> (Some e, p)
        | (None, p) \<Rightarrow>
         (case pc_readFrame (p\<lparr>rd := rd p @ answer (wsent (wr p))\<rparr>) of
            (Inl e, p) \<Rightarrow> (Some e, p)
          | (Inr respRaw, p) \<Rightarrow>
           (case unBase respRaw of
              Inl e \<Rightarrow> (Some e, p)
            | Inr base \<Rightarrow>
                if bT base \<noteq> MTHelloResp then (Some (errorsNew ''bad hello resp''), p)
                else (case unResp respRaw of
                  Inl e \<Rightarrow> (Some e, p)
                | Inr hr \<Rightarrow>
                    if \<not> hrOK hr then (Some (errorsNew (if hrErr hr = [] then ''unauthorized'' else hrErr hr)), p)
                    else (None, p\<lparr>peerID := hrPeerID hr\<rparr>))))))"






definition penaltyBase :: int where "penaltyBase = 2 * 1000000000"

definition penaltyMax :: int where "penaltyMax = 8 * 1000000000"

definition backoffWindow :: int where "backoffWindow = 5 * 1000000000"

definition penalizeTimeout :: "int \<Rightarrow> peerConn \<Rightarrow> peerConn" where
  "penalizeTimeout now p =
     (let streak = (if now - lastTimeout p > backoffWindow then 1 else toStreak p + 1);
          shift = (if streak - 1 > 3 then 3 else streak - 1);
          d = push_bit (unat shift) penaltyBase;
          d = (if d > penaltyMax then penaltyMax else d)
      in p\<lparr>toStreak := streak, lastTimeout := now, penaltyUntil := i64 (now + d)\<rparr>)"

definition penalized :: "int \<Rightarrow> peerConn \<Rightarrow> bool" where
  "penalized now p \<longleftrightarrow> now < penaltyUntil p"

text \<open>\<open>request\<close>: \<open>sel\<close> is the encoded message. The token of \<open>inflightCh\<close> is given back on every return.\<close>

definition releaseSlot :: "peerConn \<Rightarrow> peerConn" where
  "releaseSlot p = p\<lparr>inflightN := inflightN p - 1\<rparr>"




section \<open>Interleavings\<close>








text \<open>A sequence of frames on the wire, written by one side and read by the other.\<close>

definition frames :: "bytes list \<Rightarrow> bytes" where
  "frames bs = concat (map (\<lambda>b. PutUint32 (word_of_nat (length b)) @ b) bs)"

fun writeAll :: "bytes list \<Rightarrow> bufWriter \<Rightarrow> err option \<times> bufWriter" where
  "writeAll [] w = (None, w)"
| "writeAll (b # bs) w = (case writeFrameBuf b w of (Some e, w) \<Rightarrow> (Some e, w) | (None, w) \<Rightarrow> writeAll bs w)"

fun readAll :: "nat \<Rightarrow> int \<Rightarrow> bytes \<Rightarrow> bytes list \<times> bytes" where
  "readAll 0 mf r = ([], r)"
| "readAll (Suc n) mf r = (case readFrame mf r of (Inl _, r) \<Rightarrow> ([], r) | (Inr b, r) \<Rightarrow> (case readAll n mf r of (bs, r) \<Rightarrow> (b # bs, r)))"

section \<open>Lemmas\<close>

subsection \<open>Frames\<close>

lemma PutUint32_length [simp]: "length (PutUint32 x) = 4"
  by (rule PutUint32_nth)

lemma writeFrameBuf_ok:
  assumes "\<not> wbroken w" "wpend w = []"
  shows "writeFrameBuf b w = (None, w\<lparr>wsent := wsent w @ PutUint32 (word_of_nat (length b)) @ b\<rparr>)"
  using assms by (simp add: writeFrameBuf_def writeFrame_def bw_Write_def bw_Flush_def)

lemma readFrame_frame:
  assumes "length b < 2 ^ 32" "mf \<le> 0 \<or> int (length b) \<le> mf"
  shows "readFrame mf (PutUint32 (word_of_nat (length b)) @ b @ r) = (Inr b, r)"
proof -
  have "unat (word_of_nat (length b) :: u32) = length b" using assms(1) by (simp add: unsigned_of_nat take_bit_nat_eq_self)
  then show ?thesis using assms(2) by (auto simp: readFrame_def readFull_def)
qed

lemma writeAll_frames:
  "\<not> wbroken w \<Longrightarrow> wpend w = [] \<Longrightarrow> writeAll bs w = (None, w\<lparr>wsent := wsent w @ frames bs\<rparr>)"
  by (induction bs arbitrary: w) (simp_all add: frames_def writeFrameBuf_ok)

lemma readAll_frames:
  "\<forall>b\<in>set bs. length b < 2 ^ 32 \<and> (mf \<le> 0 \<or> int (length b) \<le> mf) \<Longrightarrow> readAll (length bs) mf (frames bs @ r) = (bs, r)"
  by (induction bs) (simp_all add: frames_def readFrame_frame)

lemma readFrame_short:
  assumes "length b < 2 ^ 32" "n < 4 + length b"
  shows "isl (fst (readFrame mf (take n (PutUint32 (word_of_nat (length b)) @ b))))"
proof (cases "n < 4")
  case True
  then show ?thesis by (simp add: readFrame_def readFull_def)
next
  case False
  have "unat (word_of_nat (length b) :: u32) = length b" using assms(1) by (simp add: unsigned_of_nat take_bit_nat_eq_self)
  moreover have "n - 4 < length b" using False assms(2) by linarith
  ultimately show ?thesis using False by (simp add: readFrame_def readFull_def Let_def)
qed

subsection \<open>Requests\<close>













lemma releaseSlot_frame [simp]:
  "pend (releaseSlot p) = pend p" "chans (releaseSlot p) = chans p" "ctop (releaseSlot p) = ctop p" "reading (releaseSlot p) = reading p"
  "inflightN (releaseSlot p) = inflightN p - 1" "inflightCap (releaseSlot p) = inflightCap p"
  by (simp_all add: releaseSlot_def)




lemma penalizeTimeout_frame [simp]:
  "pend (penalizeTimeout now p) = pend p" "chans (penalizeTimeout now p) = chans p" "ctop (penalizeTimeout now p) = ctop p"
  "reading (penalizeTimeout now p) = reading p" "inflightN (penalizeTimeout now p) = inflightN p" "inflightCap (penalizeTimeout now p) = inflightCap p"
  by (simp_all add: penalizeTimeout_def Let_def)








subsection \<open>Penalties\<close>

text \<open>
  A first timeout costs two seconds, the second in a row four, every further one eight; the wrap of
  the streak counter to 0 still gives the maximum.
\<close>

lemma penalty_ladder:
  assumes "is_i64 (now + penaltyMax)" "0 \<le> now"
  shows "penaltyUntil (penalizeTimeout now p) - now =
    (if backoffWindow < now - lastTimeout p \<or> toStreak p = 0 then penaltyBase
     else if toStreak p = 1 then 2 * penaltyBase else penaltyMax)"
proof -
  define st where "st = (if now - lastTimeout p > backoffWindow then 1 else toStreak p + 1)"
  define sh where "sh = (if st - 1 > 3 then 3 else st - 1)"
  have i: "is_i64 (now + d)" if "0 \<le> d" "d \<le> penaltyMax" for d using assms that unfolding is_i64_def by linarith
  have e: "penaltyUntil (penalizeTimeout now p) = i64 (now + min (push_bit (unat sh) penaltyBase) penaltyMax)"
    unfolding st_def sh_def by (simp add: penalizeTimeout_def Let_def min_def)
  have d: "penaltyUntil (penalizeTimeout now p) - now = min (2 ^ unat sh * penaltyBase) penaltyMax"
    unfolding e push_bit_eq_mult using i[of "min (penaltyBase * 2 ^ unat sh) penaltyMax"]
    by (simp add: mult.commute penaltyBase_def penaltyMax_def)
  show ?thesis
  proof (cases "backoffWindow < now - lastTimeout p \<or> toStreak p = 0 \<or> toStreak p = 1")
    case True
    have one: "unat (1 :: u32) = 1" by simp
    from True have "sh = (if backoffWindow < now - lastTimeout p \<or> toStreak p = 0 then 0 else 1)"
      unfolding sh_def st_def by (auto simp: word_less_nat_alt)
    then show ?thesis using True unfolding d by (auto simp: penaltyBase_def penaltyMax_def)
  next
    case False
    then have sh: "sh = (if toStreak p > 3 then 3 else toStreak p)" unfolding sh_def st_def by simp
    have "2 \<le> unat (toStreak p)" using False by (metis One_nat_def Suc_leI less_2_cases not_le numeral_2_eq_2 unat_1 unat_eq_zero word_unat_eq_iff)
    then have "2 \<le> unat sh" unfolding sh by simp
    then have "(2::int) ^ 2 \<le> 2 ^ unat sh" by (rule power_increasing) simp
    then show ?thesis using False unfolding d by (auto simp: penaltyBase_def penaltyMax_def)
  qed
qed

section \<open>Properties\<close>

text \<open>C18. Frames survive the wire: what one side writes as frames, each within the other side's limit,
  the other side reads back as the same payloads in order, leaving the bytes that follow; and a
  frame cut short anywhere is an error, never a shorter payload.\<close>

theorem frames_round_trip:
  assumes "\<not> wbroken w" "wpend w = []" "wsent w = []" "\<forall>b\<in>set bs. length b < 2 ^ 32 \<and> (mf \<le> 0 \<or> int (length b) \<le> mf)"
    "length b < 2 ^ 32" "n < 4 + length b"
  shows "fst (writeAll bs w) = None \<and> readAll (length bs) mf (wsent (snd (writeAll bs w)) @ r) = (bs, r) \<and>
    isl (fst (readFrame mf (take n (wsent (snd (writeFrameBuf b w))))))"
  using assms readFrame_short[OF assms(5,6), of mf] by (simp add: writeAll_frames readAll_frames writeFrameBuf_ok)

theorem frames_round_trip_witness:
  "readAll (Suc (Suc 0)) 5 (wsent (snd (writeAll [[1, 2], []] \<lparr>wpend = [], wsent = [], wbroken = False\<rparr>)) @ [9]) = ([[1, 2], []], [9])"
  using frames_round_trip[of "\<lparr>wpend = [], wsent = [], wbroken = False\<rparr>" "[[1, 2], []]" 5 "[]" 0 "[9]"]
  by (simp del: writeAll.simps readAll.simps)



end
