(* ===== verification/Go_Heap.thy ===== *)
theory Go_Heap
  imports Kioshun_Prelude
begin

text \<open>
  Package \<open>container/heap\<close>: sifting over an interface with \<open>Less\<close> and \<open>Swap\<close>. Locale \<open>go_heap\<close> is what an
  implementation promises: its elements as a list, an order by a priority, a \<open>Swap\<close> that exchanges two
  elements and keeps everything else.
\<close>

function heapUp :: "(nat \<Rightarrow> nat \<Rightarrow> 'h \<Rightarrow> bool) \<Rightarrow> (nat \<Rightarrow> nat \<Rightarrow> 'h \<Rightarrow> 'h) \<Rightarrow> nat \<Rightarrow> 'h \<Rightarrow> 'h" where
  "heapUp lt swp j h =
     (let i = (j - 1) div 2
      in if i = j \<or> \<not> lt j i h then h else heapUp lt swp i (swp i j h))"
  by pat_completeness auto
termination
  by (relation "measure (\<lambda>(lt, swp, j, h). j)") auto

function heapDown :: "(nat \<Rightarrow> nat \<Rightarrow> 'h \<Rightarrow> bool) \<Rightarrow> (nat \<Rightarrow> nat \<Rightarrow> 'h \<Rightarrow> 'h) \<Rightarrow> nat \<Rightarrow> nat \<Rightarrow> 'h \<Rightarrow> nat \<times> 'h" where
  "heapDown lt swp i n h =
     (let j1 = 2 * i + 1
      in if j1 \<ge> n then (i, h)
         else let j = (if j1 + 1 < n \<and> lt (j1 + 1) j1 h then j1 + 1 else j1)
              in if \<not> lt j i h then (i, h) else heapDown lt swp j n (swp i j h))"
  by pat_completeness auto
termination
  by (relation "measure (\<lambda>(lt, swp, i, n, h). n - i)") (auto simp: Let_def split: if_splits)

declare heapUp.simps [simp del] heapDown.simps [simp del]

lemma parent_child: "0 < (j::nat) \<Longrightarrow> (j - 1) div 2 = i \<longleftrightarrow> j = 2 * i + 1 \<or> j = 2 * i + 2"
  by linarith

lemma parent_below: "0 < (j::nat) \<Longrightarrow> (j - 1) div 2 < j"
  by linarith

text \<open>
  Order on a prefix of a list of priorities: everywhere; everywhere but between a place and its
  parent; but between a place and its children; but around a place.
\<close>

definition hord :: "nat \<Rightarrow> (nat \<Rightarrow> int) \<Rightarrow> bool" where
  "hord n f \<longleftrightarrow> (\<forall>j<n. 0 < j \<longrightarrow> f ((j - 1) div 2) \<le> f j)"

definition hbridge :: "nat \<Rightarrow> nat \<Rightarrow> (nat \<Rightarrow> int) \<Rightarrow> bool" where
  "hbridge i n f \<longleftrightarrow> (\<forall>j<n. 0 < j \<and> (j - 1) div 2 = i \<and> 0 < i \<longrightarrow> f ((i - 1) div 2) \<le> f j)"

definition hup :: "nat \<Rightarrow> nat \<Rightarrow> (nat \<Rightarrow> int) \<Rightarrow> bool" where
  "hup i n f \<longleftrightarrow> (\<forall>j<n. 0 < j \<and> j \<noteq> i \<longrightarrow> f ((j - 1) div 2) \<le> f j) \<and> hbridge i n f"

definition hdown :: "nat \<Rightarrow> nat \<Rightarrow> (nat \<Rightarrow> int) \<Rightarrow> bool" where
  "hdown i n f \<longleftrightarrow> (\<forall>j<n. 0 < j \<and> (j - 1) div 2 \<noteq> i \<longrightarrow> f ((j - 1) div 2) \<le> f j) \<and> hbridge i n f"

definition hexc :: "nat \<Rightarrow> nat \<Rightarrow> (nat \<Rightarrow> int) \<Rightarrow> bool" where
  "hexc i n f \<longleftrightarrow> (\<forall>j<n. 0 < j \<and> j \<noteq> i \<and> (j - 1) div 2 \<noteq> i \<longrightarrow> f ((j - 1) div 2) \<le> f j) \<and> hbridge i n f"

lemma hord_min: "hord n f \<Longrightarrow> i < n \<Longrightarrow> f 0 \<le> f i"
proof (induction i rule: less_induct)
  case (less i)
  show ?case
  proof (cases "i = 0")
    case False
    then have p: "(i - 1) div 2 < i" by (intro parent_below) simp
    moreover have "f ((i - 1) div 2) \<le> f i" using less.prems False by (simp add: hord_def)
    ultimately show ?thesis using less.IH[OF p less.prems(1)] less.prems(2) by linarith
  qed simp
qed

lemma hup_swap:
  assumes u: "hup i n f" and i: "i < n" "0 < i" "f i < f ((i - 1) div 2)"
    and g: "g = f(i := f ((i - 1) div 2), (i - 1) div 2 := f i)"
  shows "hup ((i - 1) div 2) n g"
proof -
  define p where "p = (i - 1) div 2"
  have pi: "p < i" unfolding p_def by (rule parent_below[OF i(2)])
  have W: "g x = (if x = p then f i else if x = i then f p else f x)" for x by (simp add: g p_def)
  have U1: "f ((j - 1) div 2) \<le> f j" if "j < n" "0 < j" "j \<noteq> i" for j using u that by (simp add: hup_def)
  have U2: "f p \<le> f j" if "j < n" "0 < j" "(j - 1) div 2 = i" for j using u that i(2) by (simp add: hup_def hbridge_def p_def)
  have lt: "f i < f p" using i(3) by (simp add: p_def)
  have "g ((j - 1) div 2) \<le> g j" if j: "j < n" "0 < j" "j \<noteq> p" for j
  proof (cases "j = i")
    case True
    then have jp: "(j - 1) div 2 = p" by (simp add: p_def)
    show ?thesis using lt pi True unfolding W jp by simp
  next
    case False
    have "(j - 1) div 2 \<noteq> j" using parent_below[OF j(2)] by simp
    then show ?thesis using U1[OF j(1,2) False] U2[OF j(1,2)] lt j(3) False unfolding W by auto
  qed
  moreover have "g ((p - 1) div 2) \<le> g j" if j: "j < n" "0 < j" "(j - 1) div 2 = p" "0 < p" for j
  proof -
    have q: "(p - 1) div 2 < p" by (rule parent_below[OF j(4)])
    have "f ((p - 1) div 2) \<le> f p" using U1[of p] pi i(1) j(4) by simp
    moreover have "f p \<le> f j" if "j \<noteq> i" using U1[of j] j that by simp
    moreover have "j \<noteq> p" using parent_below[OF j(2)] j(3) by simp
    ultimately show ?thesis using q pi unfolding W by (auto intro: order_trans)
  qed
  ultimately show ?thesis unfolding hup_def hbridge_def p_def[symmetric] by simp
qed

text \<open>Exchanging a place with its least child leaves the order to be restored below.\<close>

lemma hexc_swap:
  assumes d: "hexc i n f" and m: "m < n" "0 < m" "(m - 1) div 2 = i" "f m < f i"
    and least: "\<And>j. j < n \<Longrightarrow> 0 < j \<Longrightarrow> (j - 1) div 2 = i \<Longrightarrow> f m \<le> f j"
    and g: "g = f(i := f m, m := f i)"
  shows "hdown m n g"
proof -
  have im: "i < m" using parent_below[OF m(2)] m(3) by simp
  have W: "g x = (if x = m then f i else if x = i then f m else f x)" for x by (simp add: g)
  have D1: "f ((j - 1) div 2) \<le> f j" if "j < n" "0 < j" "j \<noteq> i" "(j - 1) div 2 \<noteq> i" for j using d that by (simp add: hexc_def)
  have D2: "f ((i - 1) div 2) \<le> f j" if "j < n" "0 < j" "(j - 1) div 2 = i" "0 < i" for j using d that by (simp add: hexc_def hbridge_def)
  have "g ((j - 1) div 2) \<le> g j" if j: "j < n" "0 < j" "(j - 1) div 2 \<noteq> m" for j
  proof (cases "(j - 1) div 2 = i")
    case True
    then have "j \<noteq> i" using parent_below[OF j(2)] by simp
    then show ?thesis using True least[OF j(1,2)] m(4) im unfolding W by auto
  next
    case False
    have jm: "j \<noteq> m" using False m(3) by auto
    show ?thesis
    proof (cases "j = i")
      case True
      then show ?thesis using D2[OF m(1-3)] j False jm im unfolding W by auto
    next
      case ji: False
      then show ?thesis using D1[OF j(1,2) ji False] j False jm unfolding W by auto
    qed
  qed
  moreover have "g ((m - 1) div 2) \<le> g j" if j: "j < n" "0 < j" "(j - 1) div 2 = m" for j
  proof -
    have "m < j" using parent_below[OF j(2)] j(3) by simp
    then show ?thesis using D1[of j] j im unfolding W m(3) by auto
  qed
  ultimately show ?thesis unfolding hdown_def hbridge_def by simp
qed

lemma hdown_exc: "hdown i n f \<Longrightarrow> hexc i n f" and hup_exc: "hup i n f \<Longrightarrow> hexc i n f"
  by (simp_all add: hdown_def hup_def hexc_def)

lemma hord_mono: "hord n f \<Longrightarrow> m \<le> n \<Longrightarrow> hord m f"
  by (simp add: hord_def)

lemma hord_cong: "hord n f \<Longrightarrow> (\<And>x. x < n \<Longrightarrow> g x = f x) \<Longrightarrow> hord n g"
  unfolding hord_def using parent_below by (metis order_less_trans)

lemma hord_exc: "hord n f \<Longrightarrow> i < n \<Longrightarrow> hbridge i n f"
  unfolding hbridge_def
proof (intro allI impI)
  fix j assume "hord n f" "i < n" and j: "j < n" "0 < j \<and> (j - 1) div 2 = i \<and> 0 < i"
  then have "f ((i - 1) div 2) \<le> f i" "f i \<le> f j" unfolding hord_def by blast+
  then show "f ((i - 1) div 2) \<le> f j" by linarith
qed

locale go_heap =
  fixes elems :: "'h \<Rightarrow> 'a list" and prio :: "'h \<Rightarrow> 'a \<Rightarrow> int"
    and lt :: "nat \<Rightarrow> nat \<Rightarrow> 'h \<Rightarrow> bool" and swp :: "nat \<Rightarrow> nat \<Rightarrow> 'h \<Rightarrow> 'h"
    and ok :: "'h \<Rightarrow> bool" and frm :: "'h \<Rightarrow> 'r"
  assumes lt_prio: "lt i j h \<longleftrightarrow> prio h (elems h ! i) < prio h (elems h ! j)"
    and elems_swp: "ok h \<Longrightarrow> i < length (elems h) \<Longrightarrow> j < length (elems h) \<Longrightarrow> elems (swp i j h) = (elems h)[i := elems h ! j, j := elems h ! i]"
    and ok_swp: "ok h \<Longrightarrow> i < length (elems h) \<Longrightarrow> j < length (elems h) \<Longrightarrow> ok (swp i j h)"
    and prio_swp: "prio (swp i j h) = prio h"
    and frm_swp: "ok h \<Longrightarrow> i < length (elems h) \<Longrightarrow> j < length (elems h) \<Longrightarrow> frm (swp i j h) = frm h"
begin

definition hp :: "'h \<Rightarrow> nat \<Rightarrow> int" where
  "hp h x = prio h (elems h ! x)"

definition keeps :: "nat \<Rightarrow> 'h \<Rightarrow> 'h \<Rightarrow> bool" where
  "keeps n h h' \<longleftrightarrow> ok h' \<and> mset (elems h') = mset (elems h) \<and> prio h' = prio h \<and> frm h' = frm h \<and>
     (\<forall>x<length (elems h). n \<le> x \<longrightarrow> elems h' ! x = elems h ! x)"

lemma keeps_refl: "ok h \<Longrightarrow> keeps n h h"
  by (simp add: keeps_def)

lemma keeps_length: "keeps n h h' \<Longrightarrow> length (elems h') = length (elems h)"
  unfolding keeps_def by (metis size_mset)

lemma keeps_trans: "keeps n h h' \<Longrightarrow> keeps n h' h'' \<Longrightarrow> keeps n h h''"
  using keeps_length[of n h h'] unfolding keeps_def by simp

lemma swap_keeps:
  assumes "ok h" "i < n" "j < n" "n \<le> length (elems h)" "i \<noteq> j"
  shows "keeps n h (swp i j h)" "hp (swp i j h) = (hp h)(i := hp h j, j := hp h i)"
proof -
  have l: "i < length (elems h)" "j < length (elems h)" using assms by simp_all
  note E = elems_swp[OF assms(1) l]
  have "mset (elems (swp i j h)) = mset (elems h)" unfolding E by (rule mset_swap[OF l(2) l(1)])
  then show "keeps n h (swp i j h)" using assms ok_swp[OF assms(1) l] prio_swp frm_swp[OF assms(1) l] E by (simp add: keeps_def)
  show "hp (swp i j h) = (hp h)(i := hp h j, j := hp h i)"
    using l assms(5) by (auto simp: hp_def fun_eq_iff E prio_swp nth_list_update)
qed

lemma up_ok:
  assumes "ok h" "i < n" "n \<le> length (elems h)" "hup i n (hp h)"
  shows "keeps n h (heapUp lt swp i h) \<and> hord n (hp (heapUp lt swp i h))"
  using assms
proof (induction i arbitrary: h rule: less_induct)
  case (less i)
  let ?p = "(i - 1) div 2"
  show ?case
  proof (cases "?p = i \<or> \<not> lt i ?p h")
    case True
    then have e: "heapUp lt swp i h = h" by (subst heapUp.simps) (simp add: Let_def)
    have "hp h ?p \<le> hp h i" if "0 < i" using True parent_below[OF that] by (simp add: lt_prio hp_def)
    then have "hord n (hp h)" using less.prems(4) unfolding hord_def hup_def by metis
    then show ?thesis using e keeps_refl[OF less.prems(1)] by simp
  next
    case False
    have i: "0 < i" using False by (cases "i = 0") auto
    note p = parent_below[OF i]
    have e: "heapUp lt swp i h = heapUp lt swp ?p (swp ?p i h)" using False by (subst heapUp.simps) (simp add: Let_def)
    have W: "keeps n h (swp ?p i h)" "hp (swp ?p i h) = (hp h)(?p := hp h i, i := hp h ?p)"
      using swap_keeps[OF less.prems(1), of ?p n i] p less.prems(2,3) by simp_all
    have "hup ?p n (hp (swp ?p i h))"
      by (rule hup_swap[OF less.prems(4,2) i]) (use False p W(2) in \<open>auto simp: lt_prio hp_def fun_upd_twist\<close>)
    moreover have "ok (swp ?p i h)" using W(1) by (simp add: keeps_def)
    ultimately have "keeps n (swp ?p i h) (heapUp lt swp ?p (swp ?p i h)) \<and> hord n (hp (heapUp lt swp ?p (swp ?p i h)))"
      using less.IH[OF p] p less.prems(2,3) keeps_length[OF W(1)] by simp
    then show ?thesis unfolding e using keeps_trans[OF W(1)] by blast
  qed
qed

text \<open>One round of sifting down from a place around which the order may be broken.\<close>

lemma down_round:
  assumes h: "ok h" "n \<le> length (elems h)" and x: "hexc i n (hp h)"
  shows "heapDown lt swp i n h = (i, h) \<and> hup i n (hp h) \<or>
    (\<exists>m. i < m \<and> m < n \<and> heapDown lt swp i n h = heapDown lt swp m n (swp i m h) \<and> keeps n h (swp i m h) \<and> hdown m n (hp (swp i m h)))"
proof -
  let ?l = "2 * i + 1"
  define m where "m = (if ?l + 1 < n \<and> lt (?l + 1) ?l h then ?l + 1 else ?l)"
  have e: "heapDown lt swp i n h = (if ?l \<ge> n then (i, h) else if \<not> lt m i h then (i, h) else heapDown lt swp m n (swp i m h))"
    by (subst heapDown.simps) (simp add: Let_def m_def)
  have par: "(m - 1) div 2 = i" "0 < m" "i < m" by (auto simp: m_def)
  have least: "hp h m \<le> hp h j" if "j < n" "0 < j" "(j - 1) div 2 = i" for j
  proof -
    have "j = ?l \<or> j = ?l + 1" using parent_child[OF that(2)] that(3) by auto
    then show ?thesis using that(1) by (auto simp: m_def lt_prio hp_def)
  qed
  consider "?l \<ge> n" | "?l < n" "\<not> lt m i h" | "?l < n" "lt m i h" by linarith
  then show ?thesis
  proof cases
    case 1
    then have "(j - 1) div 2 \<noteq> i" if "j < n" "0 < j" for j using that by linarith
    then show ?thesis using e 1 x by (simp add: hup_def hexc_def)
  next
    case 2
    have "hp h ((j - 1) div 2) \<le> hp h j" if "j < n" "0 < j" "j \<noteq> i" for j
      using that least[of j] 2 x by (cases "(j - 1) div 2 = i") (auto simp: hexc_def lt_prio hp_def)
    then show ?thesis using e 2 x by (simp add: hup_def hexc_def)
  next
    case 3
    have ml: "m < n" "i < n" "i \<noteq> m" using 3(1) par by (auto simp: m_def)
    note W = swap_keeps[OF h(1) ml(2,1) h(2) ml(3)]
    have "hdown m n (hp (swp i m h))"
      by (rule hexc_swap[OF x ml(1) par(2,1) _ least W(2)]) (use 3(2) in \<open>auto simp: lt_prio hp_def\<close>)
    then show ?thesis using e 3 ml(1) par(3) W(1) by auto
  qed
qed

lemma down_ok:
  assumes "ok h" "n \<le> length (elems h)" "hdown i n (hp h)"
  shows "keeps n h (snd (heapDown lt swp i n h)) \<and> hord n (hp (snd (heapDown lt swp i n h))) \<and> i \<le> fst (heapDown lt swp i n h)"
  using assms
proof (induction "n - i" arbitrary: i h rule: less_induct)
  case less
  from down_round[OF less.prems(1,2) hdown_exc[OF less.prems(3)]]
  consider "heapDown lt swp i n h = (i, h)" "hup i n (hp h)"
    | m where "i < m" "m < n" "heapDown lt swp i n h = heapDown lt swp m n (swp i m h)" "keeps n h (swp i m h)" "hdown m n (hp (swp i m h))" by blast
  then show ?case
  proof cases
    case 1
    have "hord n (hp h)" unfolding hord_def
    proof (intro allI impI)
      fix j assume j: "j < n" "0 < j"
      show "hp h ((j - 1) div 2) \<le> hp h j"
        using 1(2) less.prems(3) j parent_below[OF j(2)] unfolding hup_def hdown_def by (cases "j = i") auto
    qed
    then show ?thesis using 1(1) keeps_refl[OF less.prems(1)] by simp
  next
    case 2
    have "ok (swp i m h)" "n \<le> length (elems (swp i m h))" using 2(4) keeps_length[OF 2(4)] less.prems(2) by (simp_all add: keeps_def)
    moreover have "n - m < n - i" using 2(1,2) by linarith
    ultimately show ?thesis using less.hyps[of m "swp i m h"] 2 keeps_trans[OF 2(4)] by auto
  qed
qed

text \<open>\<open>Remove\<close> sifts down, and up where that changed nothing.\<close>

lemma fix_ok:
  assumes "ok h" "i < n" "n \<le> length (elems h)" "hexc i n (hp h)" "heapDown lt swp i n h = (i', h')"
  shows "keeps n h (if i < i' then h' else heapUp lt swp i h') \<and> hord n (hp (if i < i' then h' else heapUp lt swp i h'))"
proof -
  from down_round[OF assms(1,3,4)]
  consider "heapDown lt swp i n h = (i, h)" "hup i n (hp h)"
    | m where "i < m" "heapDown lt swp i n h = heapDown lt swp m n (swp i m h)" "keeps n h (swp i m h)" "hdown m n (hp (swp i m h))" by blast
  then show ?thesis
  proof cases
    case 1
    then show ?thesis using up_ok[OF assms(1-3) 1(2)] assms(5) by simp
  next
    case 2
    have "ok (swp i m h)" "n \<le> length (elems (swp i m h))" using 2(3) keeps_length[OF 2(3)] assms(3) by (simp_all add: keeps_def)
    note D = down_ok[OF this 2(4)]
    then show ?thesis using assms(5) 2(1,2) keeps_trans[OF 2(3)] by auto
  qed
qed

end

end
