(* ===== verification/Handoff.thy ===== *)
theory Handoff
  imports Go_Heap Wire
begin

text \<open>
  \<open>cluster/handoff.go\<close>: hints for peers that missed a write. A hint is an object of the heap \<open>hints\<close>. The
  ready list holds pairs of a list element and the hint it carries; the delayed hints are a
  \<open>container/heap\<close> by the time of their next attempt, and each knows its place there.
\<close>

section \<open>Hints\<close>

record hintItem =
  hkey :: bytes
  hval :: bytes
  hexp :: int
  hver :: u64
  hcp :: bool
  isDel :: bool
  addedAt :: int
  nextAt :: int
  tries :: int
  hsize :: int
  elem :: addr
  heapIndex :: int

definition hint_expired :: "int \<Rightarrow> int \<Rightarrow> hintItem \<Rightarrow> bool" where
  "hint_expired ttl now h =
     (if ttl > 0 \<and> i64 (now - addedAt h) \<ge> ttl then True
      else if hexp h > 0 \<and> now \<ge> hexp h \<and> \<not> isDel h then True
      else False)"

datatype DropPolicy = DropOldest | DropNewest | DropNone

record HandoffConfig =
  hcEnable :: "bool option"
  hcPause :: bool
  hcMaxItems :: int
  hcMaxBytes :: int
  PerPeerCap :: int
  PerPeerBytes :: int
  hcTTL :: int
  ReplayRPS :: int
  hcDropPolicy :: DropPolicy
  AutopauseItems :: int
  AutopauseBytes :: int

definition IsEnabled :: "HandoffConfig \<Rightarrow> bool" where
  "IsEnabled h = (case hcEnable h of None \<Rightarrow> True | Some b \<Rightarrow> b)"

record hintQueue =
  hindex :: "(bytes, addr) gomap"
  ready :: "(addr \<times> addr) list"
  delayed :: "addr list"
  qbytes :: int
  qitems :: int
  maxItems :: int
  maxBytes :: int
  qttl :: int
  qdrop :: DropPolicy
  hints :: "hintItem heap"
  etop :: addr

definition noHint :: hintItem where
  "noHint = \<lparr>hkey = [], hval = [], hexp = 0, hver = 0, hcp = False, isDel = False, addedAt = 0, nextAt = 0, tries = 0, hsize = 0,
     elem = 0, heapIndex = 0\<rparr>"

abbreviation hint :: "hintQueue \<Rightarrow> addr \<Rightarrow> hintItem" where
  "hint q \<equiv> hget noHint (hints q)"

definition setHint :: "addr \<Rightarrow> (hintItem \<Rightarrow> hintItem) \<Rightarrow> hintQueue \<Rightarrow> hintQueue" where
  "setHint a f q = q\<lparr>hints := mput a (f (hint q a)) (hints q)\<rparr>"

section \<open>The heap of delayed hints\<close>

definition dh_Less :: "nat \<Rightarrow> nat \<Rightarrow> hintQueue \<Rightarrow> bool" where
  "dh_Less i j q \<longleftrightarrow> nextAt (hint q (delayed q ! i)) < nextAt (hint q (delayed q ! j))"

definition dh_Swap :: "nat \<Rightarrow> nat \<Rightarrow> hintQueue \<Rightarrow> hintQueue" where
  "dh_Swap i j q =
     (let q = q\<lparr>delayed := (delayed q)[i := delayed q ! j, j := delayed q ! i]\<rparr>;
          q = setHint (delayed q ! i) (\<lambda>h. h\<lparr>heapIndex := int i\<rparr>) q
      in setHint (delayed q ! j) (\<lambda>h. h\<lparr>heapIndex := int j\<rparr>) q)"

definition dh_Push :: "addr \<Rightarrow> hintQueue \<Rightarrow> hintQueue" where
  "dh_Push a q = (setHint a (\<lambda>h. h\<lparr>heapIndex := int (length (delayed q))\<rparr>) q)\<lparr>delayed := delayed q @ [a]\<rparr>"

definition dh_Pop :: "hintQueue \<Rightarrow> addr \<times> hintQueue" where
  "dh_Pop q =
     (let n = length (delayed q); it = delayed q ! (n - 1)
      in (it, setHint it (\<lambda>h. h\<lparr>heapIndex := - 1\<rparr>) (q\<lparr>delayed := take (n - 1) (delayed q)\<rparr>)))"

definition heap_Push :: "addr \<Rightarrow> hintQueue \<Rightarrow> hintQueue" where
  "heap_Push a q = (let q = dh_Push a q in heapUp dh_Less dh_Swap (length (delayed q) - 1) q)"

definition heap_Pop :: "hintQueue \<Rightarrow> addr \<times> hintQueue" where
  "heap_Pop q = (let n = length (delayed q) - 1 in dh_Pop (snd (heapDown dh_Less dh_Swap 0 n (dh_Swap 0 n q))))"

definition heap_Remove :: "nat \<Rightarrow> hintQueue \<Rightarrow> addr \<times> hintQueue" where
  "heap_Remove i q =
     (let n = length (delayed q) - 1
      in dh_Pop (if n \<noteq> i
                 then (case heapDown dh_Less dh_Swap i n (dh_Swap i n q) of
                         (i', q) \<Rightarrow> if i < i' then q else heapUp dh_Less dh_Swap i q)
                 else q))"

lemma dh_Swap_length [simp]: "length (delayed (dh_Swap i j q)) = length (delayed q)"
  by (simp add: dh_Swap_def setHint_def Let_def)

lemma heapDown_length [simp]: "length (delayed (snd (heapDown dh_Less dh_Swap i n q))) = length (delayed q)"
proof (induction dh_Less dh_Swap i n q rule: heapDown.induct)
  case (1 i n q)
  then show ?case by (subst heapDown.simps) (auto simp: Let_def split: if_splits)
qed

lemma heap_Pop_length: "length (delayed (snd (heap_Pop q))) = length (delayed q) - 1"
  by (simp add: heap_Pop_def dh_Pop_def setHint_def Let_def)

section \<open>The queue of a peer\<close>

definition newHintQueue :: "HandoffConfig \<Rightarrow> hintQueue" where
  "newHintQueue cfg =
     \<lparr>hindex = [], ready = [], delayed = [], qbytes = 0, qitems = 0, maxItems = PerPeerCap cfg, maxBytes = PerPeerBytes cfg,
      qttl = hcTTL cfg, qdrop = hcDropPolicy cfg, hints = [], etop = 1\<rparr>"

definition readyPushBack :: "addr \<Rightarrow> hintQueue \<Rightarrow> hintQueue" where
  "readyPushBack a q =
     setHint a (\<lambda>h. h\<lparr>elem := etop q\<rparr>) (q\<lparr>ready := ready q @ [(etop q, a)], etop := etop q + 1\<rparr>)"

definition removeItem :: "addr \<Rightarrow> hintQueue \<Rightarrow> hintQueue" where
  "removeItem a q =
     (let it = hint q a;
          q = q\<lparr>hindex := mdel (hkey it) (hindex q)\<rparr>;
          q = (if elem it \<noteq> 0
               then setHint a (\<lambda>h. h\<lparr>elem := 0\<rparr>) (q\<lparr>ready := filter (\<lambda>(e, _). e \<noteq> elem it) (ready q)\<rparr>)
               else if heapIndex it \<ge> 0 then snd (heap_Remove (nat (heapIndex it)) q)
               else q)
      in q\<lparr>qitems := qitems q - 1, qbytes := qbytes q - hsize it\<rparr>)"

lemma due_shrinks: "delayed q = front # rest \<Longrightarrow> (it, q') = heap_Pop q \<Longrightarrow> length (delayed (readyPushBack it q')) < Suc (length rest)"
proof -
  assume h: "delayed q = front # rest" "(it, q') = heap_Pop q"
  have "q' = snd (heap_Pop q)" using h(2) by (metis snd_conv)
  then show ?thesis using heap_Pop_length[of q] h(1) by (simp add: readyPushBack_def setHint_def)
qed

function moveDueLocked :: "int \<Rightarrow> hintQueue \<Rightarrow> hintQueue" where
  "moveDueLocked now q =
     (case delayed q of
        [] \<Rightarrow> q
      | front # _ \<Rightarrow>
          if nextAt (hint q front) > now then q
          else case heap_Pop q of (it, q) \<Rightarrow> moveDueLocked now (readyPushBack it q))"
  by pat_completeness auto
termination
  by (relation "measure (\<lambda>(now, q). length (delayed q))") (auto simp: due_shrinks)

declare moveDueLocked.simps [simp del]

definition overCap :: "int \<Rightarrow> int \<Rightarrow> hintQueue \<Rightarrow> bool" where
  "overCap items bs q \<longleftrightarrow> (maxItems q > 0 \<and> items > maxItems q) \<or> (maxBytes q > 0 \<and> bs > maxBytes q)"

definition tryDropReady :: "addr \<Rightarrow> hintQueue \<Rightarrow> ((int \<times> int) \<times> hintQueue) option" where
  "tryDropReady avoid q =
     (case ready q of
        [] \<Rightarrow> None
      | (_, h) # _ \<Rightarrow> if h = avoid then None else Some ((1, hsize (hint q h)), removeItem h q))"

definition tryDropDelayed :: "addr \<Rightarrow> hintQueue \<Rightarrow> ((int \<times> int) \<times> hintQueue) option" where
  "tryDropDelayed avoid q =
     (case delayed q of
        [] \<Rightarrow> None
      | front # _ \<Rightarrow>
          if front = avoid then None
          else case heap_Pop q of
            (it, q) \<Rightarrow> Some ((1, hsize (hint q it)),
              q\<lparr>hindex := mdel (hkey (hint q it)) (hindex q), qitems := qitems q - 1, qbytes := qbytes q - hsize (hint q it)\<rparr>))"

definition dropOldest :: "addr \<Rightarrow> hintQueue \<Rightarrow> (int \<times> int) \<times> hintQueue" where
  "dropOldest avoid q =
     (case tryDropReady avoid q of
        Some r \<Rightarrow> r
      | None \<Rightarrow> (case tryDropDelayed avoid q of Some r \<Rightarrow> r | None \<Rightarrow> ((0, 0), q)))"

text \<open>The loops of \<open>enqueue\<close> that drop until the caps hold; the flag tells whether they do.\<close>

partial_function (option) dropLoop :: "addr \<Rightarrow> int \<Rightarrow> int \<Rightarrow> hintQueue \<Rightarrow> ((bool \<times> int \<times> int) \<times> hintQueue) option" where
  "dropLoop avoid dB dI q =
     (if \<not> overCap (qitems q) (qbytes q) q then Some ((True, dB, dI), q)
      else case dropOldest avoid q of
        ((dc, db), q) \<Rightarrow> if dc = 0 then Some ((False, dB, dI), q) else dropLoop avoid (dB + db) (dI + dc) q)"

declare dropLoop.simps [code]

definition replaceHint :: "addr \<Rightarrow> addr \<Rightarrow> hintQueue \<Rightarrow> hintQueue" where
  "replaceHint it old q =
     (let ol = hint q old;
          q = (if heapIndex ol \<ge> 0 then setHint it (\<lambda>h. h\<lparr>nextAt := nextAt ol, tries := tries ol\<rparr>) q else q);
          q = (if elem ol \<noteq> 0
               then setHint it (\<lambda>h. h\<lparr>elem := elem ol, heapIndex := - 1\<rparr>)
                      (q\<lparr>ready := map (\<lambda>(e, v). if e = elem ol then (e, it) else (e, v)) (ready q)\<rparr>)
               else setHint it (\<lambda>h. h\<lparr>heapIndex := heapIndex ol, elem := 0\<rparr>)
                      (q\<lparr>delayed := (delayed q)[nat (heapIndex ol) := it]\<rparr>))
      in q\<lparr>qbytes := qbytes q + (hsize (hint q it) - hsize ol), hindex := mput (hkey (hint q it)) it (hindex q)\<rparr>)"

text \<open>Lines 225--235: the replacement is undone after the drops.\<close>

definition revertReplace :: "bool \<Rightarrow> addr \<Rightarrow> addr \<Rightarrow> int \<Rightarrow> hintQueue \<Rightarrow> hintQueue" where
  "revertReplace wasReady it old delta q =
     (let i = hint q it;
          q = (if wasReady
               then setHint it (\<lambda>h. h\<lparr>elem := 0\<rparr>) (setHint old (\<lambda>h. h\<lparr>elem := elem i\<rparr>)
                      (q\<lparr>ready := map (\<lambda>(e, v). if e = elem i then (e, old) else (e, v)) (ready q)\<rparr>))
               else setHint it (\<lambda>h. h\<lparr>heapIndex := - 1\<rparr>) (setHint old (\<lambda>h. h\<lparr>heapIndex := heapIndex i\<rparr>)
                      (q\<lparr>delayed := (delayed q)[nat (heapIndex i) := old]\<rparr>)))
      in q\<lparr>hindex := mput (hkey i) old (hindex q), qbytes := qbytes q - delta\<rparr>)"

text \<open>Lines 244--250: the replacement is undone where nothing was dropped.\<close>

definition restoreOld :: "addr \<Rightarrow> addr \<Rightarrow> int \<Rightarrow> hintQueue \<Rightarrow> hintQueue" where
  "restoreOld it old delta q =
     (let ol = hint q old;
          q = (if elem ol \<noteq> 0 then q\<lparr>ready := map (\<lambda>(e, v). if e = elem ol then (e, old) else (e, v)) (ready q)\<rparr>
               else if heapIndex ol \<ge> 0 then q\<lparr>delayed := (delayed q)[nat (heapIndex ol) := old]\<rparr>
               else q)
      in q\<lparr>hindex := mput (hkey (hint q it)) old (hindex q), qbytes := qbytes q - delta\<rparr>)"

definition coalesce :: "addr \<Rightarrow> addr \<Rightarrow> hintQueue \<Rightarrow> ((bool \<times> int \<times> int) \<times> hintQueue) option" where
  "coalesce it old q =
     (if hver (hint q it) \<le> hver (hint q old) then Some ((False, 0, 0), q)
      else let wasReady = (elem (hint q old) \<noteq> 0);
               delta = hsize (hint q it) - hsize (hint q old);
               q = replaceHint it old q
           in if overCap (qitems q) (qbytes q) q
              then (case qdrop q of
                      DropOldest \<Rightarrow>
                       (case dropLoop it 0 0 q of
                          None \<Rightarrow> None
                        | Some ((True, dB, dI), q) \<Rightarrow> Some ((True, delta - dB, - dI), q)
                        | Some ((False, dB, dI), q) \<Rightarrow> Some ((False, dB, - dI), revertReplace wasReady it old delta q))
                    | _ \<Rightarrow> Some ((False, 0, 0), restoreOld it old delta q))
              else Some ((True, delta, 0), q))"

text \<open>A new hint goes to the heap or to the end of the ready list.\<close>

definition placeNew :: "int \<Rightarrow> addr \<Rightarrow> hintQueue \<Rightarrow> hintQueue" where
  "placeNew now it q =
     (if nextAt (hint q it) > now then setHint it (\<lambda>h. h\<lparr>elem := 0\<rparr>) (heap_Push it q)
      else setHint it (\<lambda>h. h\<lparr>heapIndex := - 1\<rparr>) (readyPushBack it q))"

definition insertHint :: "int \<Rightarrow> addr \<Rightarrow> hintQueue \<Rightarrow> ((bool \<times> int \<times> int) \<times> hintQueue) option" where
  "insertHint now it q =
     (let q = placeNew now it q;
          k = hkey (hint q it);
          q = q\<lparr>hindex := mput k it (hindex q), qitems := qitems q + 1, qbytes := qbytes q + hsize (hint q it)\<rparr>;
          undo = (\<lambda>q. let q = removeItem it q in q\<lparr>hindex := mdel k (hindex q)\<rparr>)
      in if overCap (qitems q) (qbytes q) q
         then (case qdrop q of
                 DropOldest \<Rightarrow>
                  (case dropLoop it 0 0 q of
                     None \<Rightarrow> None
                   | Some ((True, dB, dI), q) \<Rightarrow> Some ((True, hsize (hint q it) - dB, 1 - dI), q)
                   | Some ((False, dB, dI), q) \<Rightarrow> Some ((False, - dB, - dI), undo q))
               | _ \<Rightarrow> Some ((False, 0, 0), undo q))
         else Some ((True, hsize (hint q it), 1), q))"

definition enqueue :: "int \<Rightarrow> addr \<Rightarrow> hintQueue \<Rightarrow> ((bool \<times> int \<times> int) \<times> hintQueue) option" where
  "enqueue now it q =
     (if hint_expired (qttl q) now (hint q it) then Some ((False, 0, 0), q)
      else case mget (hindex q) (hkey (hint q it)) of
        Some old \<Rightarrow> coalesce it old q
      | None \<Rightarrow> insertHint now it q)"

partial_function (option) popLoop :: "int \<Rightarrow> hintQueue \<Rightarrow> (addr option \<times> hintQueue) option" where
  "popLoop now q =
     (case ready q of
        [] \<Rightarrow> Some (None, q)
      | (_, it) # _ \<Rightarrow>
          if hint_expired (qttl q) now (hint q it) then popLoop now (removeItem it q)
          else Some (Some it, removeItem it q))"

declare popLoop.simps [code]

definition popReady :: "int \<Rightarrow> hintQueue \<Rightarrow> (addr option \<times> hintQueue) option" where
  "popReady now q = popLoop now (moveDueLocked now q)"

definition requeue :: "int \<Rightarrow> addr \<Rightarrow> hintQueue \<Rightarrow> hintQueue option" where
  "requeue now it q = map_option snd (enqueue now it q)"

definition queue_stats :: "hintQueue \<Rightarrow> int \<times> int" where
  "queue_stats q = (qitems q, qbytes q)"

section \<open>Invariant\<close>

text \<open>Each delayed hint knows its place; \<open>qframe\<close> is what sifting leaves alone.\<close>

definition pos_ok :: "hintQueue \<Rightarrow> bool" where
  "pos_ok q \<longleftrightarrow> distinct (delayed q) \<and> (\<forall>i<length (delayed q). heapIndex (hint q (delayed q ! i)) = int i)"

definition qframe :: "hintQueue \<Rightarrow> (addr \<Rightarrow> hintItem) \<times> hintQueue" where
  "qframe q = (\<lambda>a. (hint q a)\<lparr>heapIndex := if a \<in> set (delayed q) then 0 else heapIndex (hint q a)\<rparr>, q\<lparr>delayed := [], hints := []\<rparr>)"

definition hkeep :: "addr \<Rightarrow> hintQueue \<Rightarrow> hintQueue \<Rightarrow> bool" where
  "hkeep a q q' \<longleftrightarrow> (\<forall>b. (hint q' b)\<lparr>heapIndex := 0\<rparr> = (hint q b)\<lparr>heapIndex := 0\<rparr>) \<and>
     (\<forall>b. b \<notin> set (delayed q) \<and> b \<noteq> a \<longrightarrow> hint q' b = hint q b) \<and> q'\<lparr>delayed := [], hints := []\<rparr> = q\<lparr>delayed := [], hints := []\<rparr>"

section \<open>Lemmas\<close>

subsection \<open>The delayed hints are a heap\<close>

lemma hint_setHint: "hint (setHint a f q) b = (if b = a then f (hint q a) else hint q b)"
  by (simp add: setHint_def)

lemma setHint_fields [simp]:
  "hindex (setHint a f q) = hindex q" "ready (setHint a f q) = ready q" "delayed (setHint a f q) = delayed q" "qbytes (setHint a f q) = qbytes q"
  "qitems (setHint a f q) = qitems q" "maxItems (setHint a f q) = maxItems q" "maxBytes (setHint a f q) = maxBytes q" "qttl (setHint a f q) = qttl q"
  "qdrop (setHint a f q) = qdrop q" "etop (setHint a f q) = etop q" "(setHint a f q)\<lparr>delayed := d, hints := h\<rparr> = q\<lparr>delayed := d, hints := h\<rparr>"
  by (simp_all add: setHint_def)

lemma dh_Swap_delayed: "delayed (dh_Swap i j q) = (delayed q)[i := delayed q ! j, j := delayed q ! i]"
  by (simp add: dh_Swap_def Let_def)

lemma dh_Swap_hint:
  "(hint (dh_Swap i j q) a)\<lparr>heapIndex := x\<rparr> = (hint q a)\<lparr>heapIndex := x\<rparr>"
  "a \<notin> set (delayed q) \<Longrightarrow> i < length (delayed q) \<Longrightarrow> j < length (delayed q) \<Longrightarrow> hint (dh_Swap i j q) a = hint q a"
  by (auto simp: dh_Swap_def Let_def hint_setHint nth_list_update)

lemma dh_Swap_index:
  assumes "distinct (delayed q)" "i < length (delayed q)" "j < length (delayed q)" "i \<noteq> j"
  shows "heapIndex (hint (dh_Swap i j q) a) = (if a = delayed q ! i then int j else if a = delayed q ! j then int i else heapIndex (hint q a))"
proof -
  have "delayed q ! i \<noteq> delayed q ! j" using assms by (simp add: nth_eq_iff_index_eq)
  then show ?thesis using assms by (auto simp: dh_Swap_def Let_def hint_setHint)
qed

lemma nextAt_heapIndex: "nextAt h = nextAt (h\<lparr>heapIndex := 0\<rparr>)"
  by simp

lemma dh_Swap_nextAt [simp]: "nextAt (hint (dh_Swap i j q) a) = nextAt (hint q a)"
  by (subst (1 2) nextAt_heapIndex) (simp only: dh_Swap_hint(1))

interpretation dh: go_heap delayed "\<lambda>q a. nextAt (hint q a)" dh_Less dh_Swap pos_ok qframe
proof
  show "dh_Less i j q \<longleftrightarrow> nextAt (hint q (delayed q ! i)) < nextAt (hint q (delayed q ! j))" for i j q by (simp add: dh_Less_def)
  show "delayed (dh_Swap i j q) = (delayed q)[i := delayed q ! j, j := delayed q ! i]" for i j q by (rule dh_Swap_delayed)
  show "(\<lambda>a. nextAt (hint (dh_Swap i j q) a)) = (\<lambda>a. nextAt (hint q a))" for i j q by simp
  show "pos_ok (dh_Swap i j q)" if q: "pos_ok q" and l: "i < length (delayed q)" "j < length (delayed q)" for i j q
  proof (cases "i = j")
    case True
    then show ?thesis using q l by (auto simp: pos_ok_def dh_Swap_def Let_def hint_setHint nth_eq_iff_index_eq)
  next
    case ij: False
    have d: "distinct (delayed q)" using q by (simp add: pos_ok_def)
    have n: "x < length (delayed q) \<Longrightarrow> delayed (dh_Swap i j q) ! x = (if x = j then delayed q ! i else if x = i then delayed q ! j else delayed q ! x)" for x
      using l by (simp add: dh_Swap_delayed nth_list_update)
    have "heapIndex (hint (dh_Swap i j q) (delayed (dh_Swap i j q) ! x)) = int x" if x: "x < length (delayed q)" for x
      using q l x unfolding n[OF x] dh_Swap_index[OF d l ij] by (auto simp: pos_ok_def nth_eq_iff_index_eq)
    moreover have "distinct (delayed (dh_Swap i j q))" using d l by (simp add: dh_Swap_delayed distinct_swap)
    ultimately show ?thesis by (simp add: pos_ok_def)
  qed
  show "qframe (dh_Swap i j q) = qframe q" if l: "i < length (delayed q)" "j < length (delayed q)" for i j q
  proof -
    have s: "set (delayed (dh_Swap i j q)) = set (delayed q)" using l by (simp add: dh_Swap_delayed set_swap)
    have "(hint (dh_Swap i j q) a)\<lparr>heapIndex := if a \<in> set (delayed q) then 0 else heapIndex (hint (dh_Swap i j q) a)\<rparr> =
      (hint q a)\<lparr>heapIndex := if a \<in> set (delayed q) then 0 else heapIndex (hint q a)\<rparr>" for a
      using dh_Swap_hint[where i = i and j = j and q = q and a = a] l by (cases "a \<in> set (delayed q)") simp_all
    moreover have "(dh_Swap i j q)\<lparr>delayed := [], hints := []\<rparr> = q\<lparr>delayed := [], hints := []\<rparr>" by (simp add: dh_Swap_def Let_def)
    ultimately show ?thesis unfolding qframe_def s by simp
  qed
qed

lemma keeps_hkeep: "dh.keeps n q q' \<Longrightarrow> hkeep a q q'"
proof -
  assume k: "dh.keeps n q q'"
  have s: "set (delayed q') = set (delayed q)" using k unfolding dh.keeps_def by (metis mset_eq_setD)
  have f: "qframe q' = qframe q" using k by (simp add: dh.keeps_def)
  have h: "(hint q' b)\<lparr>heapIndex := if b \<in> set (delayed q) then 0 else heapIndex (hint q' b)\<rparr> =
    (hint q b)\<lparr>heapIndex := if b \<in> set (delayed q) then 0 else heapIndex (hint q b)\<rparr>" for b
    using f unfolding qframe_def s by (simp add: fun_eq_iff)
  have o: "hint q' b = hint q b" if "b \<notin> set (delayed q)" for b using h[of b] that by simp
  moreover have "(hint q' b)\<lparr>heapIndex := 0\<rparr> = (hint q b)\<lparr>heapIndex := 0\<rparr>" for b using h[of b] o[of b] by (cases "b \<in> set (delayed q)") simp_all
  moreover have "q'\<lparr>delayed := [], hints := []\<rparr> = q\<lparr>delayed := [], hints := []\<rparr>" using f by (simp add: qframe_def)
  ultimately show ?thesis unfolding hkeep_def by blast
qed

lemma hkeep_trans: "hkeep a q q' \<Longrightarrow> set (delayed q') \<subseteq> insert a (set (delayed q)) \<Longrightarrow> hkeep a q' q'' \<Longrightarrow> hkeep a q q''"
  unfolding hkeep_def by (metis insert_iff subset_iff)

lemma hkeep_refl [simp]: "hkeep a q q"
  by (simp add: hkeep_def)

text \<open>
  The invariant of a queue: a hint is in one of the two containers and knows its place there, the
  index lists exactly the hints by their keys, and the counters are exact. \<open>cont\<close> is the hint of
  each key.
\<close>

abbreviation qheap :: "hintQueue \<Rightarrow> bool" where
  "qheap q \<equiv> pos_ok q \<and> hord (length (delayed q)) (dh.hp q)"

abbreviation readyHints :: "hintQueue \<Rightarrow> addr list" where
  "readyHints q \<equiv> map snd (ready q)"

definition qmem :: "hintQueue \<Rightarrow> addr multiset" where
  "qmem q = mset (readyHints q) + mset (delayed q)"

definition payload :: "hintItem \<Rightarrow> hintItem" where
  "payload h = h\<lparr>elem := 0, heapIndex := 0\<rparr>"

definition cont :: "hintQueue \<Rightarrow> bytes \<Rightarrow> hintItem option" where
  "cont q k = map_option (\<lambda>a. payload (hint q a)) (mget (hindex q) k)"

definition places_ok :: "hintQueue \<Rightarrow> bool" where
  "places_ok q \<longleftrightarrow> distinct (readyHints q @ delayed q) \<and> distinct (map fst (ready q)) \<and> 0 < etop q \<and>
     (\<forall>e a. (e, a) \<in> set (ready q) \<longrightarrow> e \<noteq> 0 \<and> e < etop q \<and> elem (hint q a) = e \<and> heapIndex (hint q a) = - 1) \<and>
     (\<forall>a\<in>set (delayed q). elem (hint q a) = 0) \<and> qheap q"

definition index_ok :: "hintQueue \<Rightarrow> bool" where
  "index_ok q \<longleftrightarrow> wf_map (hindex q) \<and> (\<forall>k a. mget (hindex q) k = Some a \<longleftrightarrow> a \<in># qmem q \<and> hkey (hint q a) = k)"

definition counts_ok :: "hintQueue \<Rightarrow> bool" where
  "counts_ok q \<longleftrightarrow> qitems q = int (size (qmem q)) \<and> qbytes q = (\<Sum>a\<in>#qmem q. hsize (hint q a))"

definition qinv :: "hintQueue \<Rightarrow> bool" where
  "qinv q \<longleftrightarrow> places_ok q \<and> index_ok q \<and> counts_ok q"

definition qcfg :: "hintQueue \<Rightarrow> int \<times> int \<times> int \<times> DropPolicy" where
  "qcfg q = (maxItems q, maxBytes q, qttl q, qdrop q)"

text \<open>\<open>takes a q q'\<close>: from \<open>q\<close> to \<open>q'\<close> the hint \<open>a\<close> has left the queue, and nothing else has changed.\<close>

definition takes :: "addr \<Rightarrow> hintQueue \<Rightarrow> hintQueue \<Rightarrow> bool" where
  "takes a q q' \<longleftrightarrow> qinv q' \<and> qmem q = add_mset a (qmem q') \<and> (\<forall>b. payload (hint q' b) = payload (hint q b)) \<and>
     cont q' = (cont q)(hkey (hint q a) := None) \<and> qcfg q' = qcfg q \<and> qitems q' = qitems q - 1 \<and> qbytes q' = qbytes q - hsize (hint q a) \<and>
     (\<forall>b. b \<notin># qmem q \<longrightarrow> hint q' b = hint q b) \<and> (\<forall>b. b \<noteq> a \<longrightarrow> elem (hint q' b) = elem (hint q b))"

text \<open>
  The invariant between operations, with the caps; what a hint writes; and the outcome of \<open>enqueue\<close> of
  the hint \<open>it\<close>: accepted hints are the ones of their keys, rejected ones leave the key's hint, other
  hints are at most dropped, and the deltas are exact, but for the sign of the bytes where a
  replacement was undone.
\<close>

definition hq_inv :: "hintQueue \<Rightarrow> bool" where
  "hq_inv q \<longleftrightarrow> qinv q \<and> (\<forall>a. a \<in># qmem q \<longrightarrow> 0 \<le> hsize (hint q a)) \<and> \<not> overCap (qitems q) (qbytes q) q"

definition hwrite :: "hintItem \<Rightarrow> hintItem" where
  "hwrite h = (payload h)\<lparr>nextAt := 0, tries := 0\<rparr>"

definition enqueued :: "addr \<Rightarrow> hintQueue \<Rightarrow> bool \<times> int \<times> int \<Rightarrow> hintQueue \<Rightarrow> bool" where
  "enqueued it q r q' \<longleftrightarrow> (case r of (ok, dB, dI) \<Rightarrow> let k = hkey (hint q it) in
     hq_inv q' \<and> qcfg q' = qcfg q \<and> set_mset (qmem q') \<subseteq> insert it (set_mset (qmem q)) \<and>
     (\<forall>j. j \<noteq> k \<longrightarrow> cont q' j = cont q j \<or> cont q' j = None \<and> qdrop q = DropOldest) \<and>
     (if ok then map_option hwrite (cont q' k) = Some (hwrite (hint q it)) else cont q' k = cont q k) \<and>
     qitems q' = qitems q + dI \<and> qbytes q' = qbytes q + (if \<not> ok \<and> cont q k \<noteq> None then - dB else dB))"

definition drops :: "addr \<Rightarrow> hintQueue \<Rightarrow> hintQueue \<Rightarrow> bool" where
  "drops avoid = (\<lambda>q q'. qinv q \<and> (\<exists>a. a \<noteq> avoid \<and> takes a q q'))\<^sup>*\<^sup>*"

lemma dh_Pop_ok:
  assumes p: "pos_ok q" and n: "length (delayed q) = Suc n" and o: "hord n (dh.hp q)"
  shows "fst (dh_Pop q) = delayed q ! n \<and> qheap (snd (dh_Pop q)) \<and> add_mset (delayed q ! n) (mset (delayed (snd (dh_Pop q)))) = mset (delayed q) \<and>
    hkeep (delayed q ! n) q (snd (dh_Pop q)) \<and> heapIndex (hint (snd (dh_Pop q)) (delayed q ! n)) = - 1"
proof -
  let ?a = "delayed q ! n" let ?q = "snd (dh_Pop q)"
  have D: "delayed q = take n (delayed q) @ [?a]" using n by (metis lessI take_Suc_conv_app_nth take_all_iff order_refl)
  have d: "distinct (delayed q)" using p by (simp add: pos_ok_def)
  then have na: "?a \<notin> set (take n (delayed q))" using D by (metis distinct.simps(2) distinct_append disjoint_iff list.set_intros(1))
  have e: "dh_Pop q = (?a, setHint ?a (\<lambda>h. h\<lparr>heapIndex := - 1\<rparr>) (q\<lparr>delayed := take n (delayed q)\<rparr>))" using n by (simp add: dh_Pop_def Let_def)
  have dq: "delayed ?q = take n (delayed q)" using e by simp
  have hq: "hint ?q b = (if b = ?a then (hint q ?a)\<lparr>heapIndex := - 1\<rparr> else hint q b)" for b using e by (simp add: hint_setHint)
  have ne: "delayed q ! x \<noteq> ?a" if "x < n" for x using that d n by (simp add: nth_eq_iff_index_eq)
  have "pos_ok ?q" using p n ne d unfolding pos_ok_def dq hq by (simp add: min_def)
  moreover have "hord (length (delayed ?q)) (dh.hp ?q)" unfolding dq
    using hord_cong[OF o, of "dh.hp ?q"] n ne by (simp add: dh.hp_def dq hq)
  moreover have "add_mset ?a (mset (delayed ?q)) = mset (delayed q)" unfolding dq by (subst (3) D) simp
  moreover have "hkeep ?a q ?q" using e by (auto simp: hkeep_def hint_setHint)
  ultimately show ?thesis using e hq[of ?a] by simp
qed

lemma hp_swap:
  assumes "pos_ok q" "i < length (delayed q)" "n < length (delayed q)"
  shows "dh.hp (dh_Swap i n q) x = (if x = n then dh.hp q i else if x = i then dh.hp q n else dh.hp q x)"
  using assms by (simp add: dh.hp_def dh_Swap_delayed nth_list_update)

lemma swap_last:
  assumes "pos_ok q" "i < length (delayed q)" "length (delayed q) = Suc n"
  shows "dh.keeps (Suc n) q (dh_Swap i n q)" "delayed (dh_Swap i n q) ! n = delayed q ! i"
proof -
  have n: "n < length (delayed q)" using assms(3) by simp
  show "dh.keeps (Suc n) q (dh_Swap i n q)"
    using dh.ok_swp[OF assms(1,2) n] dh.frm_swp[OF assms(1,2) n] assms(3) mset_swap[OF n assms(2)] by (simp add: dh.keeps_def dh_Swap_delayed)
  show "delayed (dh_Swap i n q) ! n = delayed q ! i" using n by (simp add: dh_Swap_delayed)
qed

text \<open>Restoring the order of all but the last hint, and taking the last one out.\<close>

lemma pop_last:
  assumes q: "pos_ok q" "i < length (delayed q)" "length (delayed q) = Suc n"
    and k: "dh.keeps n (dh_Swap i n q) q2" "hord n (dh.hp q2)"
  shows "fst (dh_Pop q2) = delayed q ! i \<and> qheap (snd (dh_Pop q2)) \<and> add_mset (delayed q ! i) (mset (delayed (snd (dh_Pop q2)))) = mset (delayed q) \<and>
    hkeep (delayed q ! i) q (snd (dh_Pop q2)) \<and> heapIndex (hint (snd (dh_Pop q2)) (delayed q ! i)) = - 1"
proof -
  let ?a = "delayed q ! i" let ?q1 = "dh_Swap i n q"
  note k1 = swap_last[OF q]
  have p2: "pos_ok q2" "length (delayed q2) = Suc n" using k(1) dh.keeps_length[OF k(1)] q(3) by (simp_all add: dh.keeps_def)
  have a: "delayed q2 ! n = ?a" using k(1) k1(2) q(3) by (simp add: dh.keeps_def)
  note P = dh_Pop_ok[OF p2 k(2), unfolded a]
  have m: "mset (delayed q2) = mset (delayed q)" using k(1) k1(1) by (simp add: dh.keeps_def)
  have s1: "set (delayed ?q1) = set (delayed q)" using k1(1) unfolding dh.keeps_def by (metis mset_eq_setD)
  have s2: "set (delayed q2) = set (delayed q)" using m by (metis mset_eq_setD)
  have "hkeep ?a q q2" by (rule hkeep_trans[OF keeps_hkeep[OF k1(1)] _ keeps_hkeep[OF k(1)]]) (use s1 in auto)
  then have "hkeep ?a q (snd (dh_Pop q2))" by (rule hkeep_trans) (use s2 P in auto)
  then show ?thesis using P m by simp
qed

lemma heap_Pop_ok:
  assumes q: "qheap q" "delayed q \<noteq> []"
  shows "fst (heap_Pop q) = delayed q ! 0 \<and> qheap (snd (heap_Pop q)) \<and>
    add_mset (delayed q ! 0) (mset (delayed (snd (heap_Pop q)))) = mset (delayed q) \<and>
    hkeep (delayed q ! 0) q (snd (heap_Pop q)) \<and> heapIndex (hint (snd (heap_Pop q)) (delayed q ! 0)) = - 1"
proof -
  obtain n where n: "length (delayed q) = Suc n" using q(2) by (metis length_0_conv not0_implies_Suc)
  have l: "0 < length (delayed q)" "n < length (delayed q)" using n by simp_all
  have "hdown 0 n (dh.hp (dh_Swap 0 n q))" unfolding hdown_def hbridge_def
    using q(1) n by (auto simp: hp_swap[OF _ l] hord_def)
  moreover have "pos_ok (dh_Swap 0 n q)" using swap_last(1)[OF _ l(1) n] q(1) by (simp add: dh.keeps_def)
  ultimately have "dh.keeps n (dh_Swap 0 n q) (snd (heapDown dh_Less dh_Swap 0 n (dh_Swap 0 n q)))"
    "hord n (dh.hp (snd (heapDown dh_Less dh_Swap 0 n (dh_Swap 0 n q))))"
    using dh.down_ok[of "dh_Swap 0 n q" n 0] n by simp_all
  from pop_last[OF _ l(1) n this] show ?thesis using q(1) n by (simp add: heap_Pop_def Let_def)
qed

lemma heap_Remove_ok:
  assumes q: "qheap q" "i < length (delayed q)"
  shows "qheap (snd (heap_Remove i q)) \<and> add_mset (delayed q ! i) (mset (delayed (snd (heap_Remove i q)))) = mset (delayed q) \<and>
    hkeep (delayed q ! i) q (snd (heap_Remove i q)) \<and> heapIndex (hint (snd (heap_Remove i q)) (delayed q ! i)) = - 1"
proof -
  obtain n where n: "length (delayed q) = Suc n" using q(2) by (cases "length (delayed q)") auto
  have o: "hord (Suc n) (dh.hp q)" using q(1) n by simp
  show ?thesis
  proof (cases "i = n")
    case True
    then show ?thesis using dh_Pop_ok[OF _ n hord_mono[OF o]] q(1) n by (simp add: heap_Remove_def Let_def)
  next
    case False
    have l: "i < n" "n < length (delayed q)" using False q(2) n by simp_all
    have pq: "pos_ok q" using q(1) by simp
    note W = hp_swap[OF pq q(2) l(2)]
    have "hexc i n (dh.hp (dh_Swap i n q))"
    proof -
      have "dh.hp (dh_Swap i n q) ((j - 1) div 2) \<le> dh.hp (dh_Swap i n q) j" if j: "j < n" "0 < j" "j \<noteq> i" "(j - 1) div 2 \<noteq> i" for j
        using o j parent_below[OF j(2)] by (simp add: W hord_def)
      moreover have "hbridge i n (dh.hp (dh_Swap i n q))"
      proof -
        have "hbridge i (Suc n) (dh.hp q)" using hord_exc[OF o] l by simp
        then show ?thesis using parent_below[of i] l(1) unfolding hbridge_def W by (auto dest: parent_below)
      qed
      ultimately show ?thesis unfolding hexc_def by blast
    qed
    moreover have "pos_ok (dh_Swap i n q)" using swap_last(1)[OF pq q(2) n] by (simp add: dh.keeps_def)
    moreover obtain i' q' where d: "heapDown dh_Less dh_Swap i n (dh_Swap i n q) = (i', q')" by fastforce
    ultimately have "dh.keeps n (dh_Swap i n q) (if i < i' then q' else heapUp dh_Less dh_Swap i q')"
      "hord n (dh.hp (if i < i' then q' else heapUp dh_Less dh_Swap i q'))"
      using dh.fix_ok[of "dh_Swap i n q" i n i' q'] n l by simp_all
    from pop_last[OF pq q(2) n this] show ?thesis using False n d by (simp add: heap_Remove_def Let_def)
  qed
qed

lemma heap_Push_ok:
  assumes q: "qheap q" and a: "a \<notin> set (delayed q)"
  shows "qheap (heap_Push a q) \<and> mset (delayed (heap_Push a q)) = add_mset a (mset (delayed q)) \<and> hkeep a q (heap_Push a q)"
proof -
  let ?q1 = "dh_Push a q" let ?n = "length (delayed q)"
  have d: "delayed ?q1 = delayed q @ [a]" and h: "hint ?q1 b = (if b = a then (hint q a)\<lparr>heapIndex := int ?n\<rparr> else hint q b)" for b
    by (simp_all add: dh_Push_def hint_setHint)
  have ne: "delayed q ! x \<noteq> a" if "x < ?n" for x using a that by auto
  have p: "pos_ok ?q1" using q a ne unfolding pos_ok_def d h by (auto simp: nth_append less_Suc_eq)
  have f: "dh.hp ?q1 x = dh.hp q x" if "x < ?n" for x using that ne by (simp add: dh.hp_def d h nth_append)
  have "dh.hp ?q1 ((j - 1) div 2) \<le> dh.hp ?q1 j" if j: "j < Suc ?n" "0 < j" "j \<noteq> ?n" for j
    using q j parent_below[OF j(2)] by (simp add: f hord_def)
  moreover have "hbridge ?n (Suc ?n) (dh.hp ?q1)" using parent_below unfolding hbridge_def by fastforce
  ultimately have "hup ?n (Suc ?n) (dh.hp ?q1)" unfolding hup_def by blast
  then have U: "dh.keeps (Suc ?n) ?q1 (heapUp dh_Less dh_Swap ?n ?q1)" "hord (Suc ?n) (dh.hp (heapUp dh_Less dh_Swap ?n ?q1))"
    using dh.up_ok[OF p, of ?n "Suc ?n"] by (simp_all add: d)
  have e: "heap_Push a q = heapUp dh_Less dh_Swap ?n ?q1" by (simp add: heap_Push_def Let_def d)
  have "hkeep a q ?q1" by (auto simp: hkeep_def h) (simp add: dh_Push_def)
  then have "hkeep a q (heap_Push a q)" unfolding e by (rule hkeep_trans[OF _ _ keeps_hkeep[OF U(1)]]) (simp add: d)
  then show ?thesis using U dh.keeps_length[OF U(1)] unfolding e by (simp add: dh.keeps_def d)
qed

subsection \<open>Taking hints out\<close>

lemma payloadD:
  assumes "payload h' = payload h"
  shows "hkey h' = hkey h" "hsize h' = hsize h" "nextAt h' = nextAt h" "hver h' = hver h" "hexp h' = hexp h" "isDel h' = isDel h" "addedAt h' = addedAt h"
    "tries h' = tries h"
  using assms by (cases h, cases h', simp add: payload_def)+

lemma payload_index: "h'\<lparr>heapIndex := 0\<rparr> = h\<lparr>heapIndex := 0\<rparr> \<Longrightarrow> payload h' = payload h \<and> elem h' = elem h"
  by (cases h, cases h') (simp add: payload_def)

lemma payload_elem [simp]: "payload (h\<lparr>elem := e\<rparr>) = payload h" "payload (h\<lparr>heapIndex := i\<rparr>) = payload h"
  by (simp_all add: payload_def)

lemma qmem_distinct: "places_ok q \<Longrightarrow> count (qmem q) a \<le> 1"
proof -
  assume "places_ok q"
  then have "distinct (readyHints q @ delayed q)" unfolding places_ok_def by blast
  moreover have "qmem q = mset (readyHints q @ delayed q)" by (simp add: qmem_def)
  ultimately show ?thesis by (metis distinct_count_atmost_1 le_numeral_extra(4) zero_le)
qed

lemma sum_payload:
  assumes "\<And>b. payload (hint q' b) = payload (hint q b)"
  shows "(\<Sum>a\<in>#M. hsize (hint q' a)) = (\<Sum>a\<in>#M. hsize (hint q a))"
  by (simp only: payloadD(2)[OF assms])

lemma takes_intro:
  assumes q: "qinv q" and p: "places_ok q'" and m: "qmem q = add_mset a (qmem q')" and h: "\<And>b. payload (hint q' b) = payload (hint q b)"
    and x: "hindex q' = mdel (hkey (hint q a)) (hindex q)" and c: "qitems q' = qitems q - 1" "qbytes q' = qbytes q - hsize (hint q a)" "qcfg q' = qcfg q"
    and n: "\<And>b. b \<notin># qmem q \<Longrightarrow> hint q' b = hint q b" and el: "\<And>b. b \<noteq> a \<Longrightarrow> elem (hint q' b) = elem (hint q b)"
  shows "takes a q q'"
proof -
  have na: "a \<notin># qmem q'" using qmem_distinct[of q a] q m by (auto simp: qinv_def not_in_iff)
  have I: "mget (hindex q) k = Some b \<longleftrightarrow> b \<in># qmem q \<and> hkey (hint q b) = k" for k b using q by (simp add: qinv_def index_ok_def)
  have "index_ok q'" unfolding index_ok_def
  proof (intro conjI allI)
    show "wf_map (hindex q')" using q unfolding x by (simp add: qinv_def index_ok_def map_simps)
    fix k b
    have aq: "a \<in># qmem q" using m by simp
    have u: "b = a" if "b \<in># qmem q" "hkey (hint q b) = hkey (hint q a)"
    proof -
      have "mget (hindex q) (hkey (hint q a)) = Some b" "mget (hindex q) (hkey (hint q a)) = Some a" using I that aq by blast+
      then show ?thesis by (metis option.inject)
    qed
    have mm: "b \<in># qmem q \<longleftrightarrow> b = a \<or> b \<in># qmem q'" unfolding m by simp
    have "mget (hindex q') k = Some b \<longleftrightarrow> k \<noteq> hkey (hint q a) \<and> mget (hindex q) k = Some b" unfolding x mget_mdel by simp
    then show "mget (hindex q') k = Some b \<longleftrightarrow> b \<in># qmem q' \<and> hkey (hint q' b) = k"
      unfolding I payloadD(1)[OF h] using u mm na by blast
  qed
  moreover have "counts_ok q'" using q m c(1,2) sum_payload[OF h] unfolding qinv_def counts_ok_def by simp
  moreover have "cont q' = (cont q)(hkey (hint q a) := None)"
    by (rule ext) (simp add: cont_def x mget_mdel h)
  ultimately show ?thesis using p m h c n el unfolding takes_def qinv_def by blast
qed

lemma mem_place:
  assumes "places_ok q" "a \<in># qmem q"
  shows "(elem (hint q a) \<noteq> 0 \<and> (elem (hint q a), a) \<in> set (ready q)) \<or>
    (elem (hint q a) = 0 \<and> heapIndex (hint q a) \<ge> 0 \<and> nat (heapIndex (hint q a)) < length (delayed q) \<and> delayed q ! nat (heapIndex (hint q a)) = a)"
proof -
  consider e where "(e, a) \<in> set (ready q)" | i where "i < length (delayed q)" "delayed q ! i = a"
    using assms(2) by (auto simp: qmem_def in_set_conv_nth)
  then show ?thesis
  proof cases
    case 1
    then show ?thesis using assms(1) unfolding places_ok_def by metis
  next
    case 2
    then have "elem (hint q a) = 0" "heapIndex (hint q a) = int i" using assms(1) unfolding places_ok_def pos_ok_def by auto
    then show ?thesis using 2 by simp
  qed
qed

lemma hkeepD:
  assumes "hkeep a q q'"
  shows "payload (hint q' b) = payload (hint q b)" "elem (hint q' b) = elem (hint q b)" "b \<notin> set (delayed q) \<Longrightarrow> b \<noteq> a \<Longrightarrow> hint q' b = hint q b"
    "ready q' = ready q" "hindex q' = hindex q" "etop q' = etop q" "qitems q' = qitems q" "qbytes q' = qbytes q" "qcfg q' = qcfg q"
proof -
  have "(hint q' b)\<lparr>heapIndex := 0\<rparr> = (hint q b)\<lparr>heapIndex := 0\<rparr>" using assms by (simp add: hkeep_def)
  then show "payload (hint q' b) = payload (hint q b)" "elem (hint q' b) = elem (hint q b)" using payload_index by blast+
  show "b \<notin> set (delayed q) \<Longrightarrow> b \<noteq> a \<Longrightarrow> hint q' b = hint q b" using assms by (simp add: hkeep_def)
  have e: "q'\<lparr>delayed := [], hints := []\<rparr> = q\<lparr>delayed := [], hints := []\<rparr>" using assms by (simp add: hkeep_def)
  show "ready q' = ready q" using arg_cong[OF e, of ready] by simp
  show "hindex q' = hindex q" using arg_cong[OF e, of hindex] by simp
  show "etop q' = etop q" using arg_cong[OF e, of etop] by simp
  show "qitems q' = qitems q" using arg_cong[OF e, of qitems] by simp
  show "qbytes q' = qbytes q" using arg_cong[OF e, of qbytes] by simp
  show "qcfg q' = qcfg q" using arg_cong[OF e, of qcfg] by (simp add: qcfg_def)
qed

lemma places_cong:
  assumes "places_ok q" "ready q' = ready q" "delayed q' = delayed q" "\<And>a. hint q' a = hint q a" "etop q' = etop q"
  shows "places_ok q'"
proof -
  have "dh.hp q' = dh.hp q" by (rule ext) (simp add: dh.hp_def assms)
  then show ?thesis using assms(1) unfolding places_ok_def pos_ok_def assms(2-5) by simp
qed

lemma delayed_out:
  assumes p: "places_ok q" and a: "a \<in> set (delayed q)" and h: "qheap q'" "add_mset a (mset (delayed q')) = mset (delayed q)" "hkeep a q q'"
  shows "places_ok q'" "qmem q = add_mset a (qmem q')" "\<And>b. b \<notin># qmem q \<Longrightarrow> hint q' b = hint q b"
proof -
  note K = hkeepD[OF h(3)]
  have s: "set (delayed q) = insert a (set (delayed q'))" using h(2) by (metis set_mset_add_mset_insert set_mset_mset)
  have d: "distinct (readyHints q @ delayed q)" using p unfolding places_ok_def by blast
  have da: "distinct (delayed q')" using h(1) by (simp add: pos_ok_def)
  show "qmem q = add_mset a (qmem q')" by (simp add: qmem_def K(4) h(2)[symmetric])
  have r: "hint q' x = hint q x" if "x \<in> set (readyHints q)" for x using K(3)[of x] that d a by auto
  have "distinct (readyHints q' @ delayed q')" using d da s unfolding K(4) by auto
  moreover have "\<forall>x\<in>set (delayed q'). elem (hint q' x) = 0" using p s unfolding places_ok_def K(2) by auto
  moreover have "e \<noteq> 0 \<and> e < etop q' \<and> elem (hint q' x) = e \<and> heapIndex (hint q' x) = - 1" if "(e, x) \<in> set (ready q')" for e x
  proof -
    have "x \<in> set (readyHints q)" using that unfolding K(4) by force
    then show ?thesis using p that r[of x] unfolding places_ok_def K(4,6) by auto
  qed
  ultimately show "places_ok q'" using p h(1) unfolding places_ok_def K(4,6) by blast
  show "hint q' b = hint q b" if "b \<notin># qmem q" for b using that K(3)[of b] a by (auto simp: qmem_def)
qed

lemma filter_fst:
  "distinct (map fst xs) \<Longrightarrow> (e, a) \<in> set xs \<Longrightarrow> mset xs = add_mset (e, a) (mset (filter (\<lambda>(x, _). x \<noteq> e) xs))"
proof (induction xs)
  case (Cons y ys)
  show ?case
  proof (cases "y = (e, a)")
    case True
    then have "filter (\<lambda>(x, _). x \<noteq> e) ys = ys" using Cons.prems(1) by (intro filter_True) force
    then show ?thesis using True by simp
  next
    case False
    then have "(e, a) \<in> set ys" "fst y \<noteq> e" using Cons.prems by (auto simp: rev_image_eqI)
    then show ?thesis using Cons by (auto split: prod.splits)
  qed
qed simp

lemma removeItem_ready:
  assumes q: "qinv q" and a: "elem (hint q a) \<noteq> 0" "(elem (hint q a), a) \<in> set (ready q)"
  shows "takes a q (removeItem a q)" "ready (removeItem a q) = filter (\<lambda>(x, _). x \<noteq> elem (hint q a)) (ready q)"
    "delayed (removeItem a q) = delayed q"
proof -
  let ?e = "elem (hint q a)" let ?f = "filter (\<lambda>(x, _). x \<noteq> ?e) (ready q)"
  define q' where "q' = removeItem a q"
  have p: "places_ok q" using q by (simp add: qinv_def)
  have d: "distinct (map fst (ready q))" "distinct (readyHints q @ delayed q)" using p unfolding places_ok_def by blast+
  have e: "q' = (setHint a (\<lambda>h. h\<lparr>elem := 0\<rparr>) (q\<lparr>hindex := mdel (hkey (hint q a)) (hindex q), ready := ?f\<rparr>))
      \<lparr>qitems := qitems q - 1, qbytes := qbytes q - hsize (hint q a)\<rparr>"
    using a(1) by (simp add: q'_def removeItem_def Let_def setHint_def)
  have rd: "ready q' = ?f" "delayed q' = delayed q" and hq: "hint q' b = (if b = a then (hint q a)\<lparr>elem := 0\<rparr> else hint q b)" for b
    by (simp_all add: e hint_setHint)
  have m: "mset (ready q) = add_mset (?e, a) (mset ?f)" by (rule filter_fst[OF d(1) a(2)])
  have mr: "mset (readyHints q) = add_mset a (mset (readyHints q'))" using arg_cong[OF m, of "image_mset snd"] unfolding rd by simp
  have M: "qmem q = add_mset a (qmem q')" using mr by (simp add: qmem_def rd)
  have na: "a \<notin> set (readyHints q')" "a \<notin> set (delayed q)"
  proof -
    have "count (qmem q) a \<le> 1" by (rule qmem_distinct[OF p])
    then have "a \<notin># qmem q'" unfolding M by (simp add: not_in_iff)
    then show "a \<notin> set (readyHints q')" "a \<notin> set (delayed q)" by (auto simp: qmem_def rd)
  qed
  have "places_ok q'"
  proof -
    have "distinct (map fst ?f)" using d(1) by (simp add: distinct_map_filter)
    moreover have "distinct (map snd ?f @ delayed q)" using d(2) distinct_map_filter[of snd "ready q"] by auto
    moreover have "x \<noteq> 0 \<and> x < etop q \<and> elem (hint q' b) = x \<and> heapIndex (hint q' b) = - 1" if "(x, b) \<in> set ?f" for x b
    proof -
      have "b \<noteq> a" using na(1) that unfolding rd by force
      then show ?thesis using p that unfolding places_ok_def hq by auto
    qed
    moreover have "\<forall>x\<in>set (delayed q). elem (hint q' x) = 0" using p na(2) unfolding places_ok_def hq by auto
    moreover have "pos_ok q'" "hord (length (delayed q)) (dh.hp q')"
    proof -
      have "hint q' (delayed q ! i) = hint q (delayed q ! i)" if "i < length (delayed q)" for i using na(2) that unfolding hq by auto
      then show "pos_ok q'" "hord (length (delayed q)) (dh.hp q')"
        using p hord_cong[of "length (delayed q)" "dh.hp q" "dh.hp q'"] unfolding places_ok_def pos_ok_def dh.hp_def rd by auto
    qed
    moreover have "0 < etop q" using p by (simp add: places_ok_def)
    moreover have "etop q' = etop q" by (simp add: e)
    ultimately show ?thesis unfolding places_ok_def rd by auto
  qed
  then have "takes a q q'"
  proof (rule takes_intro[OF q _ M])
    show "payload (hint q' b) = payload (hint q b)" for b by (simp add: hq)
    show "hint q' b = hint q b" if "b \<notin># qmem q" for b using that M by (auto simp: hq)
    show "elem (hint q' b) = elem (hint q b)" if "b \<noteq> a" for b using that by (simp add: hq)
  qed (simp_all add: e qcfg_def)
  then show "takes a q (removeItem a q)" "ready (removeItem a q) = ?f" "delayed (removeItem a q) = delayed q"
    using rd by (simp_all add: q'_def)
qed

lemma removeItem_takes:
  assumes q: "qinv q" and a: "a \<in># qmem q"
  shows "takes a q (removeItem a q)"
proof -
  have p: "places_ok q" using q by (simp add: qinv_def)
  from mem_place[OF p a] show ?thesis
  proof (elim disjE conjE)
    assume "elem (hint q a) \<noteq> 0" "(elem (hint q a), a) \<in> set (ready q)"
    then show ?thesis by (rule removeItem_ready(1)[OF q])
  next
    let ?i = "nat (heapIndex (hint q a))" let ?q0 = "q\<lparr>hindex := mdel (hkey (hint q a)) (hindex q)\<rparr>"
    assume i: "elem (hint q a) = 0" "heapIndex (hint q a) \<ge> 0" "?i < length (delayed q)" "delayed q ! ?i = a"
    define q1 where "q1 = snd (heap_Remove ?i ?q0)"
    have e: "removeItem a q = q1\<lparr>qitems := qitems q1 - 1, qbytes := qbytes q1 - hsize (hint q a)\<rparr>"
      using i by (simp add: removeItem_def Let_def q1_def)
    have p0: "places_ok ?q0" by (rule places_cong[OF p]) simp_all
    have "qheap ?q0" using p0 by (simp add: places_ok_def)
    moreover have i0: "?i < length (delayed ?q0)" "delayed ?q0 ! ?i = a" using i by simp_all
    ultimately have R: "qheap q1" "add_mset a (mset (delayed q1)) = mset (delayed ?q0)" "hkeep a ?q0 q1"
      unfolding q1_def using heap_Remove_ok[of ?q0 ?i, unfolded i0(2)] by blast+
    have ad: "a \<in> set (delayed ?q0)" using i0 nth_mem by metis
    note D = delayed_out[OF p0 ad R] and K = hkeepD[OF R(3)]
    have "places_ok (removeItem a q)" by (rule places_cong[OF D(1)]) (simp_all add: e)
    then show ?thesis
    proof (rule takes_intro[OF q])
      show "hint (removeItem a q) b = hint q b" if "b \<notin># qmem q" for b using D(3)[of b] that by (simp add: e qmem_def)
    qed (use D(2) K in \<open>simp_all add: e qmem_def qcfg_def\<close>)
  qed
qed

lemma dropDelayed_takes:
  assumes q: "qinv q" and f: "delayed q = front # rest" "front \<noteq> avoid"
  shows "\<exists>q'. tryDropDelayed avoid q = Some ((1, hsize (hint q front)), q') \<and> takes front q q'"
proof -
  have p: "places_ok q" and qh: "qheap q" using q by (simp_all add: qinv_def places_ok_def)
  obtain it q1 where P: "heap_Pop q = (it, q1)" by fastforce
  have R: "it = front" "qheap q1" "add_mset front (mset (delayed q1)) = mset (delayed q)" "hkeep front q q1"
    using heap_Pop_ok[OF qh] f(1) P by simp_all
  have fd: "front \<in> set (delayed q)" using f(1) by simp
  note D = delayed_out[OF p fd R(2-4)] and K = hkeepD[OF R(4)]
  let ?q = "q1\<lparr>hindex := mdel (hkey (hint q1 it)) (hindex q1), qitems := qitems q1 - 1, qbytes := qbytes q1 - hsize (hint q1 it)\<rparr>"
  have s: "hkey (hint q1 front) = hkey (hint q front)" "hsize (hint q1 front) = hsize (hint q front)" using payloadD[OF K(1)] by simp_all
  have "places_ok ?q" by (rule places_cong[OF D(1)]) simp_all
  then have "takes front q ?q"
  proof (rule takes_intro[OF q])
    show "hint ?q b = hint q b" if "b \<notin># qmem q" for b using D(3)[of b] that by simp
  qed (use D(2) K s R(1) in \<open>simp_all add: qmem_def qcfg_def\<close>)
  then show ?thesis using f P s R(1) by (simp add: tryDropDelayed_def)
qed

lemma dropOldest_cases:
  assumes q: "qinv q"
  obtains (drop) a q' where "dropOldest avoid q = ((1, hsize (hint q a)), q')" "takes a q q'" "a \<noteq> avoid"
  | (stuck) "dropOldest avoid q = ((0, 0), q)"
proof (cases "tryDropReady avoid q")
  case (Some r)
  then obtain e h rest where r: "ready q = (e, h) # rest" "h \<noteq> avoid" "r = ((1, hsize (hint q h)), removeItem h q)"
    by (auto simp: tryDropReady_def split: list.splits if_splits)
  have "h \<in># qmem q" using r(1) by (simp add: qmem_def)
  then have "takes h q (removeItem h q)" by (rule removeItem_takes[OF q])
  then show ?thesis using drop[of h "removeItem h q"] Some r(2,3) by (simp add: dropOldest_def)
next
  case None
  show ?thesis
  proof (cases "tryDropDelayed avoid q")
    case N: None
    then show ?thesis using stuck None by (simp add: dropOldest_def)
  next
    case (Some r)
    then obtain front rest where f: "delayed q = front # rest" "front \<noteq> avoid"
      by (auto simp: tryDropDelayed_def split: list.splits if_splits)
    from dropDelayed_takes[OF q this] show ?thesis using drop[of front] None f(2) by (auto simp: dropOldest_def)
  qed
qed

lemma takes_size: "takes a q q' \<Longrightarrow> size (qmem q) = Suc (size (qmem q'))"
  by (simp add: takes_def)

lemma index_unique:
  assumes "qinv q" "a \<in># qmem q" "b \<in># qmem q" "hkey (hint q a) = hkey (hint q b)"
  shows "a = b"
proof -
  have "mget (hindex q) (hkey (hint q a)) = Some a" "mget (hindex q) (hkey (hint q a)) = Some b"
    using assms unfolding qinv_def index_ok_def by metis+
  then show ?thesis by (metis option.inject)
qed

lemma drops_spec:
  assumes "drops avoid q q'" "qinv q"
  shows "qinv q' \<and> qcfg q' = qcfg q \<and> (\<forall>b. payload (hint q' b) = payload (hint q b)) \<and> qmem q' \<subseteq># qmem q \<and>
    (\<forall>k. cont q' k = cont q k \<or> cont q' k = None) \<and> (\<forall>b. b \<notin># qmem q \<longrightarrow> hint q' b = hint q b) \<and>
    (avoid \<in># qmem q \<longrightarrow> avoid \<in># qmem q') \<and> elem (hint q' avoid) = elem (hint q avoid)"
  using assms(1)[unfolded drops_def]
proof (induction rule: rtranclp_induct)
  case base
  then show ?case using assms(2) by simp
next
  case (step y z)
  then obtain a where a: "a \<noteq> avoid" "takes a y z" by blast
  have T: "qinv z" "qmem y = add_mset a (qmem z)" "\<And>b. payload (hint z b) = payload (hint y b)" "cont z = (cont y)(hkey (hint y a) := None)"
    "qcfg z = qcfg y" "\<And>b. b \<notin># qmem y \<Longrightarrow> hint z b = hint y b" "elem (hint z avoid) = elem (hint y avoid)"
    using a(2) a(1)[symmetric] unfolding takes_def by blast+
  have m: "qmem z \<subseteq># qmem q" using step.IH T(2) by (metis mset_subset_eq_add_right subset_mset.order_trans add_mset_add_single union_commute)
  moreover have "hint z b = hint q b" if "b \<notin># qmem q" for b
  proof -
    have "b \<notin># qmem y" using that step.IH mset_subset_eqD by metis
    then show ?thesis using T(6) step.IH that by simp
  qed
  moreover have "avoid \<in># qmem z" if "avoid \<in># qmem q" using that step.IH T(2) a(1) by auto
  ultimately show ?case using step.IH T by auto
qed

lemma cont_mem: "qinv q \<Longrightarrow> a \<in># qmem q \<Longrightarrow> cont q (hkey (hint q a)) = Some (payload (hint q a))"
proof -
  assume "qinv q" "a \<in># qmem q"
  then have "mget (hindex q) (hkey (hint q a)) = Some a" unfolding qinv_def index_ok_def by metis
  then show ?thesis by (simp add: cont_def)
qed

lemma dropLoop_spec:
  assumes "qinv q"
  shows "\<exists>ok dB dI q'. dropLoop avoid b i q = Some ((ok, b + dB, i + dI), q') \<and> drops avoid q q' \<and> qbytes q' = qbytes q - dB \<and> qitems q' = qitems q - dI \<and>
    ((\<forall>a\<in>#qmem q. 0 \<le> hsize (hint q a)) \<longrightarrow> 0 \<le> dB) \<and> 0 \<le> dI \<and> ok = (\<not> overCap (qitems q') (qbytes q') q')"
  using assms
proof (induction "size (qmem q)" arbitrary: q b i rule: less_induct)
  case less
  show ?case
  proof (cases "overCap (qitems q) (qbytes q) q")
    case False
    then show ?thesis by (intro exI[of _ True] exI[of _ 0] exI[of _ q]) (subst dropLoop.simps, simp add: drops_def)
  next
    case True
    from less.prems show ?thesis
    proof (cases rule: dropOldest_cases[of q avoid])
      case (drop a q1)
      let ?s = "hsize (hint q a)"
      have T: "qinv q1" "qmem q = add_mset a (qmem q1)" "\<And>b. payload (hint q1 b) = payload (hint q b)"
        "qitems q1 = qitems q - 1" "qbytes q1 = qbytes q - ?s" using drop(2) unfolding takes_def by blast+
      have "size (qmem q1) < size (qmem q)" using T(2) by simp
      from less.hyps[OF this T(1), of "b + ?s" "i + 1"] obtain ok dB dI q2 where
        r: "dropLoop avoid (b + ?s) (i + 1) q1 = Some ((ok, b + ?s + dB, i + 1 + dI), q2)" "drops avoid q1 q2" "qbytes q2 = qbytes q1 - dB"
          "qitems q2 = qitems q1 - dI" "(\<forall>a\<in>#qmem q1. 0 \<le> hsize (hint q1 a)) \<longrightarrow> 0 \<le> dB" "0 \<le> dI" "ok = (\<not> overCap (qitems q2) (qbytes q2) q2)" by blast
      have "dropLoop avoid b i q = dropLoop avoid (b + ?s) (i + 1) q1" using True drop(1) by (subst dropLoop.simps) simp
      moreover have "drops avoid q q2" unfolding drops_def
        by (rule converse_rtranclp_into_rtranclp[of _ _ q1]) (use drop less.prems r(2) in \<open>auto simp: drops_def\<close>)
      moreover have "0 \<le> ?s + dB" if "\<forall>a\<in>#qmem q. 0 \<le> hsize (hint q a)"
        using that r(5) T(2) unfolding payloadD(2)[OF T(3)] by auto
      ultimately show ?thesis using r T(4,5)
        by (intro exI[of _ ok] exI[of _ "?s + dB"] exI[of _ "1 + dI"] exI[of _ q2]) (auto simp: add.assoc)
    next
      case stuck
      then show ?thesis using True
        by (intro exI[of _ False] exI[of _ 0] exI[of _ q]) (subst dropLoop.simps, simp add: drops_def)
    qed
  qed
qed

subsection \<open>Replacing a hint\<close>

text \<open>\<open>swapped x y q q'\<close>: the hint \<open>y\<close> has taken the place of \<open>x\<close>.\<close>

definition swapped :: "addr \<Rightarrow> addr \<Rightarrow> hintQueue \<Rightarrow> hintQueue \<Rightarrow> bool" where
  "swapped x y q q' \<longleftrightarrow>
     (if elem (hint q x) \<noteq> 0
      then ready q' = map (\<lambda>(e, v). if e = elem (hint q x) then (e, y) else (e, v)) (ready q) \<and> delayed q' = delayed q \<and>
           elem (hint q' y) = elem (hint q x) \<and> heapIndex (hint q' y) = - 1
      else delayed q' = (delayed q)[nat (heapIndex (hint q x)) := y] \<and> ready q' = ready q \<and>
           elem (hint q' y) = 0 \<and> heapIndex (hint q' y) = heapIndex (hint q x) \<and> nextAt (hint q' y) = nextAt (hint q x)) \<and>
     (\<forall>b. b \<noteq> x \<and> b \<noteq> y \<longrightarrow> hint q' b = hint q b) \<and> hkey (hint q' y) = hkey (hint q x) \<and> hindex q' = mput (hkey (hint q x)) y (hindex q) \<and>
     qitems q' = qitems q \<and> qbytes q' = qbytes q - hsize (hint q x) + hsize (hint q' y) \<and> etop q' = etop q"

lemma mset_place: "i < length xs \<Longrightarrow> add_mset (xs ! i) (mset (xs[i := y])) = add_mset y (mset xs)"
  by (simp add: mset_update)

lemma places_readyD:
  assumes "places_ok q" "(e, a) \<in> set (ready q)"
  shows "e \<noteq> 0" "e < etop q" "elem (hint q a) = e" "heapIndex (hint q a) = - 1"
  using assms unfolding places_ok_def by blast+

lemma swapped_ready:
  assumes p: "places_ok q" and y: "y \<notin># qmem q" and s: "swapped x y q q'"
    and x: "elem (hint q x) \<noteq> 0" "(elem (hint q x), x) \<in> set (ready q)"
  shows "places_ok q' \<and> add_mset x (qmem q') = add_mset y (qmem q)"
proof -
  have H: "hint q' b = hint q b" if "b \<noteq> x" "b \<noteq> y" for b using s that by (simp add: swapped_def)
  have et: "etop q' = etop q" using s by (simp add: swapped_def)
  have d: "distinct (readyHints q @ delayed q)" "distinct (map fst (ready q))" using p unfolding places_ok_def by blast+
  have yn: "y \<notin> set (readyHints q)" "y \<notin> set (delayed q)" using y by (auto simp: qmem_def)
  let ?e = "elem (hint q x)" let ?g = "\<lambda>(e, v). if e = ?e then (e, y) else (e, v)"
  have e: "?e \<noteq> 0" "(?e, x) \<in> set (ready q)" by (rule x)+
  have R: "ready q' = map ?g (ready q)" "delayed q' = delayed q" "elem (hint q' y) = ?e" "heapIndex (hint q' y) = - 1"
    using s e(1) by (simp_all add: swapped_def)
  obtain i where i: "i < length (ready q)" "ready q ! i = (?e, x)" using e(2) by (auto simp: in_set_conv_nth)
  have g: "map ?g (ready q) = (ready q)[i := (?e, y)]"
  proof (rule nth_equalityI)
    fix j assume j: "j < length (map ?g (ready q))"
    have "fst (ready q ! j) = ?e \<longleftrightarrow> j = i" using nth_eq_iff_index_eq[OF d(2), of j i] i j by simp
    then show "map ?g (ready q) ! j = (ready q)[i := (?e, y)] ! j" using j i by (auto simp: nth_list_update split: prod.splits)
  qed simp
  have rh: "readyHints q' = (readyHints q)[i := y]" unfolding R(1) g by (simp add: map_update)
  have xi: "readyHints q ! i = x" using i by simp
  have M: "add_mset x (mset (readyHints q')) = add_mset y (mset (readyHints q))"
    unfolding rh using mset_place[of i "readyHints q" y] i xi by simp
  have xd: "x \<notin> set (delayed q)" using d(1) xi i by (metis disjoint_iff distinct_append length_map nth_mem)
  have "places_ok q'"
  proof -
    have "distinct (readyHints q' @ delayed q')" using d(1) yn set_update_subset_insert[of "readyHints q" i y] unfolding rh R(2) by (auto simp: distinct_list_update)
    moreover have "map fst (ready q') = map fst (ready q)" unfolding R(1) by (auto simp: comp_def split: prod.splits)
    moreover have "z \<noteq> 0 \<and> z < etop q' \<and> elem (hint q' b) = z \<and> heapIndex (hint q' b) = - 1" if z: "(z, b) \<in> set (ready q')" for z b
    proof -
      have "(z = ?e \<and> b = y) \<or> (z \<noteq> ?e \<and> (z, b) \<in> set (ready q))" using z unfolding R(1) by (auto split: if_splits)
      then show ?thesis
      proof (elim disjE conjE)
        assume "z = ?e" "b = y"
        then show ?thesis using places_readyD[OF p e(2)] R(3,4) et by simp
      next
        assume zb: "z \<noteq> ?e" "(z, b) \<in> set (ready q)"
        note P = places_readyD[OF p zb(2)]
        have "b \<noteq> x" using P(3) zb(1) by auto
        moreover have "b \<noteq> y" using zb(2) yn(1) by force
        ultimately show ?thesis using P et H[of b] by simp
      qed
    qed
    moreover have Hd: "hint q' b = hint q b" if "b \<in> set (delayed q)" for b using H[of b] that xd yn(2) by metis
    moreover have "pos_ok q'" using p Hd unfolding places_ok_def pos_ok_def R(2) by simp
    moreover have "hord (length (delayed q')) (dh.hp q')"
      using p hord_cong[of "length (delayed q)" "dh.hp q" "dh.hp q'"] Hd unfolding places_ok_def R(2) by (simp add: dh.hp_def R(2))
    moreover have "0 < etop q" "\<forall>x\<in>set (delayed q). elem (hint q' x) = 0" using p Hd unfolding places_ok_def by simp_all
    ultimately show ?thesis using d(2) unfolding places_ok_def et R(2) by simp
  qed
  then show ?thesis using M by (simp add: qmem_def R(2))
qed

lemma swapped_delayed:
  assumes p: "places_ok q" and y: "y \<notin># qmem q" and s: "swapped x y q q'"
    and x: "elem (hint q x) = 0" "heapIndex (hint q x) \<ge> 0" "nat (heapIndex (hint q x)) < length (delayed q)" "delayed q ! nat (heapIndex (hint q x)) = x"
  shows "places_ok q' \<and> add_mset x (qmem q') = add_mset y (qmem q)"
proof -
  have H: "hint q' b = hint q b" if "b \<noteq> x" "b \<noteq> y" for b using s that by (simp add: swapped_def)
  have et: "etop q' = etop q" using s by (simp add: swapped_def)
  have d: "distinct (readyHints q @ delayed q)" "distinct (map fst (ready q))" using p unfolding places_ok_def by blast+
  have yn: "y \<notin> set (readyHints q)" "y \<notin> set (delayed q)" using y by (auto simp: qmem_def)
  let ?i = "nat (heapIndex (hint q x))"
  note e = x
  have R: "delayed q' = (delayed q)[?i := y]" "ready q' = ready q" "elem (hint q' y) = 0" "heapIndex (hint q' y) = heapIndex (hint q x)"
    "nextAt (hint q' y) = nextAt (hint q x)" using s e(1) by (simp_all add: swapped_def)
  have M: "add_mset x (mset (delayed q')) = add_mset y (mset (delayed q))" unfolding R(1) using mset_place[OF e(3), of y] e(4) by simp
  have dd: "distinct (delayed q)" using d(1) by simp
  have xr: "x \<notin> set (readyHints q)" using d(1) e(3,4) by (metis disjoint_iff distinct_append nth_mem)
  have N: "j < length (delayed q) \<Longrightarrow> delayed q' ! j = (if j = ?i then y else delayed q ! j)" for j unfolding R(1) by (simp add: nth_list_update)
  have nx: "delayed q ! j \<noteq> x" "delayed q ! j \<noteq> y" if "j < length (delayed q)" "j \<noteq> ?i" for j
    using that dd e(3,4) yn(2) nth_eq_iff_index_eq by (metis, metis nth_mem)
  have L: "length (delayed q') = length (delayed q)" unfolding R(1) by simp
  have Hj: "j < length (delayed q) \<Longrightarrow> j \<noteq> ?i \<Longrightarrow> hint q' (delayed q ! j) = hint q (delayed q ! j)" for j using H nx by metis
  have "pos_ok q'"
  proof -
    have "distinct (delayed q')" using dd yn(2) unfolding R(1) by (simp add: distinct_list_update)
    moreover have "heapIndex (hint q' (delayed q' ! j)) = int j" if "j < length (delayed q)" for j
      using that p Hj[of j] R(4) e(2) unfolding N[OF that] places_ok_def pos_ok_def by auto
    ultimately show ?thesis by (simp add: pos_ok_def L)
  qed
  moreover have "hord (length (delayed q')) (dh.hp q')"
  proof -
    have "dh.hp q' j = dh.hp q j" if "j < length (delayed q)" for j
      using Hj[OF that] R(5) e(4) unfolding dh.hp_def N[OF that] by auto
    then show ?thesis unfolding L using p hord_cong[of "length (delayed q)" "dh.hp q" "dh.hp q'"] by (simp add: places_ok_def)
  qed
  moreover have "distinct (readyHints q' @ delayed q')"
    using d(1) yn dd unfolding R(1,2) by (auto simp: distinct_list_update dest: set_update_subset_insert[THEN subsetD])
  moreover have "elem (hint q' b) = 0" if B: "b \<in> set (delayed q')" for b
  proof -
    obtain j where j: "j < length (delayed q)" "b = delayed q' ! j" using B L by (metis in_set_conv_nth)
    have "elem (hint q (delayed q ! j)) = 0" using p j(1) unfolding places_ok_def by simp
    then show ?thesis using R(3) Hj[OF j(1)] unfolding j(2) N[OF j(1)] by auto
  qed
  moreover have "z \<noteq> 0 \<and> z < etop q' \<and> elem (hint q' b) = z \<and> heapIndex (hint q' b) = - 1" if z: "(z, b) \<in> set (ready q')" for z b
  proof -
    have zb: "(z, b) \<in> set (ready q)" using z unfolding R(2) .
    have "b \<noteq> x" "b \<noteq> y" using zb xr yn(1) by force+
    then show ?thesis using places_readyD[OF p zb] H[of b] et by simp
  qed
  moreover have "0 < etop q" using p by (simp add: places_ok_def)
  ultimately have "places_ok q'" using d(2) unfolding places_ok_def et R(2) by blast
  then show ?thesis using M by (simp add: qmem_def R(2))
qed

lemma swapped_places:
  assumes "places_ok q" "x \<in># qmem q" "y \<notin># qmem q" "swapped x y q q'"
  shows "places_ok q'" "add_mset x (qmem q') = add_mset y (qmem q)"
  using mem_place[OF assms(1,2)] swapped_ready[OF assms(1,3,4)] swapped_delayed[OF assms(1,3,4)] by blast+

lemma swapped_ok:
  assumes q: "qinv q" and x: "x \<in># qmem q" "y \<notin># qmem q" and s: "swapped x y q q'"
  shows "qinv q'" "add_mset x (qmem q') = add_mset y (qmem q)" "cont q' = (cont q)(hkey (hint q x) \<mapsto> payload (hint q' y))"
proof -
  let ?k = "hkey (hint q x)"
  have p: "places_ok q" and I: "mget (hindex q) k = Some b \<longleftrightarrow> b \<in># qmem q \<and> hkey (hint q b) = k" for k b
    using q by (simp_all add: qinv_def index_ok_def)
  note P = swapped_places[OF p x s]
  show "add_mset x (qmem q') = add_mset y (qmem q)" by (rule P(2))
  have H: "hint q' b = hint q b" if "b \<noteq> x" "b \<noteq> y" for b using s that by (simp add: swapped_def)
  have S: "hkey (hint q' y) = ?k" "hindex q' = mput ?k y (hindex q)" "qitems q' = qitems q" "qbytes q' = qbytes q - hsize (hint q x) + hsize (hint q' y)"
    using s by (simp_all add: swapped_def)
  have xy: "x \<noteq> y" using x by blast
  obtain M where M: "qmem q = add_mset x M" using x(1) by (meson mset_add)
  have m: "qmem q' = add_mset y M" using P(2) unfolding M by (simp add: add_mset_commute)
  have n: "x \<notin># M" "y \<notin># M" using qmem_distinct[OF p, of x] x(2) unfolding M by (auto simp: not_in_iff)
  have HM: "hint q' b = hint q b" if "b \<in># M" for b using H[of b] that n by metis
  have ix: "mget (hindex q') = (mget (hindex q))(?k \<mapsto> y)" unfolding S(2) by (rule mget_mput)
  have kM: "hkey (hint q b) \<noteq> ?k" if "b \<in># M" for b using index_unique[OF q, of b x] that n(1) unfolding M by auto
  have "index_ok q'" unfolding index_ok_def
  proof (intro conjI allI)
    show "wf_map (hindex q')" using q unfolding S(2) by (simp add: qinv_def index_ok_def map_simps)
    fix k b
    show "mget (hindex q') k = Some b \<longleftrightarrow> b \<in># qmem q' \<and> hkey (hint q' b) = k"
    proof (cases "k = ?k")
      case True
      have "b = y" if "b \<in># qmem q'" "hkey (hint q' b) = ?k" using that kM[of b] HM[of b] unfolding m by auto
      then show ?thesis using True S(1) unfolding ix m by auto
    next
      case False
      have "b \<in># qmem q \<and> hkey (hint q b) = k \<longleftrightarrow> b \<in># qmem q' \<and> hkey (hint q' b) = k"
        using False S(1) HM[of b] unfolding M m by auto
      then show ?thesis using I[of k b] False unfolding ix by simp
    qed
  qed
  moreover have "counts_ok q'"
  proof -
    have "(\<Sum>a\<in>#M. hsize (hint q' a)) = (\<Sum>a\<in>#M. hsize (hint q a))"
      by (rule arg_cong[where f = sum_mset], rule image_mset_cong) (simp add: HM)
    then show ?thesis using q S(3,4) unfolding qinv_def counts_ok_def M m by simp
  qed
  ultimately show Q: "qinv q'" using P(1) unfolding qinv_def by blast
  show "cont q' = (cont q)(?k \<mapsto> payload (hint q' y))"
  proof (rule ext)
    fix k
    show "cont q' k = ((cont q)(?k \<mapsto> payload (hint q' y))) k"
    proof (cases "k \<noteq> ?k \<and> mget (hindex q) k \<noteq> None")
      case True
      then obtain b where b: "mget (hindex q) k = Some b" by blast
      then have "b \<in># M" using I[of k b] True unfolding M by auto
      then show ?thesis using True b HM[of b] by (simp add: cont_def ix)
    next
      case False
      then show ?thesis by (auto simp: cont_def ix)
    qed
  qed
qed

lemma replaceHint_swapped:
  assumes q: "qinv q" and x: "old \<in># qmem q" "it \<notin># qmem q" "hkey (hint q it) = hkey (hint q old)"
  shows "swapped old it q (replaceHint it old q)"
    "payload (hint (replaceHint it old q) it) = (let h = payload (hint q it) in if elem (hint q old) = 0 then h\<lparr>nextAt := nextAt (hint q old), tries := tries (hint q old)\<rparr> else h)"
    "qcfg (replaceHint it old q) = qcfg q" "hint (replaceHint it old q) old = hint q old"
proof -
  have p: "places_ok q" using q by (simp add: qinv_def)
  have ne: "it \<noteq> old" using x by blast
  from mem_place[OF p x(1)] have c: "(elem (hint q old) \<noteq> 0 \<and> \<not> heapIndex (hint q old) \<ge> 0) \<or> (elem (hint q old) = 0 \<and> heapIndex (hint q old) \<ge> 0)"
    using places_readyD(4)[OF p, of _ old] by (metis neg_0_le_iff_le not_one_le_zero)
  then show "swapped old it q (replaceHint it old q)" using ne x(3)
    by (elim disjE) (auto simp: swapped_def replaceHint_def Let_def hint_setHint)
  show "payload (hint (replaceHint it old q) it) = (let h = payload (hint q it) in if elem (hint q old) = 0 then h\<lparr>nextAt := nextAt (hint q old), tries := tries (hint q old)\<rparr> else h)"
    using c by (auto simp: replaceHint_def Let_def hint_setHint payload_def)
  show "qcfg (replaceHint it old q) = qcfg q" by (simp add: replaceHint_def Let_def qcfg_def)
  show "hint (replaceHint it old q) old = hint q old" using ne by (simp add: replaceHint_def Let_def hint_setHint)
qed

lemma revert_swapped:
  assumes q: "qinv q" and x: "it \<in># qmem q" "old \<notin># qmem q" "hkey (hint q old) = hkey (hint q it)"
    and o: "if elem (hint q it) \<noteq> 0 then heapIndex (hint q old) = - 1 else elem (hint q old) = 0 \<and> nextAt (hint q old) = nextAt (hint q it)"
    and d: "delta = hsize (hint q it) - hsize (hint q old)"
  shows "swapped it old q (revertReplace (elem (hint q it) \<noteq> 0) it old delta q)"
    "payload (hint (revertReplace (elem (hint q it) \<noteq> 0) it old delta q) old) = payload (hint q old)"
    "qcfg (revertReplace (elem (hint q it) \<noteq> 0) it old delta q) = qcfg q"
proof -
  have ne: "it \<noteq> old" using x by blast
  show "swapped it old q (revertReplace (elem (hint q it) \<noteq> 0) it old delta q)" using ne x(3) o d
    by (cases "elem (hint q it) \<noteq> 0") (auto simp: swapped_def revertReplace_def Let_def hint_setHint)
  show "payload (hint (revertReplace (elem (hint q it) \<noteq> 0) it old delta q) old) = payload (hint q old)"
    using ne by (auto simp: revertReplace_def Let_def hint_setHint payload_def)
  show "qcfg (revertReplace (elem (hint q it) \<noteq> 0) it old delta q) = qcfg q" by (simp add: revertReplace_def Let_def qcfg_def)
qed

subsection \<open>Enqueueing\<close>

lemma overCap_cfg: "qcfg q' = qcfg q \<Longrightarrow> overCap i b q' = overCap i b q"
  by (simp add: overCap_def qcfg_def)

lemma overCap_mono: "overCap i b q \<Longrightarrow> i \<le> i' \<Longrightarrow> b \<le> b' \<Longrightarrow> overCap i' b' q"
  by (auto simp: overCap_def)

lemma hsize_mem:
  assumes "\<forall>a. a \<in># qmem q \<longrightarrow> 0 \<le> hsize (hint q a)" "\<And>b. payload (hint q' b) = payload (hint q b)" "qmem q' \<subseteq># qmem q"
  shows "\<forall>a. a \<in># qmem q' \<longrightarrow> 0 \<le> hsize (hint q' a)"
  using assms(1,3) unfolding payloadD(2)[OF assms(2)] by (meson mset_subset_eqD)

text \<open>The state after a replacement, \<open>q\<close> being the queue before.\<close>

definition replaced :: "addr \<Rightarrow> addr \<Rightarrow> hintQueue \<Rightarrow> hintQueue \<Rightarrow> bool" where
  "replaced it old q q1 \<longleftrightarrow> qinv q1 \<and> it \<in># qmem q1 \<and> old \<notin># qmem q1 \<and> add_mset old (qmem q1) = add_mset it (qmem q) \<and>
     (\<forall>a. a \<in># qmem q1 \<longrightarrow> 0 \<le> hsize (hint q1 a)) \<and> qitems q1 = qitems q \<and> qbytes q1 = qbytes q + (hsize (hint q it) - hsize (hint q old)) \<and>
     qcfg q1 = qcfg q \<and> hint q1 old = hint q old \<and> hkey (hint q1 it) = hkey (hint q it) \<and> hsize (hint q1 it) = hsize (hint q it) \<and>
     map_option hwrite (cont q1 (hkey (hint q it))) = Some (hwrite (hint q it)) \<and> (\<forall>j. j \<noteq> hkey (hint q it) \<longrightarrow> cont q1 j = cont q j) \<and>
     elem (hint q1 it) = elem (hint q old) \<and> heapIndex (hint q1 it) = heapIndex (hint q old) \<and>
     (elem (hint q old) = 0 \<longrightarrow> nextAt (hint q1 it) = nextAt (hint q old))"

lemma replaceHint_spec:
  assumes q: "hq_inv q" and i: "it \<notin># qmem q" "0 \<le> hsize (hint q it)" and om: "old \<in># qmem q" "hkey (hint q it) = hkey (hint q old)"
  shows "replaced it old q (replaceHint it old q)"
proof -
  let ?k = "hkey (hint q it)" let ?q1 = "replaceHint it old q"
  have qi: "qinv q" "\<forall>a. a \<in># qmem q \<longrightarrow> 0 \<le> hsize (hint q a)" using q unfolding hq_inv_def by blast+
  note R = replaceHint_swapped[OF qi(1) om(1) i(1) om(2)]
  note S = swapped_ok[OF qi(1) om(1) i(1) R(1)]
  have ne: "it \<noteq> old" using om(1) i(1) by blast
  obtain M where M: "qmem q = add_mset old M" using om(1) by (meson mset_add)
  have m1: "qmem ?q1 = add_mset it M" using S(2) unfolding M by (simp add: add_mset_commute)
  have "old \<notin># M" using qmem_distinct[of q old] qi(1) unfolding M qinv_def by (simp add: not_in_iff)
  then have on: "old \<notin># qmem ?q1" and im: "it \<in># qmem ?q1" using ne unfolding m1 by auto
  have k1: "hkey (hint ?q1 it) = ?k" using R(1) om(2) unfolding swapped_def by simp
  have h1: "hsize (hint ?q1 it) = hsize (hint q it)" "hwrite (payload (hint ?q1 it)) = hwrite (hint q it)"
    using R(2) by (auto simp: payload_def hwrite_def Let_def split: if_splits dest: arg_cong[of _ _ hsize])
  have sz1: "0 \<le> hsize (hint ?q1 a)" if a: "a \<in># qmem ?q1" for a
  proof (cases "a = it")
    case False
    then have "hint ?q1 a = hint q a" "a \<in># qmem q" using a R(1) on unfolding swapped_def m1 M by auto
    then show ?thesis using qi(2) by simp
  qed (use h1 i(2) in simp)
  have hi: "heapIndex (hint q old) = - 1" if "elem (hint q old) \<noteq> 0"
    using mem_place[of q old] om(1) qi(1) that places_readyD(4)[of q _ old] unfolding qinv_def by metis
  have "elem (hint ?q1 it) = elem (hint q old)" "heapIndex (hint ?q1 it) = heapIndex (hint q old)"
    "elem (hint q old) = 0 \<Longrightarrow> nextAt (hint ?q1 it) = nextAt (hint q old)"
    using R(1) hi unfolding swapped_def by (auto split: if_splits)
  moreover have "qitems ?q1 = qitems q" "qbytes ?q1 = qbytes q + (hsize (hint q it) - hsize (hint q old))"
    using R(1) h1(1) unfolding swapped_def by simp_all
  ultimately show ?thesis using S on im R(3,4) k1 h1 om(2) sz1 unfolding replaced_def by auto
qed

text \<open>Undoing a replacement, after some drops, gives back the old hint.\<close>

lemma undo_spec:
  assumes q: "hq_inv q" "old \<in># qmem q" "it \<notin># qmem q" "hkey (hint q it) = hkey (hint q old)" and r: "replaced it old q q1" and d: "drops it q1 q2"
    and s: "swapped it old q2 q3" "payload (hint q3 old) = payload (hint q2 old)" "qcfg q3 = qcfg q2"
    and c: "qbytes q2 = qbytes q1 - dB" "qitems q2 = qitems q1 - dI" "0 \<le> dB" "0 \<le> dI" "dI \<noteq> 0 \<or> dB \<noteq> 0 \<or> q2 \<noteq> q1 \<Longrightarrow> qdrop q = DropOldest"
  shows "enqueued it q (False, dB, - dI) q3"
proof -
  let ?k = "hkey (hint q it)"
  have Q: "qinv q" "\<forall>a. a \<in># qmem q \<longrightarrow> 0 \<le> hsize (hint q a)" "\<not> overCap (qitems q) (qbytes q) q" using q(1) unfolding hq_inv_def by blast+
  have R: "qinv q1" "it \<in># qmem q1" "old \<notin># qmem q1" "add_mset old (qmem q1) = add_mset it (qmem q)" "\<forall>a. a \<in># qmem q1 \<longrightarrow> 0 \<le> hsize (hint q1 a)"
    "qitems q1 = qitems q" "qbytes q1 = qbytes q + (hsize (hint q it) - hsize (hint q old))" "qcfg q1 = qcfg q" "hint q1 old = hint q old"
    "hkey (hint q1 it) = ?k" "hsize (hint q1 it) = hsize (hint q it)" "\<And>j. j \<noteq> ?k \<Longrightarrow> cont q1 j = cont q j"
    using r unfolding replaced_def by blast+
  have D: "qinv q2" "qcfg q2 = qcfg q1" "\<And>b. payload (hint q2 b) = payload (hint q1 b)" "qmem q2 \<subseteq># qmem q1" "\<And>k. cont q2 k = cont q1 k \<or> cont q2 k = None"
    "hint q2 old = hint q1 old" "it \<in># qmem q2" using drops_spec[OF d R(1)] R(2,3) by simp_all
  have on: "old \<notin># qmem q2" using D(4) R(3) by (meson mset_subset_eqD)
  note S = swapped_ok[OF D(1,7) on s(1)]
  have ki: "hkey (hint q2 it) = ?k" "hsize (hint q2 it) = hsize (hint q it)" using payloadD(1,2)[OF D(3)] R(10,11) by simp_all
  have po: "payload (hint q3 old) = payload (hint q old)" using s(2) D(6) R(9) by simp
  have b3: "qbytes q3 = qbytes q - dB" "qitems q3 = qitems q - dI"
    using s(1) c(1,2) R(6,7) ki(2) payloadD(2)[OF po] unfolding swapped_def by simp_all
  have cap: "\<not> overCap (qitems q3) (qbytes q3) q3"
    using Q(3) overCap_mono[of "qitems q3" "qbytes q3" q "qitems q" "qbytes q"] b3 c(3,4) overCap_cfg[of q3 q] s(3) D(2) R(8) by auto
  obtain M where M: "qmem q2 = add_mset it M" using D(7) by (meson mset_add)
  have m3: "qmem q3 = add_mset old M" using S(2) unfolding M by (simp add: add_mset_commute)
  have sub: "set_mset (qmem q3) \<subseteq> set_mset (qmem q)"
  proof -
    have "add_mset old (qmem q2) \<subseteq># add_mset it (qmem q)" using D(4) R(4) by (metis insert_subset_eq_iff mset_subset_eq_add_mset_cancel)
    then have "add_mset old M \<subseteq># qmem q" unfolding M by (simp add: add_mset_commute[of old it])
    then show ?thesis unfolding m3 by (rule set_mset_mono)
  qed
  have sz: "0 \<le> hsize (hint q3 a)" if a: "a \<in># qmem q3" for a
  proof (cases "a = old")
    case True
    then show ?thesis using Q(2) q(2) payloadD(2)[OF po] by simp
  next
    case False
    have am: "a \<in># qmem q2" "a \<noteq> it" using False a sub q(3) unfolding m3 M by auto
    then have "hint q3 a = hint q2 a" using s(1) False unfolding swapped_def by blast
    moreover have "a \<in># qmem q1" using am(1) D(4) by (meson mset_subset_eqD)
    ultimately show ?thesis using R(5) payloadD(2)[OF D(3)[of a]] by simp
  qed
  have ck: "cont q ?k = Some (payload (hint q old))" unfolding q(4) by (rule cont_mem[OF Q(1) q(2)])
  have c3: "cont q3 ?k = cont q ?k" using S(3) ki(1) po ck by simp
  have co: "cont q3 j = cont q j \<or> cont q3 j = None \<and> qdrop q = DropOldest" if "j \<noteq> ?k" for j
  proof (cases "q2 = q1")
    case True
    then show ?thesis using S(3) ki(1) R(12)[OF that] that by simp
  next
    case False
    then show ?thesis using S(3) ki(1) D(5)[of j] R(12)[OF that] c(5) that by auto
  qed
  show ?thesis using S(1) sz cap sub c3 co b3 ck s(3) D(2) R(8) unfolding enqueued_def hq_inv_def Let_def by auto
qed

lemma restore_swapped:
  assumes r: "replaced it old q q1" and k: "hkey (hint q it) = hkey (hint q old)"
  shows "swapped it old q1 (restoreOld it old (hsize (hint q it) - hsize (hint q old)) q1)"
proof -
  have R: "qinv q1" "it \<in># qmem q1" "hint q1 old = hint q old" "hkey (hint q1 it) = hkey (hint q it)" "hsize (hint q1 it) = hsize (hint q it)"
    "elem (hint q1 it) = elem (hint q old)" "heapIndex (hint q1 it) = heapIndex (hint q old)"
    "elem (hint q old) = 0 \<Longrightarrow> nextAt (hint q1 it) = nextAt (hint q old)"
    using r unfolding replaced_def by simp_all
  have p: "places_ok q1" using R(1) by (simp add: qinv_def)
  have "heapIndex (hint q1 it) = - 1" if "elem (hint q1 it) \<noteq> 0"
    using mem_place[OF p R(2)] that places_readyD(4)[OF p, of _ it] by metis
  moreover have "0 \<le> heapIndex (hint q1 it)" if "elem (hint q1 it) = 0" using mem_place[OF p R(2)] that by metis
  ultimately show ?thesis using R(3-8) k by (cases "elem (hint q1 it) = 0") (auto simp: swapped_def restoreOld_def Let_def)
qed

text \<open>A hint that went in with a change of the counters, before the caps are enforced.\<close>

definition admitted :: "addr \<Rightarrow> hintQueue \<Rightarrow> int \<Rightarrow> int \<Rightarrow> hintQueue \<Rightarrow> bool" where
  "admitted it q b n q1 \<longleftrightarrow> qinv q1 \<and> it \<in># qmem q1 \<and> set_mset (qmem q1) \<subseteq> insert it (set_mset (qmem q)) \<and>
     (\<forall>a. a \<in># qmem q1 \<longrightarrow> 0 \<le> hsize (hint q1 a)) \<and> qitems q1 = qitems q + n \<and> qbytes q1 = qbytes q + b \<and> qcfg q1 = qcfg q \<and>
     hkey (hint q1 it) = hkey (hint q it) \<and> map_option hwrite (cont q1 (hkey (hint q it))) = Some (hwrite (hint q it)) \<and>
     (\<forall>j. j \<noteq> hkey (hint q it) \<longrightarrow> cont q1 j = cont q j)"

lemma admitted_enqueued:
  assumes a: "admitted it q b n q1" and d: "drops it q1 q2" and c: "qbytes q2 = qbytes q1 - dB" "qitems q2 = qitems q1 - dI"
    "\<not> overCap (qitems q2) (qbytes q2) q2" "q2 \<noteq> q1 \<Longrightarrow> qdrop q = DropOldest"
  shows "enqueued it q (True, b - dB, n - dI) q2"
proof -
  have A: "qinv q1" "it \<in># qmem q1" "set_mset (qmem q1) \<subseteq> insert it (set_mset (qmem q))" "\<forall>a. a \<in># qmem q1 \<longrightarrow> 0 \<le> hsize (hint q1 a)"
    "qitems q1 = qitems q + n" "qbytes q1 = qbytes q + b" "qcfg q1 = qcfg q" "hkey (hint q1 it) = hkey (hint q it)"
    "map_option hwrite (cont q1 (hkey (hint q it))) = Some (hwrite (hint q it))" "\<And>j. j \<noteq> hkey (hint q it) \<Longrightarrow> cont q1 j = cont q j"
    using a unfolding admitted_def by blast+
  have D: "qinv q2" "qcfg q2 = qcfg q1" "\<And>b. payload (hint q2 b) = payload (hint q1 b)" "qmem q2 \<subseteq># qmem q1" "\<And>k. cont q2 k = cont q1 k \<or> cont q2 k = None"
    "it \<in># qmem q2" using drops_spec[OF d A(1)] A(2) by simp_all
  have "hkey (hint q2 it) = hkey (hint q it)" using payloadD(1)[OF D(3)] A(8) by simp
  then have "cont q2 (hkey (hint q it)) \<noteq> None" using cont_mem[OF D(1,6)] by simp
  then have "cont q2 (hkey (hint q it)) = cont q1 (hkey (hint q it))" using D(5) by metis
  moreover have "set_mset (qmem q2) \<subseteq> insert it (set_mset (qmem q))" using A(3) set_mset_mono[OF D(4)] by blast
  moreover have "cont q2 j = cont q j \<or> cont q2 j = None \<and> qdrop q = DropOldest" if "j \<noteq> hkey (hint q it)" for j
    using D(5)[of j] A(10)[OF that] c(4) by (cases "q2 = q1") auto
  ultimately show ?thesis
    using D(1,2) A(5-7,9) c hsize_mem[OF A(4) D(3,4)] unfolding enqueued_def hq_inv_def Let_def by auto
qed

lemma replaced_admitted:
  assumes "replaced it old q q1"
  shows "admitted it q (hsize (hint q it) - hsize (hint q old)) 0 q1"
proof -
  have "add_mset old (qmem q1) = add_mset it (qmem q)" using assms by (simp add: replaced_def)
  then have "set_mset (qmem q1) \<subseteq> insert it (set_mset (qmem q))" by (metis insertCI set_mset_add_mset_insert subsetI)
  then show ?thesis using assms unfolding admitted_def replaced_def by simp
qed

lemma coalesce_spec:
  assumes q: "hq_inv q" and i: "it \<notin># qmem q" "0 \<le> hsize (hint q it)" and o: "mget (hindex q) (hkey (hint q it)) = Some old"
  shows "\<exists>r q'. coalesce it old q = Some (r, q') \<and> enqueued it q r q'"
proof (cases "hver (hint q it) \<le> hver (hint q old)")
  case True
  then show ?thesis using q by (intro exI[of _ "(False, 0, 0)"] exI[of _ q]) (auto simp: coalesce_def enqueued_def Let_def)
next
  case False
  let ?q1 = "replaceHint it old q" let ?d = "hsize (hint q it) - hsize (hint q old)"
  have om: "old \<in># qmem q" "hkey (hint q it) = hkey (hint q old)" using o q unfolding hq_inv_def qinv_def index_ok_def by metis+
  note rep = replaceHint_spec[OF q i om]
  have R: "qinv ?q1" "it \<in># qmem ?q1" "old \<notin># qmem ?q1" "add_mset old (qmem ?q1) = add_mset it (qmem q)" "\<forall>a. a \<in># qmem ?q1 \<longrightarrow> 0 \<le> hsize (hint ?q1 a)"
    "qitems ?q1 = qitems q" "qbytes ?q1 = qbytes q + ?d" "qcfg ?q1 = qcfg q" "hint ?q1 old = hint q old" "elem (hint ?q1 it) = elem (hint q old)"
    "map_option hwrite (cont ?q1 (hkey (hint q it))) = Some (hwrite (hint q it))" "\<And>j. j \<noteq> hkey (hint q it) \<Longrightarrow> cont ?q1 j = cont q j"
    "hkey (hint ?q1 it) = hkey (hint q it)" "hsize (hint ?q1 it) = hsize (hint q it)" "heapIndex (hint ?q1 it) = heapIndex (hint q old)"
    "elem (hint q old) = 0 \<Longrightarrow> nextAt (hint ?q1 it) = nextAt (hint q old)"
    using rep unfolding replaced_def by blast+
  have qd: "qdrop ?q1 = qdrop q" using R(8) by (simp add: qcfg_def)
  note adm = replaced_admitted[OF rep]
  show ?thesis
  proof (cases "overCap (qitems ?q1) (qbytes ?q1) ?q1")
    case nc: False
    have "enqueued it q (True, ?d, 0) ?q1" using admitted_enqueued[OF adm, of ?q1 0 0] nc by (simp add: drops_def)
    moreover have "coalesce it old q = Some ((True, ?d, 0), ?q1)" using False nc by (simp add: coalesce_def Let_def)
    ultimately show ?thesis by blast
  next
    case oc: True
    show ?thesis
    proof (cases "qdrop q = DropOldest")
      case nd: False
      have e: "coalesce it old q = Some ((False, 0, - 0), restoreOld it old ?d ?q1)"
        using False oc nd qd by (cases "qdrop q") (auto simp: coalesce_def Let_def)
      have "enqueued it q (False, 0, - 0) (restoreOld it old ?d ?q1)"
      proof (rule undo_spec[OF q om(1) i(1) om(2) rep _ restore_swapped[OF rep om(2)]])
        show "drops it ?q1 ?q1" by (simp add: drops_def)
      qed (simp_all add: restoreOld_def Let_def qcfg_def)
      then show ?thesis using e by blast
    next
      case dr: True
      obtain ok dB dI q2 where L: "dropLoop it 0 0 ?q1 = Some ((ok, dB, dI), q2)" "drops it ?q1 q2" "qbytes q2 = qbytes ?q1 - dB" "qitems q2 = qitems ?q1 - dI"
        "0 \<le> dB" "0 \<le> dI" "ok = (\<not> overCap (qitems q2) (qbytes q2) q2)" using dropLoop_spec[OF R(1), of it 0 0] R(5) by auto
      have D: "qinv q2" "qcfg q2 = qcfg ?q1" "\<And>b. payload (hint q2 b) = payload (hint ?q1 b)" "qmem q2 \<subseteq># qmem ?q1" "\<And>k. cont q2 k = cont ?q1 k \<or> cont q2 k = None"
        "hint q2 old = hint ?q1 old" "it \<in># qmem q2" "elem (hint q2 it) = elem (hint ?q1 it)" using drops_spec[OF L(2) R(1)] R(2,3) by simp_all
      show ?thesis
      proof (cases ok)
        case True
        have e: "coalesce it old q = Some ((True, ?d - dB, - dI), q2)" using False oc dr qd L(1) True by (simp add: coalesce_def Let_def)
        have "enqueued it q (True, ?d - dB, 0 - dI) q2" by (rule admitted_enqueued[OF adm L(2-4)]) (use L(7) True dr in auto)
        then have "enqueued it q (True, ?d - dB, - dI) q2" by simp
        then show ?thesis using e by blast
      next
        case nok: False
        let ?q3 = "revertReplace (elem (hint q old) \<noteq> 0) it old ?d q2"
        have e: "coalesce it old q = Some ((False, dB, - dI), ?q3)" using False oc dr qd L(1) nok by (simp add: coalesce_def Let_def)
        have on: "old \<notin># qmem q2" using D(4) R(3) by (meson mset_subset_eqD)
        have x: "hkey (hint q2 old) = hkey (hint q2 it)" "hsize (hint q2 it) = hsize (hint q it)" "nextAt (hint q2 it) = nextAt (hint ?q1 it)"
          using payloadD(1-3)[OF D(3)[of it]] R(9,13,14) D(6) om(2) by simp_all
        have hi: "heapIndex (hint q old) = - 1" if "elem (hint q old) \<noteq> 0"
          using mem_place[of q old] om(1) q that places_readyD(4)[of q _ old] unfolding hq_inv_def qinv_def by metis
        have W: "swapped it old q2 ?q3" "payload (hint ?q3 old) = payload (hint q2 old)" "qcfg ?q3 = qcfg q2"
          using revert_swapped[OF D(1,7) on x(1), of ?d] D(6,8) R(9,10,16) x hi by simp_all
        have "enqueued it q (False, dB, - dI) ?q3"
          by (rule undo_spec[OF q om(1) i(1) om(2) rep L(2) W L(3-6)]) (rule dr)
        then show ?thesis using e by blast
      qed
    qed
  qed
qed

lemma place_ready:
  assumes p: "places_ok q" and i: "it \<notin># qmem q"
  defines "q' \<equiv> setHint it (\<lambda>h. h\<lparr>heapIndex := - 1\<rparr>) (readyPushBack it q)"
  shows "places_ok q' \<and> qmem q' = add_mset it (qmem q) \<and> (\<forall>b. payload (hint q' b) = payload (hint q b)) \<and>
    hindex q' = hindex q \<and> qitems q' = qitems q \<and> qbytes q' = qbytes q \<and> qcfg q' = qcfg q"
proof -
  have R: "ready q' = ready q @ [(etop q, it)]" "delayed q' = delayed q" "etop q' = etop q + 1"
    "hint q' b = (if b = it then (hint q it)\<lparr>elem := etop q, heapIndex := - 1\<rparr> else hint q b)" for b
    by (simp_all add: q'_def readyPushBack_def hint_setHint)
  have n: "it \<notin> set (readyHints q)" "it \<notin> set (delayed q)" using i by (auto simp: qmem_def)
  have d: "distinct (readyHints q @ delayed q)" "distinct (map fst (ready q))" "0 < etop q" using p unfolding places_ok_def by blast+
  have fresh: "etop q \<notin> fst ` set (ready q)" using places_readyD(2)[OF p] by fastforce
  have "z \<noteq> 0 \<and> z < etop q' \<and> elem (hint q' b) = z \<and> heapIndex (hint q' b) = - 1" if z: "(z, b) \<in> set (ready q')" for z b
  proof (cases "b = it")
    case True
    then show ?thesis using z n(1) d(3) unfolding R by force
  next
    case False
    then have "(z, b) \<in> set (ready q)" using z unfolding R by simp
    then show ?thesis using places_readyD[OF p] False unfolding R by fastforce
  qed
  moreover have "pos_ok q'" "hord (length (delayed q')) (dh.hp q')" "\<forall>a\<in>set (delayed q'). elem (hint q' a) = 0"
  proof -
    have h: "hint q' a = hint q a" if "a \<in> set (delayed q)" for a using that n(2) unfolding R by auto
    then show "pos_ok q'" "\<forall>a\<in>set (delayed q'). elem (hint q' a) = 0" using p unfolding places_ok_def pos_ok_def R(2) by simp_all
    show "hord (length (delayed q')) (dh.hp q')"
      using p h hord_cong[of "length (delayed q)" "dh.hp q" "dh.hp q'"] unfolding places_ok_def R(2) by (simp add: dh.hp_def R(2))
  qed
  moreover have "distinct (readyHints q' @ delayed q')" "distinct (map fst (ready q'))" using d n fresh unfolding R by auto
  moreover have "0 < etop q'" unfolding R by simp
  ultimately have "places_ok q'" unfolding places_ok_def by blast
  moreover have "qmem q' = add_mset it (qmem q)" by (simp add: qmem_def R)
  moreover have "payload (hint q' b) = payload (hint q b)" for b unfolding R by (simp add: payload_def)
  ultimately show ?thesis by (simp add: q'_def readyPushBack_def qcfg_def)
qed

lemma place_delayed:
  assumes p: "places_ok q" and i: "it \<notin># qmem q"
  defines "q' \<equiv> setHint it (\<lambda>h. h\<lparr>elem := 0\<rparr>) (heap_Push it q)"
  shows "places_ok q' \<and> qmem q' = add_mset it (qmem q) \<and> (\<forall>b. payload (hint q' b) = payload (hint q b)) \<and>
    hindex q' = hindex q \<and> qitems q' = qitems q \<and> qbytes q' = qbytes q \<and> qcfg q' = qcfg q"
proof -
  let ?q = "heap_Push it q"
  have n: "it \<notin> set (readyHints q)" "it \<notin> set (delayed q)" using i by (auto simp: qmem_def)
  have d: "distinct (readyHints q @ delayed q)" "distinct (map fst (ready q))" "0 < etop q" "qheap q" using p unfolding places_ok_def by blast+
  have H: "qheap ?q" "mset (delayed ?q) = add_mset it (mset (delayed q))" "hkeep it q ?q" using heap_Push_ok[OF d(4) n(2)] by blast+
  note K = hkeepD[OF H(3)]
  have R: "ready q' = ready q" "delayed q' = delayed ?q" "etop q' = etop q" "hint q' b = (if b = it then (hint ?q it)\<lparr>elem := 0\<rparr> else hint ?q b)" for b
    using K(4,6) by (simp_all add: q'_def hint_setHint)
  have s: "set (delayed q') = insert it (set (delayed q))" unfolding R using H(2) by (metis set_mset_add_mset_insert set_mset_mset)
  have "z \<noteq> 0 \<and> z < etop q' \<and> elem (hint q' b) = z \<and> heapIndex (hint q' b) = - 1" if z: "(z, b) \<in> set (ready q')" for z b
  proof -
    have zb: "(z, b) \<in> set (ready q)" using z unfolding R .
    then have "b \<noteq> it" "b \<notin> set (delayed q)" using n(1) d(1) by force+
    then show ?thesis using places_readyD[OF p zb] K(3)[of b] unfolding R by simp
  qed
  moreover have "\<forall>a\<in>set (delayed q'). elem (hint q' a) = 0" using p K(2) unfolding s places_ok_def by (simp add: R(4))
  moreover have "pos_ok q'" "hord (length (delayed q')) (dh.hp q')"
  proof -
    have h: "heapIndex (hint q' a) = heapIndex (hint ?q a)" "nextAt (hint q' a) = nextAt (hint ?q a)" for a unfolding R by simp_all
    then show "pos_ok q'" using H(1) unfolding pos_ok_def R(2) by simp
    have "dh.hp q' = dh.hp ?q" by (rule ext) (simp add: dh.hp_def h R(2))
    then show "hord (length (delayed q')) (dh.hp q')" using H(1) R(2) by simp
  qed
  moreover have "distinct (readyHints q' @ delayed q')"
    using d n s calculation(3) unfolding R(1) pos_ok_def by auto
  ultimately have "places_ok q'" using d(2,3) unfolding places_ok_def R(1,3) by blast
  moreover have "qmem q' = add_mset it (qmem q)" by (simp add: qmem_def R H(2))
  moreover have "payload (hint q' b) = payload (hint q b)" for b using K(1) unfolding R by simp
  ultimately show ?thesis using K(5,7-9) by (simp add: q'_def qcfg_def)
qed

lemma placeNew_spec:
  assumes "places_ok q" "it \<notin># qmem q"
  shows "places_ok (placeNew now it q)" "qmem (placeNew now it q) = add_mset it (qmem q)"
    "\<And>b. payload (hint (placeNew now it q) b) = payload (hint q b)" "hindex (placeNew now it q) = hindex q"
    "qitems (placeNew now it q) = qitems q" "qbytes (placeNew now it q) = qbytes q" "qcfg (placeNew now it q) = qcfg q"
  using place_ready[OF assms] place_delayed[OF assms] unfolding placeNew_def by simp_all

lemma insert_admitted:
  fixes now :: int
  assumes q: "hq_inv q" and i: "it \<notin># qmem q" "0 \<le> hsize (hint q it)" and k: "mget (hindex q) (hkey (hint q it)) = None"
  defines "q0 \<equiv> placeNew now it q"
  defines "q1 \<equiv> q0\<lparr>hindex := mput (hkey (hint q0 it)) it (hindex q0), qitems := qitems q0 + 1, qbytes := qbytes q0 + hsize (hint q0 it)\<rparr>"
  shows "admitted it q (hsize (hint q it)) 1 q1"
proof -
  let ?k = "hkey (hint q it)"
  have Q: "places_ok q" "index_ok q" "counts_ok q" "\<forall>a. a \<in># qmem q \<longrightarrow> 0 \<le> hsize (hint q a)" using q unfolding hq_inv_def qinv_def by blast+
  note P = placeNew_spec[OF Q(1) i(1), of now, folded q0_def]
  have h1: "payload (hint q1 b) = payload (hint q b)" for b using P(3) by (simp add: q1_def)
  note H = payloadD(1,2)[OF h1] and H0 = payloadD(1,2)[OF P(3)]
  have m1: "qmem q1 = add_mset it (qmem q)" using P(2) by (simp add: q1_def qmem_def)
  have ix: "hindex q1 = mput ?k it (hindex q)" using P(4) H0 by (simp add: q1_def)
  have mg: "mget (hindex q1) = (mget (hindex q))(?k \<mapsto> it)" unfolding ix by (rule mget_mput)
  have I: "mget (hindex q) x = Some b \<longleftrightarrow> b \<in># qmem q \<and> hkey (hint q b) = x" for x b using Q(2) by (simp add: index_ok_def)
  have no: "hkey (hint q b) \<noteq> ?k" if "b \<in># qmem q" for b using I[of ?k b] that k by auto
  have "places_ok q1" by (rule places_cong[OF P(1)]) (simp_all add: q1_def)
  moreover have "index_ok q1" unfolding index_ok_def
  proof (intro conjI allI)
    show "wf_map (hindex q1)" using Q(2) unfolding ix by (simp add: index_ok_def map_simps)
    fix x b
    show "mget (hindex q1) x = Some b \<longleftrightarrow> b \<in># qmem q1 \<and> hkey (hint q1 b) = x"
      using I[of x b] no[of b] i(1) unfolding mg m1 H by (cases "x = ?k") auto
  qed
  moreover have "counts_ok q1"
    using Q(3) sum_payload[OF h1, of "qmem q"] H H0 P(5,6) unfolding counts_ok_def m1 by (simp add: q1_def)
  ultimately have "qinv q1" by (simp add: qinv_def)
  moreover have "\<forall>a. a \<in># qmem q1 \<longrightarrow> 0 \<le> hsize (hint q1 a)" using Q(4) i(2) unfolding m1 H by simp
  moreover have "qitems q1 = qitems q + 1" "qbytes q1 = qbytes q + hsize (hint q it)" "qcfg q1 = qcfg q"
    using P(5-7) H0 by (simp_all add: q1_def qcfg_def)
  moreover have "cont q1 j = (if j = ?k then Some (payload (hint q it)) else cont q j)" for j by (simp add: cont_def mg h1)
  moreover have "hwrite (payload h) = hwrite h" for h by (simp add: hwrite_def payload_def)
  ultimately show ?thesis unfolding admitted_def m1 H by simp
qed

text \<open>Undoing an insertion, after some drops.\<close>

lemma insert_undone:
  assumes q: "hq_inv q" and i: "it \<notin># qmem q" and k: "mget (hindex q) (hkey (hint q it)) = None" and a: "admitted it q b 1 q1" "b = hsize (hint q it)"
    "hsize (hint q1 it) = hsize (hint q it)"
    and d: "drops it q1 q2" "qbytes q2 = qbytes q1 - dB" "qitems q2 = qitems q1 - dI" "0 \<le> dB" "0 \<le> dI" "q2 \<noteq> q1 \<Longrightarrow> qdrop q = DropOldest"
  shows "enqueued it q (False, - dB, - dI) ((removeItem it q2)\<lparr>hindex := mdel (hkey (hint q it)) (hindex (removeItem it q2))\<rparr>)"
proof -
  let ?k = "hkey (hint q it)" let ?q3 = "removeItem it q2"
  have A: "qinv q1" "it \<in># qmem q1" "set_mset (qmem q1) \<subseteq> insert it (set_mset (qmem q))" "\<forall>a. a \<in># qmem q1 \<longrightarrow> 0 \<le> hsize (hint q1 a)"
    "qitems q1 = qitems q + 1" "qbytes q1 = qbytes q + b" "qcfg q1 = qcfg q" "hkey (hint q1 it) = ?k" "\<And>j. j \<noteq> ?k \<Longrightarrow> cont q1 j = cont q j"
    using a(1) unfolding admitted_def by blast+
  have D: "qinv q2" "qcfg q2 = qcfg q1" "\<And>b. payload (hint q2 b) = payload (hint q1 b)" "qmem q2 \<subseteq># qmem q1" "\<And>k. cont q2 k = cont q1 k \<or> cont q2 k = None"
    "it \<in># qmem q2" using drops_spec[OF d(1) A(1)] A(2) by simp_all
  have T: "qinv ?q3" "qmem q2 = add_mset it (qmem ?q3)" "\<And>b. payload (hint ?q3 b) = payload (hint q2 b)" "cont ?q3 = (cont q2)(hkey (hint q2 it) := None)"
    "qcfg ?q3 = qcfg q2" "qitems ?q3 = qitems q2 - 1" "qbytes ?q3 = qbytes q2 - hsize (hint q2 it)"
    using removeItem_takes[OF D(1,6)] unfolding takes_def by blast+
  have ki: "hkey (hint q2 it) = ?k" "hsize (hint q2 it) = hsize (hint q it)" using payloadD(1,2)[OF D(3)] A(8) a(3) by simp_all
  have c3: "cont ?q3 ?k = None" using T(4) ki(1) by simp
  then have n3: "mget (hindex ?q3) ?k = None" by (simp add: cont_def)
  have e: "?q3\<lparr>hindex := mdel ?k (hindex ?q3)\<rparr> = ?q3"
  proof -
    have "?k \<notin> fst ` set (hindex ?q3)" using n3 by (simp add: map_of_eq_None_iff)
    then have "mdel ?k (hindex ?q3) = hindex ?q3" by (rule delete_id)
    then show ?thesis by simp
  qed
  have cn: "cont q ?k = None" using k by (simp add: cont_def)
  have num: "qitems ?q3 = qitems q - dI" "qbytes ?q3 = qbytes q - dB" using T(6,7) d(2,3) A(5,6) a(2) ki(2) by simp_all
  have cfg: "qcfg ?q3 = qcfg q" using T(5) D(2) A(7) by simp
  have cap: "\<not> overCap (qitems ?q3) (qbytes ?q3) ?q3"
    using q overCap_mono[of "qitems ?q3" "qbytes ?q3" q "qitems q" "qbytes q"] num d(4,5) overCap_cfg[OF cfg] unfolding hq_inv_def by auto
  have sub: "set_mset (qmem ?q3) \<subseteq> insert it (set_mset (qmem q))" using T(2) set_mset_mono[OF D(4)] A(3) by auto
  have sz: "\<forall>a. a \<in># qmem ?q3 \<longrightarrow> 0 \<le> hsize (hint ?q3 a)"
    by (rule hsize_mem[OF hsize_mem[OF A(4) D(3,4)] T(3)]) (simp add: T(2))
  have co: "cont ?q3 j = cont q j \<or> cont ?q3 j = None \<and> qdrop q = DropOldest" if "j \<noteq> ?k" for j
    using T(4) ki(1) D(5)[of j] A(9)[OF that] d(6) that by (cases "q2 = q1") auto
  show ?thesis unfolding e using T(1) sz cap cfg sub co num c3 cn unfolding enqueued_def hq_inv_def Let_def by auto
qed

lemma insertHint_spec:
  assumes q: "hq_inv q" and i: "it \<notin># qmem q" "0 \<le> hsize (hint q it)" and k: "mget (hindex q) (hkey (hint q it)) = None"
  shows "\<exists>r q'. insertHint now it q = Some (r, q') \<and> enqueued it q r q'"
proof -
  define q0 where "q0 = placeNew now it q"
  define q1 where "q1 = q0\<lparr>hindex := mput (hkey (hint q0 it)) it (hindex q0), qitems := qitems q0 + 1, qbytes := qbytes q0 + hsize (hint q0 it)\<rparr>"
  have adm: "admitted it q (hsize (hint q it)) 1 q1" unfolding q1_def q0_def by (rule insert_admitted[OF q i k])
  have p: "places_ok q" using q by (simp add: hq_inv_def qinv_def)
  have h: "hkey (hint q0 it) = hkey (hint q it)" "hsize (hint q1 it) = hsize (hint q it)" "qdrop q1 = qdrop q"
    using payloadD(1,2)[OF placeNew_spec(3)[OF p i(1), of now it]] placeNew_spec(7)[OF p i(1), of now] by (simp_all add: q1_def q0_def qcfg_def)
  have q1': "q1 = q0\<lparr>hindex := mput (hkey (hint q it)) it (hindex q0), qitems := qitems q0 + 1, qbytes := qbytes q0 + hsize (hint q0 it)\<rparr>"
    unfolding q1_def h(1) by (rule refl)
  define undo where "undo = (\<lambda>q2. (removeItem it q2)\<lparr>hindex := mdel (hkey (hint q it)) (hindex (removeItem it q2))\<rparr>)"
  have e: "insertHint now it q = (if overCap (qitems q1) (qbytes q1) q1
      then (case qdrop q of DropOldest \<Rightarrow> (case dropLoop it 0 0 q1 of None \<Rightarrow> None
               | Some ((True, dB, dI), q2) \<Rightarrow> Some ((True, hsize (hint q2 it) - dB, 1 - dI), q2)
               | Some ((False, dB, dI), q2) \<Rightarrow> Some ((False, - dB, - dI), undo q2))
            | _ \<Rightarrow> Some ((False, 0, 0), undo q1))
      else Some ((True, hsize (hint q1 it), 1), q1))"
    unfolding insertHint_def Let_def undo_def q0_def[symmetric] h(1) q1'[symmetric] h(3) by (rule refl)
  note U = insert_undone[OF q i(1) k adm refl h(2)]
  have refl1: "drops it q1 q1" by (simp add: drops_def)
  have A: "qinv q1" "\<forall>a. a \<in># qmem q1 \<longrightarrow> 0 \<le> hsize (hint q1 a)" using adm unfolding admitted_def by blast+
  consider "\<not> overCap (qitems q1) (qbytes q1) q1" | "overCap (qitems q1) (qbytes q1) q1" "qdrop q \<noteq> DropOldest"
    | "overCap (qitems q1) (qbytes q1) q1" "qdrop q = DropOldest" by blast
  then show ?thesis
  proof cases
    case 1
    then have "enqueued it q (True, hsize (hint q it), 1) q1" using admitted_enqueued[OF adm refl1, of 0 0] by simp
    then show ?thesis using e 1 h(2) by simp
  next
    case 2
    have "insertHint now it q = Some ((False, 0, 0), undo q1)" using e 2 by (cases "qdrop q") simp_all
    then show ?thesis using U[OF refl1, of 0 0] by (simp add: undo_def)
  next
    case 3
    obtain ok dB dI q2 where L: "dropLoop it 0 0 q1 = Some ((ok, dB, dI), q2)" "drops it q1 q2" "qbytes q2 = qbytes q1 - dB" "qitems q2 = qitems q1 - dI"
      "0 \<le> dB" "0 \<le> dI" "ok = (\<not> overCap (qitems q2) (qbytes q2) q2)" using dropLoop_spec[OF A(1), of it 0 0] A(2) by auto
    show ?thesis
    proof (cases ok)
      case True
      have "payload (hint q2 it) = payload (hint q1 it)" using drops_spec[OF L(2) A(1)] by blast
      then have "hsize (hint q2 it) = hsize (hint q it)" using payloadD(2) h(2) by metis
      then have "insertHint now it q = Some ((True, hsize (hint q it) - dB, 1 - dI), q2)" using e 3 L(1) True by simp
      moreover have "enqueued it q (True, hsize (hint q it) - dB, 1 - dI) q2" by (rule admitted_enqueued[OF adm L(2-4)]) (use L(7) True 3 in auto)
      ultimately show ?thesis by blast
    next
      case False
      have "insertHint now it q = Some ((False, - dB, - dI), undo q2)" using e 3 L(1) False by simp
      then show ?thesis using U[OF L(2-6)] 3(2) unfolding undo_def by blast
    qed
  qed
qed

lemma enqueue_spec:
  assumes q: "hq_inv q" and i: "it \<notin># qmem q" "0 \<le> hsize (hint q it)"
  shows "\<exists>r q'. enqueue now it q = Some (r, q') \<and> enqueued it q r q'"
proof (cases "hint_expired (qttl q) now (hint q it)")
  case True
  then show ?thesis using q by (intro exI[of _ "(False, 0, 0)"] exI[of _ q]) (auto simp: enqueue_def enqueued_def Let_def)
next
  case False
  then show ?thesis using coalesce_spec[OF q i] insertHint_spec[OF q i]
    by (cases "mget (hindex q) (hkey (hint q it))") (auto simp: enqueue_def)
qed

subsection \<open>Taking the next hint\<close>

text \<open>\<open>moved q q'\<close>: hints have changed their container, and nothing else has happened.\<close>

definition moved :: "hintQueue \<Rightarrow> hintQueue \<Rightarrow> bool" where
  "moved q q' \<longleftrightarrow> qinv q' \<and> qmem q' = qmem q \<and> (\<forall>b. payload (hint q' b) = payload (hint q b)) \<and> hindex q' = hindex q \<and>
     qitems q' = qitems q \<and> qbytes q' = qbytes q \<and> qcfg q' = qcfg q \<and> (\<exists>ms. readyHints q' = readyHints q @ ms)"

lemma moved_trans: "moved q q' \<Longrightarrow> moved q' q'' \<Longrightarrow> moved q q''"
  unfolding moved_def by auto

lemma move_due:
  assumes q: "qinv q" and f: "delayed q = front # rest"
  shows "moved q (readyPushBack front (snd (heap_Pop q)))" "fst (heap_Pop q) = front"
proof -
  let ?q1 = "snd (heap_Pop q)" let ?q2 = "readyPushBack front ?q1"
  have p: "places_ok q" and qh: "qheap q" using q by (simp_all add: qinv_def places_ok_def)
  have R: "fst (heap_Pop q) = front" "qheap ?q1" "add_mset front (mset (delayed ?q1)) = mset (delayed q)" "hkeep front q ?q1"
    "heapIndex (hint ?q1 front) = - 1" using heap_Pop_ok[OF qh] f by simp_all
  show "fst (heap_Pop q) = front" by (rule R(1))
  have fd: "front \<in> set (delayed q)" using f by simp
  note D = delayed_out[OF p fd R(2-4)] and K = hkeepD[OF R(4)]
  have nf: "front \<notin># qmem ?q1" using qmem_distinct[OF p, of front] D(2) by (simp add: not_in_iff)
  note P = place_ready[OF D(1) nf]
  have h: "hint ?q2 a = hint (setHint front (\<lambda>h. h\<lparr>heapIndex := - 1\<rparr>) ?q2) a" for a
    using R(5) by (simp add: readyPushBack_def hint_setHint)
  have p2: "places_ok ?q2" by (rule places_cong[OF conjunct1[OF P]]) (simp_all add: h)
  have m2: "qmem ?q2 = qmem q" using P D(2) by (simp add: qmem_def)
  have pay: "payload (hint ?q2 b) = payload (hint q b)" for b using P K(1) h by simp
  have F: "hindex ?q2 = hindex q" "qitems ?q2 = qitems q" "qbytes ?q2 = qbytes q" "qcfg ?q2 = qcfg q" using K(5,7-9) by (simp_all add: readyPushBack_def qcfg_def)
  have "index_ok ?q2" using q unfolding qinv_def index_ok_def m2 F payloadD(1)[OF pay] by blast
  moreover have "counts_ok ?q2" using q sum_payload[OF pay] unfolding qinv_def counts_ok_def m2 F by simp
  moreover have "readyHints ?q2 = readyHints q @ [front]" using K(4) by (simp add: readyPushBack_def)
  ultimately show "moved q ?q2" using p2 m2 pay F unfolding moved_def qinv_def by blast
qed

lemma moveDue_spec: "qinv q \<Longrightarrow> moved q (moveDueLocked now q) \<and> (\<forall>a\<in>set (delayed (moveDueLocked now q)). now < nextAt (hint (moveDueLocked now q) a))"
proof (induction now q rule: moveDueLocked.induct)
  case (1 now q)
  show ?case
  proof (cases "delayed q")
    case Nil
    then have "moveDueLocked now q = q" by (subst moveDueLocked.simps) simp
    then show ?thesis using Nil 1(2) by (simp add: moved_def)
  next
    case (Cons front rest)
    show ?thesis
    proof (cases "nextAt (hint q front) > now")
      case True
      then have e: "moveDueLocked now q = q" using Cons by (subst moveDueLocked.simps) simp
      have o: "hord (length (delayed q)) (dh.hp q)" using 1(2) by (simp add: qinv_def places_ok_def)
      have "now < nextAt (hint q a)" if a: "a \<in> set (delayed q)" for a
      proof -
        obtain i where i: "i < length (delayed q)" "delayed q ! i = a" using a by (auto simp: in_set_conv_nth)
        then have "nextAt (hint q front) \<le> nextAt (hint q a)" using hord_min[OF o i(1)] Cons by (simp add: dh.hp_def)
        then show ?thesis using True by simp
      qed
      then show ?thesis unfolding e using 1(2) by (simp add: moved_def)
    next
      case False
      obtain it q1 where h: "heap_Pop q = (it, q1)" by fastforce
      have M: "moved q (readyPushBack it q1)" using move_due[OF 1(2) Cons] h by simp
      have e: "moveDueLocked now q = moveDueLocked now (readyPushBack it q1)" using Cons False h by (subst moveDueLocked.simps) simp
      have "qinv (readyPushBack it q1)" using M by (simp add: moved_def)
      from 1(1)[OF Cons False h[symmetric] this] show ?thesis unfolding e using moved_trans[OF M] by blast
    qed
  qed
qed

lemma removeItem_head:
  assumes q: "qinv q" and r: "ready q = (e, a) # rest"
  shows "takes a q (removeItem a q)" "ready (removeItem a q) = rest"
proof -
  have p: "places_ok q" using q by (simp add: qinv_def)
  have el: "elem (hint q a) = e" "e \<noteq> 0" using places_readyD[OF p, of e a] r by simp_all
  note R = removeItem_ready[OF q, of a]
  show "takes a q (removeItem a q)" using R(1) el r by simp
  have "distinct (map fst (ready q))" using p unfolding places_ok_def by blast
  then have "filter (\<lambda>(x, _). x \<noteq> e) rest = rest" unfolding r by (intro filter_True) (auto simp: rev_image_eqI)
  then show "ready (removeItem a q) = rest" using R(2) el r by simp
qed

text \<open>What \<open>popLoop\<close> does: expired hints at the head go, the first other one is the result.\<close>

definition popped :: "int \<Rightarrow> hintQueue \<Rightarrow> addr option \<Rightarrow> hintQueue \<Rightarrow> bool" where
  "popped now q res q' \<longleftrightarrow> qinv q' \<and> qcfg q' = qcfg q \<and> qmem q' \<subseteq># qmem q \<and> (\<forall>b. payload (hint q' b) = payload (hint q b)) \<and>
     qitems q' \<le> qitems q \<and> ((\<forall>a. a \<in># qmem q \<longrightarrow> 0 \<le> hsize (hint q a)) \<longrightarrow> qbytes q' \<le> qbytes q) \<and>
     (\<forall>k. cont q' k = cont q k \<or> cont q' k = None \<and> (\<exists>h. cont q k = Some h \<and> (hint_expired (qttl q) now h \<or> (\<exists>a. res = Some a \<and> h = payload (hint q a))))) \<and>
     (case res of
        None \<Rightarrow> ready q' = [] \<and> delayed q' = delayed q
      | Some a \<Rightarrow> a \<in># qmem q \<and> a \<notin># qmem q' \<and> \<not> hint_expired (qttl q) now (hint q a) \<and> cont q' (hkey (hint q a)) = None)"

lemma expired_payload: "payload h' = payload h \<Longrightarrow> hint_expired ttl now h' = hint_expired ttl now h"
  using payloadD[of h' h] by (simp add: hint_expired_def)

lemma expired_of_payload [simp]: "hint_expired ttl now (payload h) = hint_expired ttl now h"
  by (simp add: hint_expired_def payload_def)

lemma popLoop_spec: "qinv q \<Longrightarrow> \<exists>res q'. popLoop now q = Some (res, q') \<and> popped now q res q'"
proof (induction "size (qmem q)" arbitrary: q rule: less_induct)
  case less
  show ?case
  proof (cases "ready q")
    case Nil
    then show ?thesis using less.prems by (intro exI[of _ None] exI[of _ q]) (subst popLoop.simps, simp add: popped_def)
  next
    case (Cons x rest)
    obtain e a where x: "x = (e, a)" by fastforce
    note R = removeItem_head[OF less.prems Cons[unfolded x]]
    let ?q1 = "removeItem a q"
    have T: "qinv ?q1" "qmem q = add_mset a (qmem ?q1)" "\<And>b. payload (hint ?q1 b) = payload (hint q b)" "cont ?q1 = (cont q)(hkey (hint q a) := None)"
      "qcfg ?q1 = qcfg q" "qitems ?q1 = qitems q - 1" "qbytes ?q1 = qbytes q - hsize (hint q a)"
      using R(1) unfolding takes_def by blast+
    have ca: "cont q (hkey (hint q a)) = Some (payload (hint q a))" by (rule cont_mem[OF less.prems]) (simp add: T(2))
    have na: "a \<notin># qmem ?q1" using qmem_distinct[of q a] less.prems T(2) unfolding qinv_def by (simp add: not_in_iff)
    show ?thesis
    proof (cases "hint_expired (qttl q) now (hint q a)")
      case False
      have "popLoop now q = Some (Some a, ?q1)" using Cons x False by (subst popLoop.simps) simp
      moreover have "popped now q (Some a) ?q1" unfolding popped_def using T na ca False by auto
      ultimately show ?thesis by blast
    next
      case True
      have e: "popLoop now q = popLoop now ?q1" using Cons x True by (subst popLoop.simps) simp
      have "size (qmem ?q1) < size (qmem q)" using T(2) by simp
      from less.hyps[OF this T(1)] obtain res q' where r: "popLoop now ?q1 = Some (res, q')" "popped now ?q1 res q'" by blast
      have tt: "qttl ?q1 = qttl q" using T(5) by (simp add: qcfg_def)
      have del: "delayed ?q1 = delayed q" using removeItem_ready(3)[OF less.prems, of a] places_readyD[of q e a] less.prems Cons x unfolding qinv_def by simp
      have "cont q' k = cont q k \<or> cont q' k = None \<and> (\<exists>h. cont q k = Some h \<and> (hint_expired (qttl q) now h \<or> (\<exists>a. res = Some a \<and> h = payload (hint q a))))" for k
      proof (cases "k = hkey (hint q a)")
        case kk: True
        then have "cont ?q1 k = None" using T(4) by simp
        then have "cont q' k = None" using r(2) unfolding popped_def by metis
        then show ?thesis using ca True kk by auto
      next
        case False
        then have "cont ?q1 k = cont q k" using T(4) by simp
        then show ?thesis using r(2) unfolding popped_def tt T(3) by metis
      qed
      moreover have "qmem q' \<subseteq># qmem q" using r(2) T(2) unfolding popped_def by (metis mset_subset_eq_add_right subset_mset.order_trans add_mset_add_single union_commute)
      moreover have "(\<forall>a. a \<in># qmem q \<longrightarrow> 0 \<le> hsize (hint q a)) \<longrightarrow> qbytes q' \<le> qbytes q"
        using r(2) T(2,7) payloadD(2)[OF T(3)] unfolding popped_def by auto
      moreover have "case res of None \<Rightarrow> ready q' = [] \<and> delayed q' = delayed q
        | Some b \<Rightarrow> b \<in># qmem q \<and> b \<notin># qmem q' \<and> \<not> hint_expired (qttl q) now (hint q b) \<and> cont q' (hkey (hint q b)) = None"
        using r(2) T(2) expired_payload[OF T(3)] payloadD(1)[OF T(3)] del tt unfolding popped_def by (cases res) auto
      ultimately have "popped now q res q'" using r(2) T(3,5,6) unfolding popped_def by auto
      then show ?thesis using r(1) e by auto
    qed
  qed
qed

lemma popReady_spec:
  assumes q: "hq_inv q"
  shows "\<exists>res q'. popReady now q = Some (res, q') \<and> hq_inv q' \<and> qcfg q' = qcfg q \<and> set_mset (qmem q') \<subseteq> set_mset (qmem q) \<and>
    (\<forall>k. cont q' k = cont q k \<or> cont q' k = None \<and> (\<exists>h. cont q k = Some h \<and> (hint_expired (qttl q) now h \<or> (\<exists>a. res = Some a \<and> h = payload (hint q a))))) \<and>
    (case res of
       None \<Rightarrow> \<forall>k h. cont q k = Some h \<longrightarrow> hint_expired (qttl q) now h \<or> now < nextAt h
     | Some a \<Rightarrow> a \<notin># qmem q' \<and> cont q (hkey (hint q a)) = Some (payload (hint q a)) \<and> \<not> hint_expired (qttl q) now (hint q a) \<and> cont q' (hkey (hint q a)) = None)"
proof -
  have Q: "qinv q" "\<forall>a. a \<in># qmem q \<longrightarrow> 0 \<le> hsize (hint q a)" "\<not> overCap (qitems q) (qbytes q) q" using q unfolding hq_inv_def by blast+
  let ?m = "moveDueLocked now q"
  have M: "qinv ?m" "qmem ?m = qmem q" "\<And>b. payload (hint ?m b) = payload (hint q b)" "hindex ?m = hindex q" "qitems ?m = qitems q" "qbytes ?m = qbytes q" "qcfg ?m = qcfg q"
    and due: "\<forall>a\<in>set (delayed ?m). now < nextAt (hint ?m a)" using moveDue_spec[OF Q(1), of now] unfolding moved_def by blast+
  have cm: "cont ?m = cont q" by (rule ext) (simp add: cont_def M(3,4))
  have tm: "qttl ?m = qttl q" using M(7) by (simp add: qcfg_def)
  obtain res q' where r: "popLoop now ?m = Some (res, q')" "popped now ?m res q'" using popLoop_spec[OF M(1)] by blast
  have P: "qinv q'" "qcfg q' = qcfg q" "qmem q' \<subseteq># qmem q" "\<And>b. payload (hint q' b) = payload (hint q b)" "qitems q' \<le> qitems q" "qbytes q' \<le> qbytes q"
    using r(2) M Q(2) payloadD(2)[OF M(3)] unfolding popped_def by auto
  have "hq_inv q'" unfolding hq_inv_def
    using P(1) hsize_mem[OF Q(2) P(4,3)] Q(3) overCap_mono[of "qitems q'" "qbytes q'" q "qitems q" "qbytes q"] P(5,6) overCap_cfg[OF P(2)] by blast
  moreover have "case res of
       None \<Rightarrow> \<forall>k h. cont q k = Some h \<longrightarrow> hint_expired (qttl q) now h \<or> now < nextAt h
     | Some a \<Rightarrow> a \<notin># qmem q' \<and> cont q (hkey (hint q a)) = Some (payload (hint q a)) \<and> \<not> hint_expired (qttl q) now (hint q a) \<and> cont q' (hkey (hint q a)) = None"
  proof (cases res)
    case (Some a)
    then have "a \<in># qmem q" using r(2) M(2) unfolding popped_def by simp
    then show ?thesis using r(2) Some M(2) expired_payload[OF M(3)] payloadD(1)[OF M(3)] cont_mem[OF Q(1)] tm unfolding popped_def by simp
  next
    case None
    have re: "ready q' = []" "delayed q' = delayed ?m" using r(2) None unfolding popped_def by simp_all
    have "hint_expired (qttl q) now h \<or> now < nextAt h" if h: "cont q k = Some h" for k h
    proof (cases "cont q' k = cont q k")
      case True
      then obtain a where a: "mget (hindex q') k = Some a" "h = payload (hint q' a)" using h by (auto simp: cont_def)
      then have "a \<in># qmem q'" using P(1) unfolding qinv_def index_ok_def by metis
      then have "now < nextAt (hint ?m a)" using re due by (simp add: qmem_def)
      moreover have "nextAt h = nextAt (hint ?m a)" using a(2) payloadD(3)[OF P(4)] payloadD(3)[OF M(3)] by (simp add: payload_def)
      ultimately show ?thesis by simp
    next
      case False
      then show ?thesis using r(2) None h unfolding popped_def cm tm by fastforce
    qed
    then show ?thesis using None by simp
  qed
  moreover have "\<forall>k. cont q' k = cont q k \<or> cont q' k = None \<and> (\<exists>h. cont q k = Some h \<and> (hint_expired (qttl q) now h \<or> (\<exists>a. res = Some a \<and> h = payload (hint q a))))"
    using r(2) unfolding popped_def cm tm M(3) by blast
  ultimately show ?thesis using r(1) P(2) set_mset_mono[OF P(3)] unfolding popReady_def by blast
qed

lemma popReady_hint:
  assumes q: "hq_inv q" and p: "popReady now q = Some (Some a, q')"
  shows "a \<in># qmem q" "a \<notin># qmem q'" "payload (hint q' a) = payload (hint q a)" "0 \<le> hsize (hint q' a)"
proof -
  have Q: "qinv q" "\<forall>a. a \<in># qmem q \<longrightarrow> 0 \<le> hsize (hint q a)" using q unfolding hq_inv_def by blast+
  let ?m = "moveDueLocked now q"
  have M: "qinv ?m" "qmem ?m = qmem q" "\<And>b. payload (hint ?m b) = payload (hint q b)" using moveDue_spec[OF Q(1), of now] unfolding moved_def by blast+
  obtain res q2 where r: "popLoop now ?m = Some (res, q2)" "popped now ?m res q2" using popLoop_spec[OF M(1)] by blast
  have e: "res = Some a" "q2 = q'" using p r(1) by (simp_all add: popReady_def)
  show "a \<in># qmem q" "a \<notin># qmem q'" "payload (hint q' a) = payload (hint q a)" using r(2) M(2,3) unfolding e popped_def by simp_all
  then show "0 \<le> hsize (hint q' a)" using Q(2) payloadD(2) by metis
qed

subsection \<open>Histories\<close>

text \<open>
  The histories of a queue: hints, new ones or ones popped before whose attempt failed, are enqueued,
  and hints are popped.
\<close>

inductive hqStep :: "hintQueue \<Rightarrow> hintQueue \<Rightarrow> bool" where
  hq_add: "it \<notin># qmem q \<Longrightarrow> 0 \<le> hsize h \<Longrightarrow> enqueue now it (setHint it (\<lambda>_. h) q) = Some (r, q') \<Longrightarrow> hqStep q q'"
| hq_pop: "popReady now q = Some (res, q') \<Longrightarrow> hqStep q q'"

lemma new_hq: "hq_inv (newHintQueue cfg)"
  by (simp add: hq_inv_def qinv_def places_ok_def index_ok_def counts_ok_def newHintQueue_def qmem_def pos_ok_def hord_def overCap_def)

lemma setHint_new:
  assumes q: "hq_inv q" and i: "it \<notin># qmem q"
  shows "hq_inv (setHint it f q)" "qmem (setHint it f q) = qmem q" "cont (setHint it f q) = cont q"
proof -
  let ?q = "setHint it f q"
  have Q: "places_ok q" "index_ok q" "counts_ok q" "\<forall>a. a \<in># qmem q \<longrightarrow> 0 \<le> hsize (hint q a)" "\<not> overCap (qitems q) (qbytes q) q"
    using q unfolding hq_inv_def qinv_def by blast+
  have h: "hint ?q a = hint q a" if "a \<in># qmem q" for a using that i by (auto simp: hint_setHint)
  show m: "qmem ?q = qmem q" by (simp add: qmem_def)
  have hr: "hint ?q a = hint q a" if "(e, a) \<in> set (ready q)" for e a using h[of a] that by (force simp: qmem_def)
  have hd: "hint ?q a = hint q a" if "a \<in> set (delayed q)" for a using h[of a] that by (simp add: qmem_def)
  have "places_ok ?q"
  proof -
    have "hord (length (delayed q)) (dh.hp ?q)"
      using Q(1) hord_cong[of "length (delayed q)" "dh.hp q" "dh.hp ?q"] hd unfolding places_ok_def by (simp add: dh.hp_def)
    moreover have "pos_ok ?q" using Q(1) hd unfolding places_ok_def pos_ok_def by simp
    moreover have "\<forall>e a. (e, a) \<in> set (ready q) \<longrightarrow> e \<noteq> 0 \<and> e < etop q \<and> elem (hint ?q a) = e \<and> heapIndex (hint ?q a) = - 1"
      using places_readyD[OF Q(1)] hr by metis
    ultimately show ?thesis using Q(1) hd unfolding places_ok_def by simp
  qed
  moreover have "index_ok ?q" using Q(2) h unfolding index_ok_def m by (auto simp: setHint_fields(1))
  moreover have "counts_ok ?q"
  proof -
    have "(\<Sum>a\<in>#qmem q. hsize (hint ?q a)) = (\<Sum>a\<in>#qmem q. hsize (hint q a))"
      by (rule arg_cong[where f = sum_mset], rule image_mset_cong) (simp add: h)
    then show ?thesis using Q(3) unfolding counts_ok_def m by simp
  qed
  ultimately show "hq_inv ?q" using Q(4,5) h unfolding hq_inv_def qinv_def m by (simp add: overCap_def)
  show "cont ?q = cont q"
  proof (rule ext)
    fix k
    show "cont ?q k = cont q k"
    proof (cases "mget (hindex q) k")
      case (Some a)
      then have "a \<in># qmem q" using Q(2) unfolding index_ok_def by metis
      then show ?thesis using Some h by (simp add: cont_def)
    qed (simp add: cont_def)
  qed
qed

lemma enqueued_inv: "enqueued it q r q' \<Longrightarrow> hq_inv q'"
  by (cases r) (simp add: enqueued_def Let_def)

lemma hq_reach: "hqStep\<^sup>*\<^sup>* (newHintQueue cfg) q \<Longrightarrow> hq_inv q"
proof (induction rule: rtranclp_induct)
  case base
  then show ?case by (rule new_hq)
next
  case (step y z)
  from step.hyps(2) show ?case
  proof cases
    case (hq_add it h now r)
    have n: "it \<notin># qmem (setHint it (\<lambda>_. h) y)" using setHint_new(2)[OF step.IH hq_add(1)] hq_add(1) by simp
    have "0 \<le> hsize (hint (setHint it (\<lambda>_. h) y) it)" using hq_add(2) by (simp add: hint_setHint)
    from enqueue_spec[OF setHint_new(1)[OF step.IH hq_add(1)] n this, of now] show ?thesis using hq_add(3) enqueued_inv by (metis option.inject prod.inject)
  next
    case (hq_pop now res)
    from popReady_spec[OF step.IH, of now] show ?thesis
    proof (elim exE conjE)
      fix res' q' assume "popReady now y = Some (res', q')" "hq_inv q'"
      then show ?thesis using hq_pop by simp
    qed
  qed
qed

lemma qmem_sum:
  assumes "qinv q"
  shows "int (size (qmem q)) = int (card (dom (cont q)))" "(\<Sum>a\<in>#qmem q. hsize (hint q a)) = (\<Sum>k\<in>dom (cont q). hsize (the (cont q k)))"
proof -
  let ?S = "set_mset (qmem q)" let ?f = "\<lambda>a. hkey (hint q a)"
  have m: "qmem q = mset_set ?S"
  proof (rule multiset_eqI)
    fix a
    have "count (qmem q) a \<le> 1" using qmem_distinct[of q a] assms unfolding qinv_def by blast
    moreover have "a \<in># qmem q \<longleftrightarrow> 0 < count (qmem q) a" by simp
    ultimately have "count (qmem q) a = (if a \<in># qmem q then 1 else 0)" by (simp del: count_greater_zero_iff)
    then show "count (qmem q) a = count (mset_set ?S) a" by (simp add: count_mset_set')
  qed
  have inj: "inj_on ?f ?S" by (rule inj_onI) (rule index_unique[OF assms])
  have dom: "dom (cont q) = ?f ` ?S"
  proof (rule set_eqI)
    fix k
    have "k \<in> dom (cont q) \<longleftrightarrow> (\<exists>a. mget (hindex q) k = Some a)" by (auto simp: cont_def dom_def)
    also have "\<dots> \<longleftrightarrow> (\<exists>a. a \<in># qmem q \<and> hkey (hint q a) = k)" using assms unfolding qinv_def index_ok_def by metis
    finally show "k \<in> dom (cont q) \<longleftrightarrow> k \<in> ?f ` ?S" by blast
  qed
  show "int (size (qmem q)) = int (card (dom (cont q)))" unfolding dom card_image[OF inj] by (subst m) simp
  have "(\<Sum>k\<in>dom (cont q). hsize (the (cont q k))) = (\<Sum>a\<in>?S. hsize (hint q a))"
    unfolding dom sum.reindex[OF inj] by (rule sum.cong) (use cont_mem[OF assms] in \<open>auto simp: payload_def\<close>)
  also have "\<dots> = (\<Sum>a\<in>#qmem q. hsize (hint q a))" by (subst (2) m) (rule sum_unfold_sum_mset)
  finally show "(\<Sum>a\<in>#qmem q. hsize (hint q a)) = (\<Sum>k\<in>dom (cont q). hsize (the (cont q k)))" by simp
qed

lemma enqueue_newer:
  assumes "enqueue now it q = Some ((True, dB, dI), q')" "cont q (hkey (hint q it)) = Some o'"
  shows "hver o' < hver (hint q it)"
proof -
  obtain old where o: "mget (hindex q) (hkey (hint q it)) = Some old" "o' = payload (hint q old)" using assms(2) by (auto simp: cont_def)
  have "coalesce it old q = Some ((True, dB, dI), q')" using assms(1) o(1) by (simp add: enqueue_def split: if_splits)
  then have "\<not> hver (hint q it) \<le> hver (hint q old)" by (auto simp: coalesce_def)
  then show ?thesis by (simp add: o(2) payload_def)
qed

subsection \<open>A queue at work\<close>

definition demoCfg :: HandoffConfig where
  "demoCfg = \<lparr>hcEnable = None, hcPause = False, hcMaxItems = 0, hcMaxBytes = 0, PerPeerCap = 10, PerPeerBytes = 100, hcTTL = 50, ReplayRPS = 20,
     hcDropPolicy = DropOldest, AutopauseItems = 0, AutopauseBytes = 0\<rparr>"

definition demoHint :: "u8 \<Rightarrow> u64 \<Rightarrow> int \<Rightarrow> hintItem" where
  "demoHint k v n = \<lparr>hkey = [k], hval = [], hexp = 0, hver = v, hcp = False, isDel = True, addedAt = 1, nextAt = 0, tries = 0, hsize = n,
     elem = 0, heapIndex = - 1\<rparr>"

definition demoAdd :: "addr \<Rightarrow> hintItem \<Rightarrow> hintQueue \<Rightarrow> hintQueue" where
  "demoAdd a h q = snd (the (enqueue 2 a (setHint a (\<lambda>_. h) q)))"

definition demoQueue :: hintQueue where
  "demoQueue = demoAdd 2 (demoHint 2 1 40) (demoAdd 1 (demoHint 1 1 50) (newHintQueue demoCfg))"

lemma demoAdd_step:
  assumes "hqStep\<^sup>*\<^sup>* (newHintQueue cfg) q" "a \<notin># qmem q" "0 \<le> hsize h"
  shows "hqStep\<^sup>*\<^sup>* (newHintQueue cfg) (demoAdd a h q)"
proof -
  have "enqueue 2 a (setHint a (\<lambda>_. h) q) \<noteq> None"
  proof -
    note S = setHint_new[OF hq_reach[OF assms(1)] assms(2), of "\<lambda>_. h"]
    have "a \<notin># qmem (setHint a (\<lambda>_. h) q)" "0 \<le> hsize (hint (setHint a (\<lambda>_. h) q) a)" using S(2) assms(2,3) by (simp_all add: hint_setHint)
    from enqueue_spec[OF S(1) this, of 2] show ?thesis by (metis option.distinct(1))
  qed
  then have "hqStep q (demoAdd a h q)" using hq_add[OF assms(2,3), of 2] by (auto simp: demoAdd_def)
  then show ?thesis using assms(1) by (rule rtranclp.rtrancl_into_rtrancl[rotated])
qed

lemma demoQueue_reach: "hqStep\<^sup>*\<^sup>* (newHintQueue demoCfg) demoQueue"
proof -
  have "2 \<notin># qmem (demoAdd 1 (demoHint 1 1 50) (newHintQueue demoCfg))"
  proof -
    have "map snd (ready (demoAdd 1 (demoHint 1 1 50) (newHintQueue demoCfg))) = [1]" "delayed (demoAdd 1 (demoHint 1 1 50) (newHintQueue demoCfg)) = []"
      by code_simp+
    then show ?thesis by (simp add: qmem_def)
  qed
  moreover have "1 \<notin># qmem (newHintQueue demoCfg)" by (simp add: qmem_def newHintQueue_def)
  ultimately show ?thesis unfolding demoQueue_def by (intro demoAdd_step) (auto simp: demoHint_def)
qed

lemma demoQueue_mem: "3 \<notin># qmem demoQueue"
proof -
  have "map snd (ready demoQueue) = [1, 2]" "delayed demoQueue = []" by code_simp+
  then show ?thesis by (simp add: qmem_def)
qed

section \<open>Properties\<close>

text \<open>C14. However hints were enqueued, popped and retried, a queue of hints counts its items and bytes
  exactly, stays within its caps, holds one hint per key, and its operations return: the dropping
  loops and the loop over expired hints end.\<close>

theorem hint_queue_invariant:
  assumes "hqStep\<^sup>*\<^sup>* (newHintQueue cfg) q" "it \<notin># qmem q" "0 \<le> hsize h"
  shows "qitems q = int (card (dom (cont q))) \<and> qbytes q = (\<Sum>k\<in>dom (cont q). hsize (the (cont q k))) \<and>
    (0 < maxItems q \<longrightarrow> int (card (dom (cont q))) \<le> maxItems q) \<and> (0 < maxBytes q \<longrightarrow> qbytes q \<le> maxBytes q) \<and>
    enqueue now it (setHint it (\<lambda>_. h) q) \<noteq> None \<and> popReady now q \<noteq> None"
proof -
  have q: "hq_inv q" by (rule hq_reach[OF assms(1)])
  then have Q: "qinv q" "\<not> overCap (qitems q) (qbytes q) q" unfolding hq_inv_def by blast+
  note S = setHint_new[OF q assms(2), of "\<lambda>_. h"]
  have "it \<notin># qmem (setHint it (\<lambda>_. h) q)" "0 \<le> hsize (hint (setHint it (\<lambda>_. h) q) it)"
    using S(2) assms(2,3) by (simp_all add: hint_setHint)
  from enqueue_spec[OF S(1) this, of now] have "enqueue now it (setHint it (\<lambda>_. h) q) \<noteq> None" by (metis option.distinct(1))
  moreover have "popReady now q \<noteq> None" using popReady_spec[OF q, of now] by (elim exE conjE) simp
  ultimately show ?thesis using Q qmem_sum[OF Q(1)] unfolding qinv_def counts_ok_def overCap_def by auto
qed

theorem hint_queue_invariant_witness: "qbytes demoQueue \<le> 100 \<and> int (card (dom (cont demoQueue))) \<le> 10 \<and> popReady 3 demoQueue \<noteq> None"
proof -
  have m: "maxItems demoQueue = 10" "maxBytes demoQueue = 100" by code_simp+
  show ?thesis using hint_queue_invariant[OF demoQueue_reach demoQueue_mem, of "demoHint 2 2 200" 3] m by (simp add: demoHint_def)
qed

text \<open>C13. A queue keeps the newest write of a key. An accepted hint is from then on the hint of its key
  and newer than the one it replaced; a rejected one leaves the key as it was; other keys lose their
  hints only to the policy that drops the oldest. The deltas that \<open>enqueue\<close> reports are the changes of
  the counters, except that the bytes dropped before an undone replacement come back with the wrong
  sign.\<close>

theorem enqueue_keeps_newest:
  assumes "hqStep\<^sup>*\<^sup>* (newHintQueue cfg) q" "it \<notin># qmem q" "0 \<le> hsize h"
    "enqueue now it (setHint it (\<lambda>_. h) q) = Some ((ok, dB, dI), q')"
  shows "(if ok then map_option hwrite (cont q' (hkey h)) = Some (hwrite h) \<and> (\<forall>h'. cont q (hkey h) = Some h' \<longrightarrow> hver h' < hver h)
      else cont q' (hkey h) = cont q (hkey h)) \<and>
    (\<forall>k. k \<noteq> hkey h \<longrightarrow> cont q' k = cont q k \<or> cont q' k = None \<and> qdrop q = DropOldest) \<and>
    qitems q' - qitems q = dI \<and> qbytes q' - qbytes q = (if \<not> ok \<and> cont q (hkey h) \<noteq> None then - dB else dB)"
proof -
  let ?q = "setHint it (\<lambda>_. h) q"
  have q: "hq_inv q" by (rule hq_reach[OF assms(1)])
  note S = setHint_new[OF q assms(2), of "\<lambda>_. h"]
  have h: "hint ?q it = h" by (simp add: hint_setHint)
  have "it \<notin># qmem ?q" "0 \<le> hsize (hint ?q it)" using S(2) assms(2,3) h by simp_all
  from enqueue_spec[OF S(1) this, of now] have "enqueued it ?q (ok, dB, dI) q'" using assms(4) by (metis option.inject prod.inject)
  moreover have "\<forall>h'. cont q (hkey h) = Some h' \<longrightarrow> hver h' < hver h" if ok
    using enqueue_newer[of now it ?q dB dI q'] assms(4) that S(3) h by auto
  ultimately show ?thesis unfolding enqueued_def Let_def S(3) h by (simp split: if_splits)
qed

theorem enqueue_keeps_newest_witness:
  "\<exists>q'. enqueue 2 3 (setHint 3 (\<lambda>_. demoHint 2 2 200) demoQueue) = Some ((False, 50, - 1), q') \<and> qbytes q' - qbytes demoQueue = - 50 \<and>
    cont q' [2] = cont demoQueue [2]"
proof -
  have "map_option fst (enqueue 2 3 (setHint 3 (\<lambda>_. demoHint 2 2 200) demoQueue)) = Some (False, 50, - 1)" by code_simp
  then obtain q' where e: "enqueue 2 3 (setHint 3 (\<lambda>_. demoHint 2 2 200) demoQueue) = Some ((False, 50, - 1), q')" by auto
  have "cont demoQueue [2] \<noteq> None" by code_simp
  then show ?thesis using enqueue_keeps_newest[OF demoQueue_reach demoQueue_mem _ e] e by (simp add: demoHint_def)
qed

text \<open>C15. \<open>popReady\<close> serves every hint in time: it returns a hint that has not expired and removes it, and
  it returns none only if every hint in the queue has expired or its next attempt is still to come.
  It loses no other hint than expired ones.\<close>

theorem pop_serves_due:
  assumes "hqStep\<^sup>*\<^sup>* (newHintQueue cfg) q"
  shows "\<exists>res q'. popReady now q = Some (res, q') \<and>
    (\<forall>k. cont q' k = cont q k \<or> cont q' k = None \<and> (\<exists>h. cont q k = Some h \<and> (hint_expired (qttl q) now h \<or> (\<exists>a. res = Some a \<and> h = payload (hint q a))))) \<and>
    (case res of
       None \<Rightarrow> \<forall>k h. cont q k = Some h \<longrightarrow> hint_expired (qttl q) now h \<or> now < nextAt h
     | Some a \<Rightarrow> cont q (hkey (hint q a)) = Some (payload (hint q a)) \<and> \<not> hint_expired (qttl q) now (hint q a) \<and> cont q' (hkey (hint q a)) = None)"
proof -
  from popReady_spec[OF hq_reach[OF assms], of now] show ?thesis
  proof (elim exE conjE)
    fix res q' assume r: "popReady now q = Some (res, q')"
      "\<forall>k. cont q' k = cont q k \<or> cont q' k = None \<and> (\<exists>h. cont q k = Some h \<and> (hint_expired (qttl q) now h \<or> (\<exists>a. res = Some a \<and> h = payload (hint q a))))"
      "case res of
         None \<Rightarrow> \<forall>k h. cont q k = Some h \<longrightarrow> hint_expired (qttl q) now h \<or> now < nextAt h
       | Some a \<Rightarrow> a \<notin># qmem q' \<and> cont q (hkey (hint q a)) = Some (payload (hint q a)) \<and> \<not> hint_expired (qttl q) now (hint q a) \<and> cont q' (hkey (hint q a)) = None"
    show ?thesis
      by (rule exI[of _ res], rule exI[of _ q'], intro conjI, rule r(1), rule r(2)) (use r(3) in \<open>auto split: option.splits\<close>)
  qed
qed

theorem pop_serves_due_witness: "\<exists>a q'. popReady 3 demoQueue = Some (Some a, q') \<and> cont q' (hkey (hint demoQueue a)) = None"
proof -
  have "map_option fst (popReady 3 demoQueue) = Some (Some 1)" by code_simp
  then show ?thesis using pop_serves_due[OF demoQueue_reach, of 3] by auto
qed

end
