(* ===== verification/Replay.thy ===== *)
theory Replay
  imports Handoff
begin

text \<open>
  The second half of \<open>cluster/handoff.go\<close>: the hint queues of all peers, what enters them, and the
  replay. Hints are allocated at \<open>htop\<close>. Sending a hint goes through the node and its connections: \<open>send\<close>
  is the outcome of the attempt to send a hint to a peer, and the peers whose connection is reset are
  part of the result of a replay.
\<close>

record handoff =
  hoCfg :: HandoffConfig
  hoPeers :: "(NodeID, hintQueue) gomap"
  totalItems :: int
  totalBytes :: int
  paused :: bool
  hoStopped :: bool
  rr :: u32
  htop :: addr



text \<open>Lines 391--405, and 430--444: the new hint is enqueued, the totals follow, and a backlog pauses.\<close>

definition account :: "bool \<times> int \<times> int \<Rightarrow> handoff \<Rightarrow> handoff" where
  "account r h =
     (case r of (ok, byDelta, itDelta) \<Rightarrow>
       let h = (if byDelta \<noteq> 0 \<or> itDelta \<noteq> 0 then h\<lparr>totalItems := totalItems h + itDelta, totalBytes := totalBytes h + byDelta\<rparr> else h)
       in if \<not> ok then h
          else if (AutopauseItems (hoCfg h) > 0 \<and> totalItems h \<ge> AutopauseItems (hoCfg h)) \<or>
                  (AutopauseBytes (hoCfg h) > 0 \<and> totalBytes h \<ge> AutopauseBytes (hoCfg h))
               then h\<lparr>paused := True\<rparr> else h)"






section \<open>Replay\<close>











definition ho_Stop :: "handoff \<Rightarrow> handoff" where
  "ho_Stop h = h\<lparr>hoStopped := True\<rparr>"



section \<open>Lemmas\<close>






lemma account_frame [simp]: "hoPeers (account r h) = hoPeers h" "htop (account r h) = htop h" "hoCfg (account r h) = hoCfg h"
  by (auto simp: account_def Let_def split: prod.splits)

















section \<open>Properties\<close>



end
