(* ===== verification/Spec2Isabelle.thy ===== *)
theory Spec2Isabelle
  imports Manager Http_Middleware Hlc Key_Codec Lease Limiter Transport Replay
begin

text \<open>
  A verification of kioshun, a sharded in-memory cache for Go with an optional cluster layer.

  \<^bold>\<open>The program.\<close> A cache (\<open>cache.go\<close>) is a power of two of shards (\<open>shard.go\<close>). A key's hash
  (\<open>hash.go\<close>, \<open>fnv.go\<close>) selects its shard. A shard holds a map from keys to items, an intrusive doubly
  linked list of the items in recency or insertion order, for LFU a list of frequency buckets
  (\<open>lfu.go\<close>), and for AdmissionLFU an admission filter (\<open>admission.go\<close>). When a shard is full, an
  evictor (\<open>eviction.go\<close>) removes one item; items are recycled through a pool. \<open>snapshot.go\<close> dumps and
  loads entries.

  \<^bold>\<open>The theories.\<close>
  \<^item> \<open>Kioshun_Prelude\<close>: machine integers, Go maps as association lists, iteration orders, heaps,
    pointer chains, and lemmas on words shared by all components.
  \<^item> \<open>Mathutil\<close>, \<open>Hash\<close>: rounding to powers of two; the hash functions, on 64-bit words.
  \<^item> \<open>Admission\<close>: Bloom filter, Count-Min sketch, scan detector and the adaptive filter over them.
  \<^item> \<open>Store\<close>: \<open>cacheItem\<close> records in a heap addressed by numbers (0 is nil), with the pool.
  \<^item> \<open>Lfu\<close>: the frequency buckets at pointer level; locale \<open>freq_index\<close> is what the evictor relies on.
  \<^item> \<open>Shard\<close>: the list operations and the cleanup of a shard, its invariant \<open>shard_inv\<close>, its contents
    \<open>view\<close>, and the frame condition under which shards share one heap.
  \<^item> \<open>Eviction\<close>: the four evictors; locale \<open>evictor\<close> is the contract of the interface, interpreted for
    each of them and for the dispatch by policy.
  \<^item> \<open>Cache\<close>: every method of \<open>InMemoryCache\<close>; \<open>Cache_Correct\<close>: the invariant of a whole cache, its
    abstraction to a map, and the effect of each method on it; \<open>Cache_Properties\<close>: the theorems.
  \<^item> \<open>Snapshot\<close>: \<open>Export\<close> and \<open>Import\<close>.
  \<^item> \<open>Manager\<close>: the registry of named caches (\<open>manager.go\<close>) and the error values (\<open>errors.go\<close>).
  \<^item> \<open>Pattern_Index\<close>: the trie from URL paths to cache keys (\<open>internal/httpcache/index.go\<close>).
  \<^item> \<open>Md5\<close>, \<open>Http_Middleware\<close>: the HTTP response cache (\<open>middleware.go\<close>), with the digest its keys use.
  \<^item> \<open>Hlc\<close>, \<open>Rendezvous\<close>, \<open>Key_Codec\<close>, \<open>Lease\<close>: of the cluster layer (\<open>cluster/\<close>), the hybrid logical clock, the
    choice of a key's owners, the encodings of keys (locale \<open>key_codec\<close>), and single-flight leases.
  \<^item> \<open>Membership\<close>, \<open>Heat\<close>, \<open>Limiter\<close>: the view of the cluster, the tracking of hot keys, the token bucket.
  \<^item> \<open>Wire\<close>, \<open>Transport\<close>: messages and errors of the protocol; frames, and requests multiplexed over a
    connection as a step relation over the interleavings of callers and reader.
  \<^item> \<open>Go_Heap\<close>, \<open>Handoff\<close>, \<open>Replay\<close>: package \<open>container/heap\<close> over an interface (locale \<open>go_heap\<close>), interpreted for
    the delayed hints; the queue of hints of a peer, with its caps and its newest-write rule; the
    handoff over all peers, its replay and its backoff.

  \<^bold>\<open>How the code is modelled.\<close> A struct is a record, a method a function from the state to the result
  and the new state. A shard's mutex makes a method atomic on that shard; where a method gives up a
  lock half way (\<open>get\<close> upgrading its lock, \<open>Get\<close> reading the item after unlocking), what other
  goroutines do meanwhile is a parameter. Map iteration order and the pool's choice of an item are
  the fields of \<open>choices\<close>; the clock is a sequence of readings. Counters are unbounded integers;
  hashes, sketches and masks are words, and \<open>i64\<close> wraps where a sum can overflow. Loops are
  structural recursions or functions with a termination proof; the loops of the hint queue, whose
  progress depends on its invariant, are partial functions into \<open>option\<close>, and under the invariant they
  are shown to return. No fuel is used. Third-party functions (CBOR, xxhash, maphash), the outcome of
  sending over the network, and a float64 product are parameters.

  \<^bold>\<open>Not modelled.\<close> The \<open>HitRatio\<close> field of \<open>Stats\<close> (a float64 quotient of two modelled counters); data
  races below the level of a lock. Of the cluster layer: sockets, TLS, deadlines and the accept loop of
  a node, which are I/O; the CBOR value codec, which only calls a library; the weight formula over
  float64; the buffer pool, which has no effect on results. The operations of a node that run over
  connections to others (\<open>client.go\<close>, \<open>replication.go\<close>, \<open>migrate.go\<close>, the backfill files and the RPC handlers of
  \<open>node.go\<close>) and the adapter in front of them are not part of this development; the components they
  are made of are. The benchmarks and examples are programs that use the library.
\<close>

end
